(* ===== verification/EmsPrelude.thy ===== *)
theory EmsPrelude
  imports Main "HOL-Library.Word" "HOL-Library.Signed_Division"
begin

text \<open>
  Shared vocabulary of the development: C's fixed-width signed integers written out over
  \<open>int\<close>, C's truncating division, NUL-terminated strings, the theorem collections the
  component theories feed, and generic lemmas on functions updated at a point.
\<close>

section \<open>Theorem collections\<close>

named_theorems ems_defs \<open>definitions unfolded when a whole operation is computed\<close>
named_theorems ems_frame \<open>what an operation leaves unchanged\<close>

section \<open>Signed machine integers\<close>

text \<open>
  \<open>int64_t\<close> and \<open>int32_t\<close> values are kept as \<open>int\<close>; every place where the code stores
  an arithmetic result applies the wrap-around of its width (two's complement).
\<close>

definition wrap64 :: "int \<Rightarrow> int" where
  "wrap64 x = (x + 2 ^ 63) mod 2 ^ 64 - 2 ^ 63"

definition wrap32 :: "int \<Rightarrow> int" where
  "wrap32 x = (x + 2 ^ 31) mod 2 ^ 32 - 2 ^ 31"

lemma wrap64_id [simp]: "- (2 ^ 63) \<le> x \<Longrightarrow> x < 2 ^ 63 \<Longrightarrow> wrap64 x = x"
  by (simp add: wrap64_def)

lemma wrap32_id [simp]: "- (2 ^ 31) \<le> x \<Longrightarrow> x < 2 ^ 31 \<Longrightarrow> wrap32 x = x"
  by (simp add: wrap32_def)

lemma wrap64_range: "- (2 ^ 63) \<le> wrap64 x \<and> wrap64 x < 2 ^ 63"
  by (simp add: wrap64_def)

lemma wrap32_range: "- (2 ^ 31) \<le> wrap32 x \<and> wrap32 x < 2 ^ 31"
  by (simp add: wrap32_def)

section \<open>C remainder and division\<close>

text \<open>C truncates towards zero; the library's \<open>sdiv\<close> and \<open>smod\<close> do the same.\<close>

lemma smod_nonneg: "0 \<le> a \<Longrightarrow> 0 < b \<Longrightarrow> a smod b = a mod (b::int)"
  by (cases "a = 0") (simp_all add: signed_modulo_int_def signed_divide_int_def minus_div_mult_eq_mod
    mult.commute minus_mult_div_eq_mod)

lemma sdiv_nonneg: "0 \<le> a \<Longrightarrow> 0 < b \<Longrightarrow> a sdiv b = a div (b::int)"
  by (cases "a = 0") (simp_all add: signed_divide_int_def)

lemma smod_minus_one: "1 < b \<Longrightarrow> (- 1) smod b = - (1::int)"
  by (simp add: signed_modulo_int_def)

section \<open>NUL-terminated strings\<close>

text \<open>
  A C string is what stands before the first NUL byte. \<open>c_str s\<close> is what \<open>strcpy\<close>,
  \<open>strlen\<close> and \<open>strcmp\<close> see of a buffer that holds \<open>s\<close> followed by a NUL.
\<close>

abbreviation NUL :: char where
  "NUL \<equiv> CHR 0x00"

definition c_str :: "string \<Rightarrow> string" where
  "c_str s = takeWhile (\<lambda>c. c \<noteq> NUL) s"

lemma c_str_id: "NUL \<notin> set s \<Longrightarrow> c_str s = s"
  unfolding c_str_def by (rule takeWhile_eq_all_conv [THEN iffD2]) auto

lemma c_str_no_NUL [simp]: "NUL \<notin> set (c_str s)"
  by (auto simp: c_str_def dest: set_takeWhileD)

lemma c_str_idem [simp]: "c_str (c_str s) = c_str s"
  by (rule c_str_id) simp

end
