(* ===== verification/EmsTags.thy ===== *)
theory EmsTags
  imports EmsPrelude
begin

text \<open>
  The tag byte kept beside every word of an EMS array (\<open>src/ems_types.h\<close>) and the
  constants stored in it (\<open>src/ems.h\<close>): the full/empty state, the type of the datum and
  the count of the readers-writer lock.
\<close>

section \<open>Full/empty states\<close>

datatype fe_state = EMS_TAG_FULL | EMS_TAG_EMPTY | EMS_TAG_BUSY | EMS_TAG_RW_LOCK

text \<open>
  The arguments \<open>initialFE\<close> and \<open>finalFE\<close> of the access functions may also be
  \<open>EMS_TAG_ANY\<close> (4), which is never stored. Assigning it to the two-bit field
  would store its low bits, the code of \<open>EMS_TAG_FULL\<close>.
\<close>

datatype fe_arg = EMS_TAG_ANY | FE fe_state

fun fe_code :: "fe_state \<Rightarrow> nat" where
  "fe_code EMS_TAG_FULL = 0"
| "fe_code EMS_TAG_EMPTY = 1"
| "fe_code EMS_TAG_BUSY = 2"
| "fe_code EMS_TAG_RW_LOCK = 3"

definition fe_decode :: "nat \<Rightarrow> fe_state" where
  "fe_decode n = (let k = n mod 4 in
     if k = 0 then EMS_TAG_FULL else if k = 1 then EMS_TAG_EMPTY
     else if k = 2 then EMS_TAG_BUSY else EMS_TAG_RW_LOCK)"

fun fe_field :: "fe_arg \<Rightarrow> fe_state" where
  "fe_field EMS_TAG_ANY = EMS_TAG_FULL"
| "fe_field (FE f) = f"

section \<open>Data types\<close>

text \<open>
  The seven type codes of \<open>src/ems.h\<close>, and the eighth value the three-bit field can
  hold, which no code writes.
\<close>

datatype ems_type =
    EMS_TYPE_INVALID | EMS_TYPE_BOOLEAN | EMS_TYPE_STRING | EMS_TYPE_FLOAT
  | EMS_TYPE_INTEGER | EMS_TYPE_UNDEFINED | EMS_TYPE_JSON | EMS_TYPE_UNUSED7

fun type_code :: "ems_type \<Rightarrow> nat" where
  "type_code EMS_TYPE_INVALID = 0"
| "type_code EMS_TYPE_BOOLEAN = 1"
| "type_code EMS_TYPE_STRING = 2"
| "type_code EMS_TYPE_FLOAT = 3"
| "type_code EMS_TYPE_INTEGER = 4"
| "type_code EMS_TYPE_UNDEFINED = 5"
| "type_code EMS_TYPE_JSON = 6"
| "type_code EMS_TYPE_UNUSED7 = 7"

definition type_decode :: "nat \<Rightarrow> ems_type" where
  "type_decode n =
     [EMS_TYPE_INVALID, EMS_TYPE_BOOLEAN, EMS_TYPE_STRING, EMS_TYPE_FLOAT,
      EMS_TYPE_INTEGER, EMS_TYPE_UNDEFINED, EMS_TYPE_JSON, EMS_TYPE_UNUSED7] ! (n mod 8)"

section \<open>The tag byte\<close>

text \<open>
  \<open>EMStag_t\<close> is a union of the bit fields and the byte: \<open>fe\<close> has the low two bits,
  \<open>type\<close> the next three, \<open>rw\<close> the top three (the layout of the System V ABI).
  The counter \<open>rw\<close> is a three-bit word, so it wraps as the bit field does.
\<close>

record EMStag_t =
  fe :: fe_state
  ty :: ems_type
  rw :: "3 word"

definition EMS_RW_NREADERS_MAX :: "3 word" where
  "EMS_RW_NREADERS_MAX = 7"

definition tag_byte :: "EMStag_t \<Rightarrow> 8 word" where
  "tag_byte t = word_of_nat (fe_code (fe t) + 4 * type_code (ty t) + 32 * unat (rw t))"

definition byte_tag :: "8 word \<Rightarrow> EMStag_t" where
  "byte_tag b = \<lparr>fe = fe_decode (unat b), ty = type_decode (unat b div 4),
                 rw = word_of_nat (unat b div 32)\<rparr>"

section \<open>The byte and the fields determine each other\<close>

lemma fe_code_less: "fe_code f < 4"
  by (cases f) simp_all

lemma type_code_less: "type_code t < 8"
  by (cases t) simp_all

lemma fe_decode_code [simp]: "fe_decode (fe_code f + 4 * n) = f"
proof -
  have "(fe_code f + 4 * n) mod 4 = fe_code f"
    using fe_code_less [of f] by simp
  then show ?thesis by (cases f) (simp_all add: fe_decode_def)
qed

lemma type_decode_code [simp]: "type_decode (type_code t + 8 * n) = t"
proof -
  have "(type_code t + 8 * n) mod 8 = type_code t"
    using type_code_less [of t] by simp
  then show ?thesis by (cases t) (simp_all add: type_decode_def)
qed

lemma fe_code_decode: "fe_code (fe_decode n) = n mod 4"
proof -
  have "n mod 4 = 0 \<or> n mod 4 = 1 \<or> n mod 4 = 2 \<or> n mod 4 = 3"
    by arith
  then show ?thesis by (auto simp: fe_decode_def)
qed

lemma type_code_decode: "type_code (type_decode n) = n mod 8"
proof -
  have "n mod 8 = 0 \<or> n mod 8 = 1 \<or> n mod 8 = 2 \<or> n mod 8 = 3 \<or>
        n mod 8 = 4 \<or> n mod 8 = 5 \<or> n mod 8 = 6 \<or> n mod 8 = 7"
    by arith
  then show ?thesis by (auto simp: type_decode_def)
qed

lemma unat_rw_less: "unat (r :: 3 word) < 8"
  using unsigned_less [of r, where ?'a = nat] by simp

lemma unat_tag_byte:
  "unat (tag_byte t) = fe_code (fe t) + 4 * type_code (ty t) + 32 * unat (rw t)"
proof -
  have "fe_code (fe t) + 4 * type_code (ty t) + 32 * unat (rw t) < 256"
    using fe_code_less [of "fe t"] type_code_less [of "ty t"] unat_rw_less [of "rw t"]
    by linarith
  then show ?thesis
    unfolding tag_byte_def by (simp only: unat_of_nat) simp
qed

lemma byte_tag_byte: "byte_tag (tag_byte t) = t"
proof -
  let ?n = "fe_code (fe t) + 4 * type_code (ty t) + 32 * unat (rw t)"
  have 1: "?n = fe_code (fe t) + 4 * (type_code (ty t) + 8 * unat (rw t))"
    by simp
  have 2: "?n div 4 = type_code (ty t) + 8 * unat (rw t)"
    unfolding 1 using fe_code_less [of "fe t"] by simp
  have 3: "?n div 32 = unat (rw t)"
    using fe_code_less [of "fe t"] type_code_less [of "ty t"] by linarith
  have "fe_decode ?n = fe t"
    unfolding 1 by (rule fe_decode_code)
  moreover have "type_decode (?n div 4) = ty t"
    unfolding 2 by (rule type_decode_code)
  ultimately show ?thesis
    by (simp add: byte_tag_def unat_tag_byte 3)
qed

lemma tag_byte_tag: "tag_byte (byte_tag b) = b"
proof -
  have b: "unat b < 256" using unsigned_less [of b, where ?'a = nat] by simp
  then have r: "unat (word_of_nat (unat b div 32) :: 3 word) = unat b div 32"
    by (simp add: unat_of_nat)
  have "unat b mod 4 + 4 * (unat b div 4 mod 8) + 32 * (unat b div 32) = unat b"
    using div_mult2_eq [of "unat b" 4 8, simplified] mod_mult_div_eq [of "unat b" 4]
      mod_mult_div_eq [of "unat b div 4" 8] by linarith
  then have "unat (tag_byte (byte_tag b)) = unat b"
    by (simp add: unat_tag_byte byte_tag_def fe_code_decode type_code_decode r)
  then show ?thesis by (simp add: word_unat_eq_iff)
qed

text \<open>So a compare and swap on the byte compares and swaps all three fields at once, and nothing else.\<close>

lemma tag_byte_bijective:
  "byte_tag (tag_byte t) = t \<and> tag_byte (byte_tag b) = b \<and>
   (tag_byte t = tag_byte u) = (t = u)"
  by (metis byte_tag_byte tag_byte_tag)

end
