(* ===== verification/EmsLayout.thy ===== *)
theory EmsLayout
  imports EmsTags
begin

text \<open>
  Where things live in an EMS buffer: the index macros of \<open>src/ems.h\<close> and the region
  bounds \<open>EMSinitialize\<close> computes from them. Application indexes (control block words
  first, then the data, then the map keys) are laid out in lines of eight 64-bit words: seven
  data words and one word that holds the seven tag bytes.
\<close>

section \<open>Index macros\<close>

abbreviation EMSwordSize :: nat where "EMSwordSize \<equiv> 8"
abbreviation EMSnWordsPerTagWord :: nat where "EMSnWordsPerTagWord \<equiv> 7"
abbreviation EMSnWordsPerLine :: nat where "EMSnWordsPerLine \<equiv> 8"

definition NWORDS_PER_CACHELINE :: nat where "NWORDS_PER_CACHELINE = 16"

text \<open>Words of the control block, as application indexes.\<close>

definition EMS_ARR_NELEM :: nat where "EMS_ARR_NELEM = 0 * NWORDS_PER_CACHELINE"
definition EMS_ARR_HEAPSZ :: nat where "EMS_ARR_HEAPSZ = 1 * NWORDS_PER_CACHELINE"
definition EMS_ARR_Q_BOTTOM :: nat where "EMS_ARR_Q_BOTTOM = 2 * NWORDS_PER_CACHELINE"
definition EMS_ARR_STACKTOP :: nat where "EMS_ARR_STACKTOP = 3 * NWORDS_PER_CACHELINE"
definition EMS_ARR_MAPBOT :: nat where "EMS_ARR_MAPBOT = 4 * NWORDS_PER_CACHELINE"
definition EMS_ARR_MALLOCBOT :: nat where "EMS_ARR_MALLOCBOT = 5 * NWORDS_PER_CACHELINE"
definition EMS_ARR_HEAPBOT :: nat where "EMS_ARR_HEAPBOT = 6 * NWORDS_PER_CACHELINE"
definition EMS_ARR_MEM_MUTEX :: nat where "EMS_ARR_MEM_MUTEX = 7 * NWORDS_PER_CACHELINE"
definition EMS_ARR_FILESZ :: nat where "EMS_ARR_FILESZ = 8 * NWORDS_PER_CACHELINE"
definition EMS_ARR_CB_SIZE :: nat where "EMS_ARR_CB_SIZE = 16 * NWORDS_PER_CACHELINE"

lemmas ems_cb_defs =
  NWORDS_PER_CACHELINE_def EMS_ARR_NELEM_def EMS_ARR_HEAPSZ_def EMS_ARR_Q_BOTTOM_def
  EMS_ARR_STACKTOP_def EMS_ARR_MAPBOT_def EMS_ARR_MALLOCBOT_def EMS_ARR_HEAPBOT_def
  EMS_ARR_MEM_MUTEX_def EMS_ARR_FILESZ_def EMS_ARR_CB_SIZE_def

definition EMSappIdx2emsIdx :: "nat \<Rightarrow> nat" where
  "EMSappIdx2emsIdx idx =
     (idx div EMSnWordsPerTagWord) * EMSnWordsPerLine + idx mod EMSnWordsPerTagWord"

definition EMSappIdx2LineIdx :: "nat \<Rightarrow> nat" where
  "EMSappIdx2LineIdx idx = (idx div EMSnWordsPerTagWord) * EMSnWordsPerLine"

definition EMSappIdx2TagWordIdx :: "nat \<Rightarrow> nat" where
  "EMSappIdx2TagWordIdx idx = EMSappIdx2LineIdx idx + EMSnWordsPerTagWord"

definition EMSappIdx2TagWordOffset :: "nat \<Rightarrow> nat" where
  "EMSappIdx2TagWordOffset idx = EMSappIdx2TagWordIdx idx * EMSwordSize"

definition EMSappTag2emsTag :: "nat \<Rightarrow> nat" where
  "EMSappTag2emsTag idx = EMSappIdx2TagWordOffset idx + idx mod EMSnWordsPerTagWord"

definition EMSdataTagWord :: "nat \<Rightarrow> nat" where
  "EMSdataTagWord idx = EMSappIdx2TagWordOffset (idx + EMS_ARR_CB_SIZE)"

lemmas ems_layout_defs =
  EMSappIdx2emsIdx_def EMSappIdx2LineIdx_def EMSappIdx2TagWordIdx_def
  EMSappIdx2TagWordOffset_def EMSappTag2emsTag_def EMSdataTagWord_def

section \<open>Words and tags do not overlap\<close>

lemma emsIdx_inj: "EMSappIdx2emsIdx i = EMSappIdx2emsIdx j \<Longrightarrow> i = j"
proof -
  have "EMSappIdx2emsIdx k div 8 = k div 7" "EMSappIdx2emsIdx k mod 8 = k mod 7" for k
    by (simp_all add: EMSappIdx2emsIdx_def)
  then show "EMSappIdx2emsIdx i = EMSappIdx2emsIdx j \<Longrightarrow> i = j"
    by (metis div_mult_mod_eq)
qed

lemma emsTag_eq: "EMSappTag2emsTag i = 64 * (i div 7) + 56 + i mod 7"
  by (simp add: ems_layout_defs)

lemma emsTag_word: "EMSappTag2emsTag i div 8 = 8 * (i div 7) + 7"
  and emsTag_in_word: "EMSappTag2emsTag i mod 8 = i mod 7"
proof -
  have eq: "EMSappTag2emsTag i = 8 * (8 * (i div 7) + 7) + i mod 7"
    by (simp add: emsTag_eq)
  have r: "i mod 7 < 8" by (rule less_trans [of _ 7]) simp_all
  show "EMSappTag2emsTag i div 8 = 8 * (i div 7) + 7"
    unfolding eq using r by (subst div_mult_self4) simp_all
  show "EMSappTag2emsTag i mod 8 = i mod 7"
    unfolding eq mod_mult_self4 using r by (rule mod_less)
qed

lemma emsTag_inj:
  assumes "EMSappTag2emsTag i = EMSappTag2emsTag j" shows "i = j"
proof -
  from assms have "8 * (i div 7) + 7 = 8 * (j div 7) + 7" "i mod 7 = j mod 7"
    by (metis emsTag_word, metis emsTag_in_word)
  then have "i div 7 = j div 7" by simp
  with \<open>i mod 7 = j mod 7\<close> show ?thesis by (metis div_mult_mod_eq)
qed

lemma emsTag_not_data_word: "EMSappTag2emsTag i div 8 \<noteq> EMSappIdx2emsIdx j"
proof
  assume "EMSappTag2emsTag i div 8 = EMSappIdx2emsIdx j"
  then have "(8 * (i div 7) + 7) mod 8 = EMSappIdx2emsIdx j mod 8"
    by (simp add: emsTag_word)
  moreover have "EMSappIdx2emsIdx j mod 8 = j mod 7"
    by (simp add: EMSappIdx2emsIdx_def)
  moreover have "j mod 7 < 7" by simp
  ultimately show False by simp
qed

text \<open>
  C24: distinct application indexes have distinct data words and distinct tag bytes, and no tag
  byte lies inside any data word. This is what lets the model keep the words and the tags of a
  buffer as two separate functions of the application index.
\<close>

theorem layout_disjoint:
  "(EMSappIdx2emsIdx i = EMSappIdx2emsIdx j \<longleftrightarrow> i = j) \<and>
   (EMSappTag2emsTag i = EMSappTag2emsTag j \<longleftrightarrow> i = j) \<and>
   EMSappTag2emsTag i div EMSwordSize \<noteq> EMSappIdx2emsIdx j"
  using emsIdx_inj emsTag_inj emsTag_not_data_word by blast

section \<open>Region bounds computed by \<open>EMSinitialize\<close>\<close>

text \<open>Byte offsets; \<open>nElements\<close> is the number of elements of the array.\<close>

definition bottomOfMap :: "nat \<Rightarrow> nat" where
  "bottomOfMap nElements = EMSdataTagWord nElements + EMSwordSize"

definition bottomOfMalloc :: "nat \<Rightarrow> bool \<Rightarrow> nat" where
  "bottomOfMalloc nElements useMap =
     (if useMap then bottomOfMap nElements + bottomOfMap nElements else bottomOfMap nElements)"

text \<open>The byte just past the data word, and just past the tag, of an application index.\<close>

definition word_end :: "nat \<Rightarrow> nat" where
  "word_end idx = EMSappIdx2emsIdx idx * EMSwordSize + EMSwordSize"

definition tag_end :: "nat \<Rightarrow> nat" where
  "tag_end idx = EMSappTag2emsTag idx + 1"

lemma bottomOfMap_eq: "bottomOfMap n = 64 * ((n + 256) div 7 + 1)"
  by (simp add: bottomOfMap_def ems_layout_defs ems_cb_defs)

lemma word_end_le: "word_end i \<le> 64 * (i div 7) + 56"
proof -
  have "i mod 7 < 7" by simp
  then show ?thesis by (simp add: word_end_def EMSappIdx2emsIdx_def)
qed

lemma tag_end_le: "tag_end i \<le> 64 * (i div 7) + 63"
proof -
  have "i mod 7 < 7" by simp
  then show ?thesis by (simp add: tag_end_def emsTag_eq)
qed

lemma data_below_map:
  assumes "i < EMS_ARR_CB_SIZE + n"
  shows "word_end i \<le> bottomOfMap n \<and> tag_end i \<le> bottomOfMap n"
proof -
  have "i div 7 \<le> (n + 256) div 7"
    using assms by (intro div_le_mono) (simp add: ems_cb_defs)
  then have "64 * (i div 7) + 64 \<le> bottomOfMap n"
    unfolding bottomOfMap_eq by simp
  then show ?thesis
    using word_end_le [of i] tag_end_le [of i] by simp
qed

lemma double_div7: "i < 2 * m \<Longrightarrow> i div 7 \<le> 2 * (m div 7) + 1" for i m :: nat
proof -
  assume "i < 2 * m"
  moreover obtain q r where "m = 7 * q + r" "r < 7"
    by (metis mod_less_divisor mult_div_mod_eq zero_less_numeral)
  ultimately have "i < (2 * q + 2) * 7" "m div 7 = q" by simp_all
  then show ?thesis using less_mult_imp_div_less [of i "2 * q + 2" 7] by simp
qed

lemma map_below_malloc:
  assumes "i < EMS_ARR_CB_SIZE + 2 * n"
  shows "word_end i \<le> bottomOfMalloc n True \<and> tag_end i \<le> bottomOfMalloc n True"
proof -
  have "i < 2 * (n + 256)"
    using assms by (simp add: ems_cb_defs)
  then have "i div 7 \<le> 2 * ((n + 256) div 7) + 1"
    by (rule double_div7)
  then have "64 * (i div 7) + 64 \<le> bottomOfMalloc n True"
    unfolding bottomOfMalloc_def bottomOfMap_eq by simp
  then show ?thesis
    using word_end_le [of i] tag_end_le [of i] by simp
qed

text \<open>
  The words and tags of the control block and of all elements, and with a map those of all
  map keys, end before the region of the allocator, so no element or key write can reach the
  allocator or the heap.
\<close>

lemma regions_fit:
  assumes "i < EMS_ARR_CB_SIZE + (if useMap then 2 * nElements else nElements)"
  shows "word_end i \<le> bottomOfMalloc nElements useMap \<and>
         tag_end i \<le> bottomOfMalloc nElements useMap"
  using assms data_below_map [of i nElements] map_below_malloc [of i nElements]
  by (cases useMap) (simp_all add: bottomOfMalloc_def)

text \<open>
  The macro \<open>EMSisMapped\<close> compares two words of the control block, which
  \<open>EMSinitialize\<close> stores as follows.
\<close>

definition mapbot_word :: "nat \<Rightarrow> nat" where
  "mapbot_word nElements = bottomOfMap nElements div EMSwordSize"

lemma mapped_iff_useMap:
  "mapbot_word n * EMSwordSize \<noteq> bottomOfMalloc n useMap \<longleftrightarrow> useMap"
  by (simp add: mapbot_word_def bottomOfMalloc_def bottomOfMap_eq)

end
