(* ===== verification/Buddy.thy ===== *)
theory Buddy
  imports EmsPrelude
begin

text \<open>
  The buddy allocator of the EMS heap, \<open>src/ems_alloc.cc\<close>, as it is written: an implicit
  binary tree of node states in an array, walked by index arithmetic. Node \<open>i\<close> has the
  children \<open>2 i + 1\<close> and \<open>2 i + 2\<close>; the root stands for the whole heap of
  \<open>2 ^ level\<close> blocks. The array is a function of the index, so reads and writes need no
  bounds check here, as in C; that the code stays inside its array is a theorem.
\<close>

section \<open>The control structure\<close>

datatype buddy = BUDDY_UNUSED | BUDDY_USED | BUDDY_SPLIT | BUDDY_FULL

type_synonym buddy_tree = "int \<Rightarrow> buddy"

record emsMem =
  m_level :: nat
  m_tree :: buddy_tree

definition EMS_MEM_BLOCKSZ :: nat where
  "EMS_MEM_BLOCKSZ = 32"

text \<open>
  \<open>emsMem_new\<close> sets the \<open>2 * sz - 1\<close> nodes to unused; \<open>rest\<close> is whatever
  memory holds outside the array.
\<close>

definition emsMem_new :: "nat \<Rightarrow> buddy_tree \<Rightarrow> emsMem" where
  "emsMem_new level rest =
     (let sz = 2 ^ level in
      \<lparr>m_level = level,
       m_tree = (\<lambda>i. if 0 \<le> i \<and> i < sz * 2 - 1 then BUDDY_UNUSED else rest i)\<rparr>)"

section \<open>Powers of two\<close>

text \<open>The compiler's bit counting built-ins on 64-bit values.\<close>

fun bit_length :: "nat \<Rightarrow> nat" where
  "bit_length n = (if n = 0 then 0 else Suc (bit_length (n div 2)))"

declare bit_length.simps [simp del]

fun popcountll :: "nat \<Rightarrow> nat" where
  "popcountll n = (if n = 0 then 0 else n mod 2 + popcountll (n div 2))"

declare popcountll.simps [simp del]

definition clzll :: "nat \<Rightarrow> nat" where
  "clzll x = 64 - bit_length x"

text \<open>
  \<open>None\<close> stands for undefined behaviour: \<open>__builtin_clzll(0)\<close>, and a shift by 64
  when the top bit of a value that is no power of two is set.
\<close>

definition emsNextPow2 :: "nat \<Rightarrow> nat option" where
  "emsNextPow2 x =
     (if popcountll x = 1 then Some x
      else if x = 0 \<or> clzll x = 0 then None
      else Some (2 ^ (64 - clzll x)))"

definition EMS_index_offset :: "int \<Rightarrow> int \<Rightarrow> int \<Rightarrow> int" where
  "EMS_index_offset index level max_level =
     ((index + 1) - 2 ^ nat level) * 2 ^ nat (max_level - level)"

section \<open>Allocation\<close>

definition buddy_of :: "int \<Rightarrow> int" where
  "buddy_of index = index - 1 + (index mod 2) * 2"

definition parent_of :: "int \<Rightarrow> int" where
  "parent_of index = (index + 1) div 2 - 1"

lemma parent_less: "0 < buddy_of i \<Longrightarrow> 0 \<le> parent_of i \<and> parent_of i < i"
  by (auto simp: buddy_of_def parent_of_def) presburger+

text \<open>The recursion is the \<open>for (; ;)\<close> loop of \<open>EMS_mark_parent\<close>.\<close>

function EMS_mark_parent :: "buddy_tree \<Rightarrow> int \<Rightarrow> buddy_tree" where
  "EMS_mark_parent tree index =
     (if buddy_of index > 0 \<and>
         (tree (buddy_of index) = BUDDY_USED \<or> tree (buddy_of index) = BUDDY_FULL)
      then EMS_mark_parent (tree(parent_of index := BUDDY_FULL)) (parent_of index)
      else tree)"
  by pat_completeness auto
termination
  by (relation "measure (\<lambda>(tree, index). nat index)") (auto dest: parent_less)

declare EMS_mark_parent.simps [simp del]

text \<open>
  The inner \<open>for (; ;)\<close> of \<open>emsMem_alloc\<close>: climb until a left child is found, whose
  sibling is visited next. \<open>None\<close> is the \<open>return -1\<close> above the root.
\<close>

function alloc_up :: "int \<Rightarrow> int \<Rightarrow> int \<Rightarrow> (int \<times> int \<times> int) option" where
  "alloc_up index level len =
     (if parent_of index < 0 then None
      else if parent_of index mod 2 = 1
        then Some (parent_of index + 1, level - 1, len * 2)
      else alloc_up (parent_of index) (level - 1) (len * 2))"
  by pat_completeness auto
termination
  by (relation "measure (\<lambda>(index, level, len). nat index)")
     (auto simp: parent_of_def)

declare alloc_up.simps [simp del]

text \<open>
  The \<open>while (index >= 0)\<close> loop of \<open>emsMem_alloc\<close>. Its arguments are the
  function's local variables; it returns the byte offset, or \<open>-1\<close>, and the tree.
  \<open>None\<close> would be a search that never ends; \<open>alloc_loop_sim\<close> in \<open>BuddyProof\<close>
  excludes it.
\<close>

partial_function (option) alloc_loop ::
  "int \<Rightarrow> int \<Rightarrow> int \<Rightarrow> int \<Rightarrow> int \<Rightarrow> buddy_tree \<Rightarrow> (int \<times> buddy_tree) option" where
  "alloc_loop sz max_level len index level tree =
     (if index \<ge> 0 then
        if sz = len \<and> tree index = BUDDY_UNUSED then
          Some (EMS_index_offset index level max_level * int EMS_MEM_BLOCKSZ,
                EMS_mark_parent (tree(index := BUDDY_USED)) index)
        else if sz \<noteq> len \<and> tree index \<noteq> BUDDY_USED \<and> tree index \<noteq> BUDDY_FULL then
          alloc_loop sz max_level (len div 2) (index * 2 + 1) (level + 1)
            (if tree index = BUDDY_UNUSED
             then tree(index := BUDDY_SPLIT, index * 2 + 1 := BUDDY_UNUSED,
                       index * 2 + 2 := BUDDY_UNUSED)
             else tree)
        else if index mod 2 = 1 then
          alloc_loop sz max_level len (index + 1) level tree
        else
          (case alloc_up index level len of
             None \<Rightarrow> Some (- 1, tree)
           | Some (index', level', len') \<Rightarrow>
               alloc_loop sz max_level len' index' level' tree)
      else Some (- 1, tree))"

text \<open>
  \<open>emsMem_alloc\<close>: the result \<open>-1\<close> is the code's \<open>(size_t) -1\<close>, which every caller
  stores in an \<open>int64_t\<close>. The request in bytes is a \<open>size_t\<close>, so adding
  \<open>EMS_MEM_BLOCKSZ - 1\<close> wraps at 64 bits.
\<close>

definition emsMem_alloc :: "emsMem \<Rightarrow> nat \<Rightarrow> (int \<times> emsMem) option" where
  "emsMem_alloc self bytesRequested =
     (case emsNextPow2 ((bytesRequested + (EMS_MEM_BLOCKSZ - 1)) mod 2 ^ 64 div EMS_MEM_BLOCKSZ) of
        None \<Rightarrow> None
      | Some sz0 \<Rightarrow>
          (let sz = (if sz0 = 0 then 1 else sz0);
               len = 2 ^ m_level self in
           if sz > len then Some (- 1, self)
           else map_option (\<lambda>(addr, tree). (addr, self\<lparr>m_tree := tree\<rparr>))
                  (alloc_loop (int sz) (int (m_level self)) (int len) 0 0 (m_tree self))))"

section \<open>Release\<close>

text \<open>The inner \<open>while\<close> of \<open>EMS_combine\<close>: full ancestors become split.\<close>

function combine_unfull :: "buddy_tree \<Rightarrow> int \<Rightarrow> buddy_tree" where
  "combine_unfull tree index =
     (if parent_of index \<ge> 0 \<and> tree (parent_of index) = BUDDY_FULL
      then combine_unfull (tree(parent_of index := BUDDY_SPLIT)) (parent_of index)
      else tree)"
  by pat_completeness auto
termination
  by (relation "measure (\<lambda>(tree, index). nat index)") (auto simp: parent_of_def)

declare combine_unfull.simps [simp del]

partial_function (option) EMS_combine :: "buddy_tree \<Rightarrow> int \<Rightarrow> buddy_tree option" where
  "EMS_combine tree index =
     (if buddy_of index < 0 \<or> tree (buddy_of index) \<noteq> BUDDY_UNUSED
      then Some (combine_unfull (tree(index := BUDDY_UNUSED)) index)
      else EMS_combine tree (parent_of index))"

text \<open>A failed \<open>assert\<close> aborts the process.\<close>

datatype alloc_error = AssertFailed

text \<open>
  The loop of \<open>emsMem_free\<close>; offsets and lengths count blocks. The outer option is
  \<open>None\<close> for a walk that never ends.
\<close>

partial_function (option) free_loop ::
  "buddy_tree \<Rightarrow> int \<Rightarrow> int \<Rightarrow> int \<Rightarrow> int \<Rightarrow> (alloc_error + buddy_tree) option" where
  "free_loop tree offset left len index =
     (case tree index of
        BUDDY_USED \<Rightarrow>
          (if offset = left then map_option Inr (EMS_combine tree index)
           else Some (Inl AssertFailed))
      | BUDDY_UNUSED \<Rightarrow> Some (Inl AssertFailed)
      | _ \<Rightarrow>
          (if offset < left + len div 2
           then free_loop tree offset left (len div 2) (index * 2 + 1)
           else free_loop tree offset (left + len div 2) (len div 2) (index * 2 + 2)))"

definition emsMem_free :: "emsMem \<Rightarrow> nat \<Rightarrow> (alloc_error + emsMem) option" where
  "emsMem_free self offset =
     (let offset = offset div EMS_MEM_BLOCKSZ in
      if offset < 2 ^ m_level self
      then map_option (map_sum id (\<lambda>tree. self\<lparr>m_tree := tree\<rparr>))
             (free_loop (m_tree self) (int offset) 0 (2 ^ m_level self) 0)
      else Some (Inl AssertFailed))"

text \<open>
  The loop of \<open>emsMem_size\<close>. Note that \<open>emsMem_size\<close>, unlike \<open>emsMem_free\<close>,
  does not divide its argument by the block size.
\<close>

partial_function (option) size_loop ::
  "buddy_tree \<Rightarrow> int \<Rightarrow> int \<Rightarrow> int \<Rightarrow> int \<Rightarrow> (alloc_error + int) option" where
  "size_loop tree offset left len index =
     (case tree index of
        BUDDY_USED \<Rightarrow>
          (if offset = left then Some (Inr (len * int EMS_MEM_BLOCKSZ))
           else Some (Inl AssertFailed))
      | BUDDY_UNUSED \<Rightarrow> Some (Inl AssertFailed)
      | _ \<Rightarrow>
          (if offset < left + len div 2
           then size_loop tree offset left (len div 2) (index * 2 + 1)
           else size_loop tree offset (left + len div 2) (len div 2) (index * 2 + 2)))"

definition emsMem_size :: "emsMem \<Rightarrow> nat \<Rightarrow> (alloc_error + int) option" where
  "emsMem_size self offset =
     (if offset < 2 ^ m_level self
      then size_loop (m_tree self) (int offset) 0 (2 ^ m_level self) 0
      else Some (Inl AssertFailed))"

end
