(* ===== verification/BuddyTree.thy ===== *)
theory BuddyTree
  imports EmsPrelude
begin

text \<open>
  The specification of a buddy allocator: a binary tree whose leaves are free or used, with
  allocation, release, and the set of blocks in use. Nothing here refers to the array of
  \<open>src/ems_alloc.cc\<close>; \<open>BuddyProof\<close> shows that the code implements it.
\<close>

section \<open>Trees, allocation and release\<close>

datatype btree = BFree | BUsed | BNode btree btree

fun bfull :: "btree \<Rightarrow> bool" where
  "bfull BFree = False"
| "bfull BUsed = True"
| "bfull (BNode l r) = (bfull l \<and> bfull r)"

definition bjoin :: "btree \<Rightarrow> btree \<Rightarrow> btree" where
  "bjoin l r = (if l = BFree \<and> r = BFree then BFree else BNode l r)"

text \<open>Two free buddies are always merged; the height bounds the depth.\<close>

fun canon :: "nat \<Rightarrow> btree \<Rightarrow> bool" where
  "canon h BFree = True"
| "canon h BUsed = True"
| "canon 0 (BNode l r) = False"
| "canon (Suc h) (BNode l r) = (canon h l \<and> canon h r \<and> \<not> (l = BFree \<and> r = BFree))"

text \<open>
  \<open>balloc k h b\<close> takes the leftmost free node of height \<open>k\<close>, splitting a larger free
  node where needed, and returns its offset.
\<close>

fun balloc :: "nat \<Rightarrow> nat \<Rightarrow> btree \<Rightarrow> (nat \<times> btree) option" where
  "balloc k 0 b = (if k = 0 \<and> b = BFree then Some (0, BUsed) else None)"
| "balloc k (Suc h) b =
     (if k = Suc h then (if b = BFree then Some (0, BUsed) else None)
      else (case b of
          BUsed \<Rightarrow> None
        | BFree \<Rightarrow> map_option (\<lambda>(a, l). (a, BNode l BFree)) (balloc k h BFree)
        | BNode l r \<Rightarrow>
            (case balloc k h l of
               Some (a, l') \<Rightarrow> Some (a, BNode l' r)
             | None \<Rightarrow> map_option (\<lambda>(a, r'). (2 ^ h + a, BNode l r')) (balloc k h r))))"

fun bfree :: "nat \<Rightarrow> nat \<Rightarrow> btree \<Rightarrow> btree option" where
  "bfree a h BFree = None"
| "bfree a h BUsed = (if a = 0 then Some BFree else None)"
| "bfree a 0 (BNode l r) = None"
| "bfree a (Suc h) (BNode l r) =
     (if a < 2 ^ h then map_option (\<lambda>l'. bjoin l' r) (bfree a h l)
      else map_option (\<lambda>r'. bjoin l r') (bfree (a - 2 ^ h) h r))"

section \<open>The blocks in use\<close>

text \<open>A block is its offset and the logarithm of its length.\<close>

type_synonym block = "nat \<times> nat"

definition extent :: "block \<Rightarrow> nat set" where
  "extent x = {fst x ..< fst x + 2 ^ snd x}"

definition shift :: "nat \<Rightarrow> block \<Rightarrow> block" where
  "shift d x = (d + fst x, snd x)"

fun blocks :: "nat \<Rightarrow> btree \<Rightarrow> block set" where
  "blocks h BFree = {}"
| "blocks h BUsed = {(0, h)}"
| "blocks 0 (BNode l r) = {}"
| "blocks (Suc h) (BNode l r) = blocks h l \<union> shift (2 ^ h) ` blocks h r"

lemma shift_sel [simp]: "fst (shift d x) = d + fst x" "snd (shift d x) = snd x"
  by (simp_all add: shift_def)

lemma shift_eq_iff [simp]: "shift d x = shift d y \<longleftrightarrow> x = y"
  by (auto simp: shift_def prod_eq_iff)

lemma inj_shift: "inj_on (shift d) A"
  by (simp add: inj_on_def)

lemma extent_shift: "extent (shift d x) = (+) d ` extent x"
  by (simp add: extent_def image_add_atLeastLessThan add.assoc add.commute)

lemma extent_shift_Int:
  "extent (shift d x) \<inter> extent (shift d y) = {} \<longleftrightarrow> extent x \<inter> extent y = {}"
  by (simp add: extent_shift image_Int [symmetric])

lemma extent_nonempty: "extent x \<noteq> {}"
  by (simp add: extent_def)

lemma extent_Pair: "extent (a, k) = {a ..< a + 2 ^ k}"
  by (simp add: extent_def)

lemma blocks_range: "x \<in> blocks h b \<Longrightarrow> fst x + 2 ^ snd x \<le> 2 ^ h \<and> snd x \<le> h"
proof (induction h b arbitrary: x rule: blocks.induct)
  case (4 h l r)
  then show ?case by fastforce
qed auto

lemma block_start: "x \<in> blocks h b \<Longrightarrow> fst x < 2 ^ h"
proof -
  assume "x \<in> blocks h b"
  then have "fst x + 2 ^ snd x \<le> 2 ^ h" using blocks_range by blast
  moreover have "(0::nat) < 2 ^ snd x" by simp
  ultimately show ?thesis by linarith
qed

lemma extent_below: "x \<in> blocks h b \<Longrightarrow> extent x \<subseteq> {..< 2 ^ h}"
  using blocks_range [of x h b] by (auto simp: extent_def)

lemma extent_left_right:
  assumes "x \<in> blocks h l" "y \<in> shift (2 ^ h) ` blocks h r"
  shows "extent x \<inter> extent y = {}"
proof -
  obtain z where "y = shift (2 ^ h) z" using assms(2) by auto
  then have "extent y \<subseteq> {2 ^ h ..}" by (auto simp: extent_def)
  with extent_below [OF assms(1)] show ?thesis by fastforce
qed

lemma blocks_aligned: "x \<in> blocks h b \<Longrightarrow> 2 ^ snd x dvd fst x"
proof (induction h b arbitrary: x rule: blocks.induct)
  case (4 h l r)
  from "4.prems" consider "x \<in> blocks h l"
    | y where "y \<in> blocks h r" "x = shift (2 ^ h) y" by auto
  then show ?case
  proof cases
    case 2
    then have "snd y \<le> h" using blocks_range by blast
    then have "(2::nat) ^ snd y dvd 2 ^ h" by (rule le_imp_power_dvd)
    with 2 "4.IH"(2) show ?thesis by simp
  qed (use "4.IH"(1) in simp)
qed auto

lemma blocks_disjoint:
  "x \<in> blocks h b \<Longrightarrow> y \<in> blocks h b \<Longrightarrow> x \<noteq> y \<Longrightarrow> extent x \<inter> extent y = {}"
proof (induction h b arbitrary: x y rule: blocks.induct)
  case (4 h l r)
  let ?S = "shift (2 ^ h) ` blocks h r"
  consider "x \<in> blocks h l" "y \<in> blocks h l" | "x \<in> blocks h l" "y \<in> ?S"
    | "x \<in> ?S" "y \<in> blocks h l" | "x \<in> ?S" "y \<in> ?S"
    using "4.prems" by auto
  then show ?case
  proof cases
    case 1
    then show ?thesis using "4.IH"(1) "4.prems"(3) by blast
  next
    case 2
    then show ?thesis by (rule extent_left_right)
  next
    case 3
    then show ?thesis using extent_left_right [of y h l x r] by blast
  next
    case 4
    then obtain u v where "u \<in> blocks h r" "v \<in> blocks h r"
      "x = shift (2 ^ h) u" "y = shift (2 ^ h) v" by auto
    with "4.IH"(2) "4.prems"(3) show ?thesis by (simp add: extent_shift_Int)
  qed
qed auto

lemma blocks_nonempty: "canon h b \<Longrightarrow> b \<noteq> BFree \<Longrightarrow> blocks h b \<noteq> {}"
  by (induction h b rule: canon.induct) auto

lemma bfull_covers: "canon h b \<Longrightarrow> bfull b \<Longrightarrow> a < 2 ^ h \<Longrightarrow> \<exists>x \<in> blocks h b. a \<in> extent x"
proof (induction h b arbitrary: a rule: canon.induct)
  case (4 h l r)
  show ?case
  proof (cases "a < 2 ^ h")
    case True
    with 4 obtain x where "x \<in> blocks h l" "a \<in> extent x" by fastforce
    then show ?thesis by auto
  next
    case False
    with "4.prems" have "a - 2 ^ h < 2 ^ h" by simp
    with 4 obtain x where "x \<in> blocks h r" "a - 2 ^ h \<in> extent x" by fastforce
    with False have "a \<in> extent (shift (2 ^ h) x)" by (auto simp: extent_def)
    with \<open>x \<in> blocks h r\<close> show ?thesis by auto
  qed
qed (auto simp: extent_def)

section \<open>Allocation takes one free block\<close>

lemma balloc_SucE:
  assumes "balloc k (Suc h) b = Some (a, b')"
  obtains (whole) "k = Suc h" "b = BFree" "a = 0" "b' = BUsed"
  | (split) l where "k \<noteq> Suc h" "b = BFree" "balloc k h BFree = Some (a, l)"
      "b' = BNode l BFree"
  | (left) l r l' where "k \<noteq> Suc h" "b = BNode l r" "balloc k h l = Some (a, l')"
      "b' = BNode l' r"
  | (right) l r c r' where "k \<noteq> Suc h" "b = BNode l r" "balloc k h l = None"
      "balloc k h r = Some (c, r')" "a = 2 ^ h + c" "b' = BNode l r'"
  using assms by (auto split: if_splits btree.splits option.splits)

lemma balloc_BFree: "k \<le> h \<Longrightarrow> balloc k h BFree \<noteq> None"
  by (induction h) auto

lemma balloc_bfull: "bfull b \<Longrightarrow> balloc k h b = None"
  by (induction h arbitrary: b) (auto split: btree.splits option.splits)

lemma balloc_not_BFree: "balloc k h b = Some (a, b') \<Longrightarrow> b' \<noteq> BFree"
  by (induction h) (auto split: if_splits btree.splits option.splits)

lemma balloc_canon: "balloc k h b = Some (a, b') \<Longrightarrow> canon h b \<Longrightarrow> canon h b'"
proof (induction h arbitrary: b a b')
  case (Suc h)
  then show ?case
    by (auto split: if_splits btree.splits option.splits dest: balloc_not_BFree)
qed (auto split: if_splits)

lemma balloc_range: "balloc k h b = Some (a, b') \<Longrightarrow> k \<le> h \<and> a + 2 ^ k \<le> 2 ^ h"
proof (induction h arbitrary: b a b')
  case (Suc h)
  then show ?case
    by (fastforce split: if_splits btree.splits option.splits)
qed (auto split: if_splits)

lemma balloc_start: "balloc k h b = Some (a, b') \<Longrightarrow> a < 2 ^ h"
  using balloc_range [of k h b a b'] zero_less_power [of "2::nat" k] by linarith

lemma balloc_blocks:
  "balloc k h b = Some (a, b') \<Longrightarrow>
     blocks h b' = insert (a, k) (blocks h b) \<and> (a, k) \<notin> blocks h b"
proof (induction h arbitrary: b a b')
  case (Suc h)
  from Suc.prems show ?case
  proof (cases rule: balloc_SucE)
    case whole
    then show ?thesis by simp
  next
    case (split l)
    with Suc.IH [OF split(3)] show ?thesis by simp
  next
    case (left l r l')
    have "(a, k) \<notin> shift (2 ^ h) ` blocks h r"
      using balloc_start [OF left(3)] by (auto simp: shift_def)
    with left Suc.IH [OF left(3)] show ?thesis by auto
  next
    case (right l r c r')
    have "(a, k) \<notin> blocks h l"
      using block_start [of "(a, k)" h l] right by auto
    moreover have "(a, k) = shift (2 ^ h) (c, k)"
      using right by (simp add: shift_def)
    ultimately show ?thesis
      using right Suc.IH [OF right(4)] by auto
  qed
qed (auto split: if_splits)

lemma balloc_fresh:
  assumes "balloc k h b = Some (a, b')" "x \<in> blocks h b"
  shows "extent x \<inter> extent (a, k) = {}"
  using balloc_blocks [OF assms(1)] assms(2) blocks_disjoint [of x h b' "(a, k)"] by blast

text \<open>Failure means that every aligned place of that size meets a block in use.\<close>

lemma balloc_None:
  assumes "balloc k h b = None" "canon h b" "k \<le> h" "2 ^ k dvd a" "a + 2 ^ k \<le> 2 ^ h"
  shows "\<exists>x \<in> blocks h b. extent x \<inter> extent (a, k) \<noteq> {}"
  using assms
proof (induction h arbitrary: b a)
  case 0
  then have "b = BUsed" by (cases b) (auto split: if_splits)
  with 0 show ?case by (simp add: extent_def)
next
  case (Suc h)
  show ?case
  proof (cases "k = Suc h")
    case True
    with Suc.prems have "b \<noteq> BFree" "a = 0" by auto
    then obtain x where x: "x \<in> blocks (Suc h) b"
      using blocks_nonempty Suc.prems(2) by blast
    then have "extent x \<subseteq> extent (a, k)"
      using extent_below [OF x] True \<open>a = 0\<close> by (simp add: extent_Pair lessThan_atLeast0)
    with x extent_nonempty [of x] show ?thesis by blast
  next
    case False
    with Suc.prems have kh: "k \<le> h" by simp
    show ?thesis
    proof (cases b)
      case BFree
      with False Suc.prems kh balloc_BFree [OF kh] show ?thesis by auto
    next
      case BUsed
      then show ?thesis using Suc.prems(5) by (auto simp: extent_def intro!: exI [of _ a])
    next
      case (BNode l r)
      with False Suc.prems have n: "balloc k h l = None" "balloc k h r = None"
        "canon h l" "canon h r" by (auto split: option.splits)
      have dvd: "(2::nat) ^ k dvd 2 ^ h" using kh by (rule le_imp_power_dvd)
      show ?thesis
      proof (cases "a + 2 ^ k \<le> 2 ^ h")
        case True
        with Suc.IH [OF n(1,3) kh Suc.prems(4)] BNode show ?thesis by auto
      next
        case False
        have "2 ^ h \<le> a"
        proof (rule ccontr)
          assume "\<not> 2 ^ h \<le> a"
          moreover obtain p q where "a = 2 ^ k * p" "(2::nat) ^ h = 2 ^ k * q"
            using Suc.prems(4) dvd by (auto simp: dvd_def)
          ultimately have "p < q" by simp
          then have "2 ^ k * (p + 1) \<le> 2 ^ k * q" by (intro mult_le_mono2) simp
          with \<open>a = _\<close> \<open>2 ^ h = _\<close> False show False by simp
        qed
        then obtain c where c: "a = 2 ^ h + c" by (metis le_iff_add)
        with Suc.prems(4,5) dvd have "2 ^ k dvd c" "c + 2 ^ k \<le> 2 ^ h"
          by (simp_all add: dvd_add_right_iff)
        with Suc.IH [OF n(2,4) kh] obtain x where
          x: "x \<in> blocks h r" "extent x \<inter> extent (c, k) \<noteq> {}" by blast
        then have "extent (shift (2 ^ h) x) \<inter> extent (a, k) \<noteq> {}"
          using extent_shift_Int [of "2 ^ h" x "(c, k)"] c by (simp add: shift_def)
        with x(1) BNode show ?thesis by (auto intro!: bexI [of _ "shift (2 ^ h) x"])
      qed
    qed
  qed
qed

section \<open>Release gives back exactly one block\<close>

lemma bjoin_canon: "canon h l \<Longrightarrow> canon h r \<Longrightarrow> canon (Suc h) (bjoin l r)"
  by (auto simp: bjoin_def)

lemma bjoin_blocks: "blocks (Suc h) (bjoin l r) = blocks h l \<union> shift (2 ^ h) ` blocks h r"
  by (auto simp: bjoin_def)

lemma bfree_canon: "bfree a h b = Some b' \<Longrightarrow> canon h b \<Longrightarrow> canon h b'"
proof (induction a h b arbitrary: b' rule: bfree.induct)
  case (4 a h l r)
  then show ?case by (auto split: if_splits intro!: bjoin_canon)
qed (auto split: if_splits)

lemma shift_Diff: "shift d ` (A - {x}) = shift d ` A - {shift d x}"
  by auto

lemma bfree_blocks:
  "(a, k) \<in> blocks h b \<Longrightarrow> \<exists>b'. bfree a h b = Some b' \<and> blocks h b' = blocks h b - {(a, k)}"
proof (induction a h b rule: bfree.induct)
  case (4 a h l r)
  show ?case
  proof (cases "a < 2 ^ h")
    case True
    then have "(a, k) \<notin> shift (2 ^ h) ` blocks h r" by (auto simp: shift_def)
    moreover from this "4.prems" have "(a, k) \<in> blocks h l" by auto
    ultimately show ?thesis using "4.IH"(1) [OF True] True by (auto simp: bjoin_blocks)
  next
    case False
    then have l: "(a, k) \<notin> blocks h l" using block_start [of "(a, k)" h l] by auto
    with "4.prems" have "(a, k) \<in> shift (2 ^ h) ` blocks h r" by auto
    then have "(a - 2 ^ h, k) \<in> blocks h r" "(a, k) = shift (2 ^ h) (a - 2 ^ h, k)"
      using False by (auto simp: shift_def)
    with "4.IH"(2) [OF False] False l show ?thesis
      by (auto simp: bjoin_blocks shift_Diff)
  qed
qed auto

lemma bfree_None: "bfree a h b = None \<longleftrightarrow> a \<notin> fst ` blocks h b"
proof (induction a h b rule: bfree.induct)
  case (4 a h l r)
  have "a \<in> fst ` blocks h l \<Longrightarrow> a < 2 ^ h"
    using block_start [of _ h l] by auto
  moreover have "a \<in> fst ` shift (2 ^ h) ` blocks h r \<longleftrightarrow>
      2 ^ h \<le> a \<and> a - 2 ^ h \<in> fst ` blocks h r"
    by (auto simp: image_iff) (metis add_diff_cancel_left' le_add1 fst_conv, metis fst_conv le_add_diff_inverse)
  ultimately show ?case using 4 by (auto simp: image_Un)
qed auto

text \<open>Releasing what was just allocated restores the tree.\<close>

lemma bfree_balloc: "balloc k h b = Some (a, b') \<Longrightarrow> canon h b \<Longrightarrow> bfree a h b' = Some b"
proof (induction h arbitrary: b a b')
  case (Suc h)
  from Suc.prems(1) show ?case
  proof (cases rule: balloc_SucE)
    case whole
    then show ?thesis by simp
  next
    case (split l)
    with Suc.IH [OF split(3)] balloc_start [OF split(3)] show ?thesis
      by (simp add: bjoin_def)
  next
    case (left l r l')
    with Suc.IH [OF left(3)] Suc.prems(2) balloc_start [OF left(3)] show ?thesis
      by (auto simp: bjoin_def)
  next
    case (right l r c r')
    with Suc.IH [OF right(4)] Suc.prems(2) show ?thesis
      by (auto simp: bjoin_def)
  qed
qed (auto split: if_splits)

end
