(* ===== verification/BuddyRefine.thy ===== *)
theory BuddyRefine
  imports BuddyProof
begin

text \<open>
  The abstraction function from the array of node states to the specification tree, the
  well-formedness invariant of the array, and the simulation of the loops of
  \<open>emsMem_alloc\<close> and \<open>emsMem_free\<close> by the tree operations.
\<close>

section \<open>Reading a tree off the array\<close>

definition occupied :: "buddy \<Rightarrow> bool" where
  "occupied s \<longleftrightarrow> s = BUDDY_USED \<or> s = BUDDY_FULL"

lemma occupied_simps [simp]:
  "\<not> occupied BUDDY_UNUSED" "occupied BUDDY_USED" "\<not> occupied BUDDY_SPLIT" "occupied BUDDY_FULL"
  by (simp_all add: occupied_def)

fun absT :: "buddy_tree \<Rightarrow> nat \<Rightarrow> int \<Rightarrow> btree" where
  "absT t 0 i = (if t i = BUDDY_UNUSED then BFree else BUsed)"
| "absT t (Suc h) i =
     (case t i of
        BUDDY_UNUSED \<Rightarrow> BFree
      | BUDDY_USED \<Rightarrow> BUsed
      | _ \<Rightarrow> BNode (absT t h (i * 2 + 1)) (absT t h (i * 2 + 2)))"

text \<open>
  The invariant: a leaf is unused or used; two unused buddies never stand under a split node;
  a node is marked full exactly when both its children are occupied.
\<close>

fun wfT :: "buddy_tree \<Rightarrow> nat \<Rightarrow> int \<Rightarrow> bool" where
  "wfT t 0 i = (t i = BUDDY_UNUSED \<or> t i = BUDDY_USED)"
| "wfT t (Suc h) i =
     (t i = BUDDY_UNUSED \<or> t i = BUDDY_USED \<or>
      (wfT t h (i * 2 + 1) \<and> wfT t h (i * 2 + 2) \<and>
       \<not> (t (i * 2 + 1) = BUDDY_UNUSED \<and> t (i * 2 + 2) = BUDDY_UNUSED) \<and>
       (t i = BUDDY_FULL \<longleftrightarrow> occupied (t (i * 2 + 1)) \<and> occupied (t (i * 2 + 2)))))"

lemma absT_BFree [simp]: "absT t h i = BFree \<longleftrightarrow> t i = BUDDY_UNUSED"
  by (cases h) (auto split: buddy.splits)

lemma absT_unused [simp]: "t i = BUDDY_UNUSED \<Longrightarrow> absT t h i = BFree"
  by simp

lemma wfT_canon: "wfT t h i \<Longrightarrow> canon h (absT t h i)"
  by (induction h arbitrary: i) (auto split: buddy.splits)

lemma wfT_bfull: "wfT t h i \<Longrightarrow> bfull (absT t h i) \<longleftrightarrow> occupied (t i)"
  by (induction h arbitrary: i) (auto split: buddy.splits)

lemma absT_cong: "(\<And>x. x \<in> nodes h i \<Longrightarrow> t x = t' x) \<Longrightarrow> absT t h i = absT t' h i"
proof (induction h arbitrary: i)
  case (Suc h)
  have "absT t h (i * 2 + 1) = absT t' h (i * 2 + 1)"
    "absT t h (i * 2 + 2) = absT t' h (i * 2 + 2)" "t i = t' i"
    using Suc by auto
  then show ?case by (simp split: buddy.splits)
qed simp

lemma wfT_cong: "(\<And>x. x \<in> nodes h i \<Longrightarrow> t x = t' x) \<Longrightarrow> wfT t h i = wfT t' h i"
proof (induction h arbitrary: i)
  case (Suc h)
  have "wfT t h (i * 2 + 1) = wfT t' h (i * 2 + 1)" "wfT t h (i * 2 + 2) = wfT t' h (i * 2 + 2)"
    using Suc by auto
  moreover have "t i = t' i" "t (i * 2 + 1) = t' (i * 2 + 1)" "t (i * 2 + 2) = t' (i * 2 + 2)"
    using Suc.prems node_self [of "i * 2 + 1" h] node_self [of "i * 2 + 2" h] by auto
  ultimately show ?case by simp
qed simp

lemma upd_parent:
  assumes "0 \<le> i" "c = i * 2 + 1 \<or> c = i * 2 + 2"
  shows "absT (t(i := s)) h c = absT t h c" "wfT (t(i := s)) h c = wfT t h c"
  using assms parent_not_below [of i h] by (auto intro!: absT_cong wfT_cong)

section \<open>Buddies and parents\<close>

text \<open>The two children of \<open>i\<close>, as the pair of a node and its buddy.\<close>

definition buddies :: "int \<Rightarrow> int \<Rightarrow> int \<Rightarrow> bool" where
  "buddies i c s \<longleftrightarrow> 0 \<le> i \<and> (c = i * 2 + 1 \<and> s = i * 2 + 2 \<or> c = i * 2 + 2 \<and> s = i * 2 + 1)"

lemma buddies_facts:
  assumes "buddies i c s"
  shows "buddy_of c = s" "parent_of c = i" "0 < s" "0 < c" "c \<noteq> i" "s \<noteq> i" "c \<noteq> s"
  using assms by (auto simp: buddies_def buddy_of_def parent_of_def)

lemma buddies_nodes:
  assumes "buddies i c s"
  shows "nodes (Suc h) i = insert i (nodes h c \<union> nodes h s)" "nodes h c \<inter> nodes h s = {}"
    "i \<notin> nodes h c" "i \<notin> nodes h s" "s \<notin> nodes h c"
  using assms nodes_disjoint [of i h] parent_not_below [of i h]
    node_self [of "i * 2 + 1" h] node_self [of "i * 2 + 2" h]
  by (auto simp: buddies_def simp del: node_self)

lemma buddies_wfT:
  assumes "buddies i c s" "t i \<noteq> BUDDY_UNUSED" "t i \<noteq> BUDDY_USED"
  shows "wfT t (Suc h) i \<longleftrightarrow> wfT t h c \<and> wfT t h s \<and>
     \<not> (t c = BUDDY_UNUSED \<and> t s = BUDDY_UNUSED) \<and>
     (t i = BUDDY_FULL \<longleftrightarrow> occupied (t c) \<and> occupied (t s))"
  using assms by (auto simp: buddies_def)

lemma mark_parent_buddies:
  assumes "buddies i c s"
  shows "EMS_mark_parent t c = (if occupied (t s) then EMS_mark_parent (t(i := BUDDY_FULL)) i else t)"
  using buddies_facts [OF assms] by (subst EMS_mark_parent.simps) (auto simp: occupied_def)

section \<open>The search of \<open>emsMem_alloc\<close>, structurally\<close>

definition split_node :: "buddy_tree \<Rightarrow> int \<Rightarrow> buddy_tree" where
  "split_node t i =
     (if t i = BUDDY_UNUSED
      then t(i := BUDDY_SPLIT, i * 2 + 1 := BUDDY_UNUSED, i * 2 + 2 := BUDDY_UNUSED) else t)"

fun ualloc :: "nat \<Rightarrow> nat \<Rightarrow> int \<Rightarrow> buddy_tree \<Rightarrow> (int \<times> buddy_tree) option" where
  "ualloc k 0 i t = (if k = 0 \<and> t i = BUDDY_UNUSED then Some (i, t(i := BUDDY_USED)) else None)"
| "ualloc k (Suc h) i t =
     (if k = Suc h then (if t i = BUDDY_UNUSED then Some (i, t(i := BUDDY_USED)) else None)
      else if occupied (t i) then None
      else (case ualloc k h (i * 2 + 1) (split_node t i) of
              Some r \<Rightarrow> Some r
            | None \<Rightarrow> ualloc k h (i * 2 + 2) (split_node t i)))"

lemma ualloc_unused: "k \<le> h \<Longrightarrow> t i = BUDDY_UNUSED \<Longrightarrow> ualloc k h i t \<noteq> None"
proof (induction h arbitrary: i t)
  case (Suc h)
  then show ?case
    by (cases "k = Suc h") (auto simp: split_node_def split: option.splits)
qed simp

text \<open>What the loop does when it leaves a subtree without success.\<close>

definition alloc_next :: "int \<Rightarrow> int \<Rightarrow> int \<Rightarrow> int \<Rightarrow> int \<Rightarrow> buddy_tree \<Rightarrow> (int \<times> buddy_tree) option" where
  "alloc_next sz mx len index lev t =
     (if index mod 2 = 1 then alloc_loop sz mx len (index + 1) lev t
      else (case alloc_up index lev len of
              None \<Rightarrow> Some (- 1, t)
            | Some (index', lev', len') \<Rightarrow> alloc_loop sz mx len' index' lev' t))"

lemma alloc_loop_step:
  assumes "0 \<le> i"
  shows "alloc_loop sz mx len i lev t =
     (if sz = len \<and> t i = BUDDY_UNUSED then
        Some (EMS_index_offset i lev mx * int EMS_MEM_BLOCKSZ,
              EMS_mark_parent (t(i := BUDDY_USED)) i)
      else if sz \<noteq> len \<and> \<not> occupied (t i) then
        alloc_loop sz mx (len div 2) (i * 2 + 1) (lev + 1) (split_node t i)
      else alloc_next sz mx len i lev t)"
  using assms
  by (subst alloc_loop.simps) (auto simp: occupied_def split_node_def alloc_next_def)

lemma alloc_next_right:
  assumes "0 \<le> i"
  shows "alloc_next sz mx len (i * 2 + 2) (lev + 1) t = alloc_next sz mx (len * 2) i lev t"
proof -
  have "parent_of (i * 2 + 2) = i" by (simp add: parent_of_def)
  then show ?thesis
    using assms by (auto simp: alloc_next_def alloc_up.simps [of "i * 2 + 2"])
qed

text \<open>The loop of \<open>emsMem_alloc\<close> is the structural search, for every tree.\<close>

lemma alloc_loop_sim:
  assumes "0 \<le> i" "k \<le> h"
  shows "alloc_loop (2 ^ k) mx (2 ^ h) i (mx - int h) t =
     (case ualloc k h i t of
        Some (j, t1) \<Rightarrow> Some (EMS_index_offset j (mx - int k) mx * int EMS_MEM_BLOCKSZ,
                             EMS_mark_parent t1 j)
      | None \<Rightarrow> alloc_next (2 ^ k) mx (2 ^ h) i (mx - int h) t)"
  using assms
proof (induction h arbitrary: i t)
  case 0
  then show ?case by (simp add: alloc_loop_step)
next
  case (Suc h)
  show ?case
  proof (cases "k = Suc h")
    case True
    then show ?thesis using Suc.prems by (simp add: alloc_loop_step)
  next
    case False
    then have kh: "k \<le> h" using Suc.prems by simp
    have ne: "(2::int) ^ k \<noteq> 2 ^ Suc h" using False by (metis one_less_numeral_iff power_inject_exp semiring_norm(76))
    show ?thesis
    proof (cases "occupied (t i)")
      case True
      then show ?thesis using False ne Suc.prems by (simp add: alloc_loop_step)
    next
      case free: False
      let ?t = "split_node t i"
      have lev: "mx - int (Suc h) + 1 = mx - int h" by simp
      have "alloc_loop (2 ^ k) mx (2 ^ Suc h) i (mx - int (Suc h)) t =
        alloc_loop (2 ^ k) mx (2 ^ h) (i * 2 + 1) (mx - int h) ?t"
        using free ne Suc.prems lev by (simp add: alloc_loop_step [of i])
      also have "\<dots> = (case ualloc k h (i * 2 + 1) ?t of
          Some (j, t1) \<Rightarrow> Some (EMS_index_offset j (mx - int k) mx * int EMS_MEM_BLOCKSZ,
                               EMS_mark_parent t1 j)
        | None \<Rightarrow> alloc_loop (2 ^ k) mx (2 ^ h) (i * 2 + 2) (mx - int h) ?t)"
        using Suc.IH [OF _ kh, of "i * 2 + 1" ?t] Suc.prems
        by (simp add: alloc_next_def add.assoc split: option.splits)
      also have "\<dots> = (case ualloc k (Suc h) i t of
          Some (j, t1) \<Rightarrow> Some (EMS_index_offset j (mx - int k) mx * int EMS_MEM_BLOCKSZ,
                               EMS_mark_parent t1 j)
        | None \<Rightarrow> alloc_next (2 ^ k) mx (2 ^ h) (i * 2 + 2) (mx - int h) ?t)"
        using Suc.IH [OF _ kh, of "i * 2 + 2" ?t] Suc.prems False free
        by (simp split: option.splits)
      also have "\<dots> = (case ualloc k (Suc h) i t of
          Some (j, t1) \<Rightarrow> Some (EMS_index_offset j (mx - int k) mx * int EMS_MEM_BLOCKSZ,
                               EMS_mark_parent t1 j)
        | None \<Rightarrow> alloc_next (2 ^ k) mx (2 ^ Suc h) i (mx - int (Suc h)) t)"
      proof -
        have eq: "alloc_next (2 ^ k) mx (2 ^ h) (i * 2 + 2) (mx - int h) ?t =
            alloc_next (2 ^ k) mx (2 ^ Suc h) i (mx - int (Suc h)) t"
          if "ualloc k (Suc h) i t = None"
        proof -
          have "t i \<noteq> BUDDY_UNUSED"
            using that ualloc_unused [OF Suc.prems(2), of t i] by auto
          then have "?t = t" by (simp add: split_node_def)
          then show ?thesis
            using alloc_next_right [of i "2 ^ k" mx "2 ^ h" "mx - int (Suc h)" t] Suc.prems lev
            by (simp add: mult.commute)
        qed
        show ?thesis
          by (cases "ualloc k (Suc h) i t") (simp_all only: option.case eq)
      qed
      finally show ?thesis .
    qed
  qed
qed

lemma alloc_next_root: "alloc_next sz mx len 0 lev t = Some (- 1, t)"
  by (simp add: alloc_next_def alloc_up.simps [of 0] parent_of_def)

section \<open>Allocation commutes with the abstraction\<close>

definition node_off :: "nat \<Rightarrow> nat \<Rightarrow> int \<Rightarrow> int" where
  "node_off h mx i = (i + 1 - 2 ^ (mx - h)) * 2 ^ h"

lemma index_offset_node:
  "h \<le> mx \<Longrightarrow> EMS_index_offset i (int mx - int h) (int mx) = node_off h mx i"
  by (simp add: EMS_index_offset_def node_off_def nat_diff_distrib)

lemma node_off_children:
  assumes "Suc h \<le> mx"
  shows "node_off h mx (i * 2 + 1) = node_off (Suc h) mx i"
    "node_off h mx (i * 2 + 2) = node_off (Suc h) mx i + 2 ^ h"
proof -
  have "mx - h = Suc (mx - Suc h)" using assms by simp
  then show "node_off h mx (i * 2 + 1) = node_off (Suc h) mx i"
    "node_off h mx (i * 2 + 2) = node_off (Suc h) mx i + 2 ^ h"
    by (simp_all add: node_off_def algebra_simps)
qed

lemma node_off_root [simp]: "node_off mx mx 0 = 0"
  by (simp add: node_off_def)

text \<open>
  After an allocation in the child \<open>c\<close>, the marking that \<open>EMS_mark_parent\<close> started below
  \<open>c\<close> goes on at the parent exactly when the parent became full.
\<close>

lemma mark_child:
  assumes b: "buddies i c s" and split: "t i = BUDDY_SPLIT" and wfs: "wfT t h s"
    and frame: "\<And>x. x \<notin> nodes h c \<Longrightarrow> t2 x = t x"
    and wfc: "wfT t2 h c" and used: "t2 c \<noteq> BUDDY_UNUSED"
    and mark: "m = (if occupied (t2 c) then EMS_mark_parent t2 c else t2)"
  shows "\<exists>t3. (\<forall>x. x \<notin> nodes (Suc h) i \<longrightarrow> t3 x = t x) \<and> wfT t3 (Suc h) i \<and>
     t3 i \<noteq> BUDDY_UNUSED \<and> t3 i \<noteq> BUDDY_USED \<and>
     absT t3 h c = absT t2 h c \<and> absT t3 h s = absT t h s \<and>
     m = (if occupied (t3 i) then EMS_mark_parent t3 i else t3)"
proof -
  note n = buddies_nodes [OF b, of h] buddies_facts [OF b]
  have s: "t2 s = t s" and i: "t2 i = BUDDY_SPLIT" using frame n split by auto
  have eqs: "absT t2 h s = absT t h s" "wfT t2 h s"
    using wfs n(2) frame absT_cong [of h s t2 t] wfT_cong [of h s t2 t] by blast+
  let ?full = "occupied (t2 c) \<and> occupied (t2 s)"
  define t3 where "t3 = (if ?full then t2(i := BUDDY_FULL) else t2)"
  have child: "absT t3 h x = absT t2 h x" "wfT t3 h x = wfT t2 h x" if "x = c \<or> x = s" for x
    using that b upd_parent [of i x t2 BUDDY_FULL h] by (auto simp: t3_def buddies_def)
  have i3: "t3 i = (if ?full then BUDDY_FULL else BUDDY_SPLIT)" "t3 c = t2 c" "t3 s = t2 s"
    using i n by (simp_all add: t3_def)
  have "wfT t3 (Suc h) i"
    using i3 wfc eqs child used by (subst buddies_wfT [OF b]) auto
  moreover have "m = (if occupied (t3 i) then EMS_mark_parent t3 i else t3)"
    using mark mark_parent_buddies [OF b, of t2] by (simp add: i3) (simp add: t3_def)
  moreover have "\<forall>x. x \<notin> nodes (Suc h) i \<longrightarrow> t3 x = t x"
    using frame by (auto simp: t3_def n(1) simp del: nodes.simps)
  ultimately show ?thesis
    using child eqs i3 by (intro exI [of _ t3]) auto
qed

text \<open>\<open>alloc_ok\<close> relates the structural search in a subtree to \<open>balloc\<close>.\<close>

definition alloc_ok :: "nat \<Rightarrow> nat \<Rightarrow> nat \<Rightarrow> int \<Rightarrow> buddy_tree \<Rightarrow> bool" where
  "alloc_ok k h mx i t = (case ualloc k h i t of
     None \<Rightarrow> balloc k h (absT t h i) = None
   | Some (j, t1) \<Rightarrow>
       (\<exists>a t2. balloc k h (absT t h i) = Some (a, absT t2 h i) \<and>
          EMS_index_offset j (int mx - int k) (int mx) = node_off h mx i + int a \<and>
          (\<forall>x. x \<notin> nodes h i \<longrightarrow> t2 x = t x) \<and> wfT t2 h i \<and>
          EMS_mark_parent t1 j = (if occupied (t2 i) then EMS_mark_parent t2 i else t2)))"

lemma alloc_ok_leaf:
  assumes "t i = BUDDY_UNUSED" "k = h" "h \<le> mx"
  shows "alloc_ok k h mx i t"
proof -
  have "balloc k h BFree = Some (0, BUsed)" "absT (t(i := BUDDY_USED)) h i = BUsed"
    "wfT (t(i := BUDDY_USED)) h i"
    using assms by (cases h; simp)+
  moreover have "ualloc k h i t = Some (i, t(i := BUDDY_USED))"
    using assms by (cases h) simp_all
  ultimately show ?thesis
    using assms index_offset_node [of h mx i]
    by (auto simp: alloc_ok_def intro!: exI [of _ "t(i := BUDDY_USED)"])
qed

lemma alloc_ok_taken:
  assumes "t i \<noteq> BUDDY_UNUSED" "k = h" shows "alloc_ok k h mx i t"
  using assms absT_BFree [of t h i]
  by (cases h) (simp_all add: alloc_ok_def del: absT.simps)

lemma balloc_node:
  "k \<noteq> Suc h \<Longrightarrow> bt = BFree \<and> l = BFree \<and> r = BFree \<and> k \<le> h \<or> bt = BNode l r \<Longrightarrow>
   balloc k (Suc h) bt =
     (case balloc k h l of
        Some (a, l') \<Rightarrow> Some (a, BNode l' r)
      | None \<Rightarrow> map_option (\<lambda>(a, r'). (2 ^ h + a, BNode l r')) (balloc k h r))"
  using balloc_BFree [of k h] by (auto split: option.splits)

lemma alloc_okI:
  assumes "ualloc k h i t = Some (j, t1)" "balloc k h (absT t h i) = Some (a, absT t3 h i)"
    "EMS_index_offset j (int mx - int k) (int mx) = node_off h mx i + int a"
    "\<And>x. x \<notin> nodes h i \<Longrightarrow> t3 x = t x" "wfT t3 h i"
    "EMS_mark_parent t1 j = (if occupied (t3 i) then EMS_mark_parent t3 i else t3)"
  shows "alloc_ok k h mx i t"
  unfolding alloc_ok_def using assms by auto

lemma absT_node: "t i \<noteq> BUDDY_UNUSED \<Longrightarrow> t i \<noteq> BUDDY_USED \<Longrightarrow>
    absT t (Suc h) i = BNode (absT t h (i * 2 + 1)) (absT t h (i * 2 + 2))"
  by (cases "t i") auto

lemma alloc_ok_child:
  assumes ok: "alloc_ok k h mx c t" and u: "ualloc k h c t = Some (j, t1)"
    and b: "buddies i c s" and split: "t i = BUDDY_SPLIT" and wfs: "wfT t h s"
  obtains a t3 c' where "balloc k h (absT t h c) = Some (a, c')"
    "EMS_index_offset j (int mx - int k) (int mx) = node_off h mx c + int a"
    "absT t3 h c = c'" "absT t3 h s = absT t h s"
    "\<And>x. x \<notin> nodes (Suc h) i \<Longrightarrow> t3 x = t x" "wfT t3 (Suc h) i"
    "t3 i \<noteq> BUDDY_UNUSED" "t3 i \<noteq> BUDDY_USED"
    "EMS_mark_parent t1 j = (if occupied (t3 i) then EMS_mark_parent t3 i else t3)"
proof -
  from ok u obtain a t2 where
    al: "balloc k h (absT t h c) = Some (a, absT t2 h c)"
      "EMS_index_offset j (int mx - int k) (int mx) = node_off h mx c + int a" and
    t2: "\<And>x. x \<notin> nodes h c \<Longrightarrow> t2 x = t x" "wfT t2 h c" and
    mark: "EMS_mark_parent t1 j = (if occupied (t2 c) then EMS_mark_parent t2 c else t2)"
    by (auto simp: alloc_ok_def)
  from al(1) have "t2 c \<noteq> BUDDY_UNUSED" using balloc_not_BFree by force
  from mark_child [OF b split wfs t2 this mark] al that show thesis by blast
qed

lemma split_node_facts:
  assumes "0 \<le> i" "wfT t (Suc h) i" "\<not> occupied (t i)"
  shows "split_node t i i = BUDDY_SPLIT" "wfT (split_node t i) h (i * 2 + 1)"
    "wfT (split_node t i) h (i * 2 + 2)" "x \<notin> nodes (Suc h) i \<Longrightarrow> split_node t i x = t x"
proof -
  have "wfT t' h j" if "t' j = BUDDY_UNUSED" for t' j using that by (cases h) auto
  then show "wfT (split_node t i) h (i * 2 + 1)" "wfT (split_node t i) h (i * 2 + 2)"
    using assms by (auto simp: split_node_def)
  show "split_node t i i = BUDDY_SPLIT"
    using assms by (cases "t i") (auto simp: split_node_def)
  show "x \<notin> nodes (Suc h) i \<Longrightarrow> split_node t i x = t x"
    using node_self [of "i * 2 + 1" h] node_self [of "i * 2 + 2" h]
    by (auto simp: split_node_def simp del: node_self)
qed

lemma balloc_split_node:
  assumes "\<not> occupied (t i)" "k \<le> h"
  shows "balloc k (Suc h) (absT t (Suc h) i) =
     (case balloc k h (absT (split_node t i) h (i * 2 + 1)) of
        Some (a, l') \<Rightarrow> Some (a, BNode l' (absT (split_node t i) h (i * 2 + 2)))
      | None \<Rightarrow> map_option (\<lambda>(a, r'). (2 ^ h + a, BNode (absT (split_node t i) h (i * 2 + 1)) r'))
                  (balloc k h (absT (split_node t i) h (i * 2 + 2))))"
proof (rule balloc_node)
  show "k \<noteq> Suc h" using assms(2) by simp
  show "absT t (Suc h) i = BFree \<and> absT (split_node t i) h (i * 2 + 1) = BFree \<and>
      absT (split_node t i) h (i * 2 + 2) = BFree \<and> k \<le> h \<or>
    absT t (Suc h) i =
      BNode (absT (split_node t i) h (i * 2 + 1)) (absT (split_node t i) h (i * 2 + 2))"
    using assms by (cases "t i") (simp_all add: split_node_def)
qed

text \<open>Success in one child is success at the node.\<close>

lemma alloc_ok_up:
  assumes pre: "wfT t (Suc h) i" "0 \<le> i" "Suc h \<le> mx" "\<not> occupied (t i)"
    and b: "buddies i c s" and ok: "alloc_ok k h mx c (split_node t i)"
    and u: "ualloc k h c (split_node t i) = Some (j, t1)"
    and top: "ualloc k (Suc h) i t = Some (j, t1)"
    and b_alloc: "\<And>a c'. balloc k h (absT (split_node t i) h c) = Some (a, c') \<Longrightarrow>
       balloc k (Suc h) (absT t (Suc h) i) =
         (if c < s then Some (a, BNode c' (absT (split_node t i) h s))
          else Some (2 ^ h + a, BNode (absT (split_node t i) h s) c'))"
  shows "alloc_ok k (Suc h) mx i t"
proof -
  let ?t = "split_node t i"
  note sp = split_node_facts [OF pre(2,1,4)]
  have wfs: "wfT ?t h s" using b sp by (auto simp: buddies_def)
  obtain a t3 c' where r:
    "balloc k h (absT ?t h c) = Some (a, c')"
    "EMS_index_offset j (int mx - int k) (int mx) = node_off h mx c + int a"
    "absT t3 h c = c'" "absT t3 h s = absT ?t h s"
    "\<And>x. x \<notin> nodes (Suc h) i \<Longrightarrow> t3 x = ?t x" "wfT t3 (Suc h) i"
    "t3 i \<noteq> BUDDY_UNUSED" "t3 i \<noteq> BUDDY_USED"
    "EMS_mark_parent t1 j = (if occupied (t3 i) then EMS_mark_parent t3 i else t3)"
    by (rule alloc_ok_child [OF ok u b sp(1) wfs]) (rule that)
  have node: "absT t3 (Suc h) i = (if c < s then BNode (absT t3 h c) (absT t3 h s)
      else BNode (absT t3 h s) (absT t3 h c))"
  proof -
    from b consider "c = i * 2 + 1" "s = i * 2 + 2" "c < s" | "c = i * 2 + 2" "s = i * 2 + 1" "\<not> c < s"
      by (auto simp: buddies_def)
    then show ?thesis
      by cases (simp_all only: absT_node [of t3 i h, OF r(7,8)] if_True if_False)
  qed
  show ?thesis
  proof (rule alloc_okI [OF top _ _ _ r(6,9)])
    show "balloc k (Suc h) (absT t (Suc h) i) =
        Some ((if c < s then a else 2 ^ h + a), absT t3 (Suc h) i)"
      using b_alloc [OF r(1)] by (simp add: node r(3,4) del: absT.simps balloc.simps)
    show "EMS_index_offset j (int mx - int k) (int mx) =
        node_off (Suc h) mx i + int (if c < s then a else 2 ^ h + a)"
      using b r(2) node_off_children [OF pre(3), of i] by (auto simp: buddies_def)
    show "t3 x = t x" if "x \<notin> nodes (Suc h) i" for x
      using that r(5) sp(4) by simp
  qed
qed

lemma alloc_ok_sim:
  assumes "wfT t h i" "0 \<le> i" "k \<le> h" "h \<le> mx"
  shows "alloc_ok k h mx i t"
  using assms
proof (induction h arbitrary: i t)
  case 0
  then show ?case
    by (cases "t i = BUDDY_UNUSED") (simp_all add: alloc_ok_leaf alloc_ok_taken)
next
  case (Suc h)
  let ?t = "split_node t i" and ?l = "i * 2 + 1" and ?r = "i * 2 + 2"
  consider "k = Suc h" | "k \<noteq> Suc h" "occupied (t i)" | "k \<noteq> Suc h" "\<not> occupied (t i)" by blast
  then show ?case
  proof cases
    case 1
    then show ?thesis
      using Suc.prems by (cases "t i = BUDDY_UNUSED") (simp_all add: alloc_ok_leaf alloc_ok_taken)
  next
    case 2
    then have "balloc k (Suc h) (absT t (Suc h) i) = None"
      using Suc.prems(1) by (intro balloc_bfull) (simp only: wfT_bfull)
    with 2 show ?thesis by (simp add: alloc_ok_def del: balloc.simps absT.simps)
  next
    case 3
    then have kh: "k \<le> h" using Suc.prems by simp
    have bl: "buddies i ?l ?r" and br: "buddies i ?r ?l"
      using Suc.prems by (auto simp: buddies_def)
    have okl: "alloc_ok k h mx ?l ?t" and okr: "alloc_ok k h mx ?r ?t"
      using Suc.IH Suc.prems kh split_node_facts [OF Suc.prems(2,1) 3(2)] by auto
    note alloc = balloc_split_node [of t i k h, OF 3(2) kh]
    note up = alloc_ok_up [OF Suc.prems(1,2,4) 3(2)]
    consider j t1 where "ualloc k h ?l ?t = Some (j, t1)"
      | j t1 where "ualloc k h ?l ?t = None" "ualloc k h ?r ?t = Some (j, t1)"
      | "ualloc k h ?l ?t = None" "ualloc k h ?r ?t = None"
      by (cases "ualloc k h ?l ?t"; cases "ualloc k h ?r ?t") auto
    then show ?thesis
    proof cases
      case 1
      then show ?thesis using 3 alloc by (intro up [OF bl okl 1]) simp_all
    next
      case r: 2
      then have "balloc k h (absT ?t h ?l) = None" using okl by (simp add: alloc_ok_def)
      with r show ?thesis using 3 alloc by (intro up [OF br okr r(2)]) simp_all
    next
      case n: 3
      then have "balloc k h (absT ?t h ?l) = None" "balloc k h (absT ?t h ?r) = None"
        using okl okr by (simp_all add: alloc_ok_def)
      with n 3 alloc show ?thesis by (simp add: alloc_ok_def del: balloc.simps absT.simps)
    qed
  qed
qed

end
