(* ===== verification/BuddyFree.thy ===== *)
theory BuddyFree
  imports BuddyRefine
begin

text \<open>
  Release: the walk of \<open>emsMem_free\<close> finds the node in use at the given offset, and
  \<open>EMS_combine\<close> merges it with its free buddies, as \<open>bfree\<close> does on the tree.
\<close>

section \<open>The walk to the block\<close>

fun walk :: "buddy_tree \<Rightarrow> nat \<Rightarrow> int \<Rightarrow> nat \<Rightarrow> int" where
  "walk t 0 i a = i"
| "walk t (Suc h) i a =
     (if t i = BUDDY_USED \<or> t i = BUDDY_UNUSED then i
      else if a < 2 ^ h then walk t h (i * 2 + 1) a else walk t h (i * 2 + 2) (a - 2 ^ h))"

lemma free_loop_sim:
  assumes "wfT t h i" "a < 2 ^ h"
  shows "free_loop t (left + int a) left (2 ^ h) i =
     (if bfree a h (absT t h i) = None then Some (Inl AssertFailed)
      else map_option Inr (EMS_combine t (walk t h i a)))"
  using assms
proof (induction h arbitrary: i a left)
  case 0
  then show ?case by (subst free_loop.simps) auto
next
  case (Suc h)
  let ?l = "i * 2 + 1" and ?r = "i * 2 + 2"
  consider "t i = BUDDY_USED" | "t i = BUDDY_UNUSED"
    | "t i = BUDDY_SPLIT \<or> t i = BUDDY_FULL" by (cases "t i") auto
  then show ?case
  proof cases
    case 3
    then have wf: "wfT t h ?l" "wfT t h ?r" using Suc.prems(1) by auto
    have step: "free_loop t (left + int a) left (2 ^ Suc h) i =
      (if a < 2 ^ h then free_loop t (left + int a) left (2 ^ h) ?l
       else free_loop t (left + int a) (left + 2 ^ h) (2 ^ h) ?r)"
      using 3 of_nat_less_iff [of a "2 ^ h", where ?'a = int]
      by (subst free_loop.simps) (auto simp del: of_nat_less_iff)
    show ?thesis
    proof (cases "a < 2 ^ h")
      case True
      with Suc.IH [OF wf(1) True] step 3 show ?thesis by auto
    next
      case False
      then have "a - 2 ^ h < 2 ^ h" using Suc.prems(2) by simp
      moreover have "left + 2 ^ h + int (a - 2 ^ h) = left + int a" using False by (simp add: of_nat_diff)
      ultimately show ?thesis
        using Suc.IH [OF wf(2), of "a - 2 ^ h" "left + 2 ^ h"] step 3 False by auto
    qed
  qed (subst free_loop.simps; auto)+
qed

section \<open>Merging\<close>

lemma combine_step:
  assumes "buddies i c s"
  shows "EMS_combine t c =
     (if t s = BUDDY_UNUSED then EMS_combine t i
      else Some (combine_unfull (t(c := BUDDY_UNUSED)) c))"
  using buddies_facts [OF assms] by (subst EMS_combine.simps) auto

lemma unfull_step:
  assumes "buddies i c s"
  shows "combine_unfull t c =
     (if t i = BUDDY_FULL then combine_unfull (t(i := BUDDY_SPLIT)) i else t)"
proof -
  have "parent_of c = i" "0 \<le> i" using buddies_facts [OF assms] assms by (auto simp: buddies_def)
  then show ?thesis by (subst combine_unfull.simps) simp
qed

lemma combine_root: "EMS_combine t 0 = Some (t(0 := BUDDY_UNUSED))"
  by (subst EMS_combine.simps) (simp add: buddy_of_def combine_unfull.simps [of _ 0] parent_of_def)

lemma unfull_root: "combine_unfull t 0 = t"
  by (simp add: combine_unfull.simps [of _ 0] parent_of_def)

text \<open>
  \<open>free_ok\<close>: either the whole subtree became free and the merge goes on at its root, or it
  ended inside, and the full ancestors of the root are marked split.
\<close>

definition free_ok :: "nat \<Rightarrow> int \<Rightarrow> buddy_tree \<Rightarrow> int \<Rightarrow> btree \<Rightarrow> bool" where
  "free_ok h i t j b \<longleftrightarrow>
     (if b = BFree then EMS_combine t j = EMS_combine t i
      else \<exists>t2. (\<forall>x. x \<notin> nodes h i \<longrightarrow> t2 x = t x) \<and> wfT t2 h i \<and> absT t2 h i = b \<and>
             t2 i = BUDDY_SPLIT \<and>
             EMS_combine t j = Some (if t i = BUDDY_FULL then combine_unfull t2 i else t2))"

lemma free_ok_up:
  assumes b: "buddies i c s" and wf: "wfT t (Suc h) i"
    and st: "t i \<noteq> BUDDY_UNUSED" "t i \<noteq> BUDDY_USED"
    and ok: "free_ok h c t j c'" and fr: "bfree a h (absT t h c) = Some c'"
    and bt: "bt = (if c < s then bjoin c' (absT t h s) else bjoin (absT t h s) c')"
  shows "free_ok (Suc h) i t j bt"
proof -
  note n = buddies_nodes [OF b, of h] buddies_facts [OF b]
  have wfc: "wfT t h c" "wfT t h s" and full: "t i = BUDDY_FULL \<longleftrightarrow> occupied (t c) \<and> occupied (t s)"
    using wf buddies_wfT [OF b, of t h] st by auto
  have finish: "free_ok (Suc h) i t j bt"
    if frame: "\<And>x. x \<notin> nodes h c \<Longrightarrow> t2 x = t x" and w2: "wfT t2 h c"
      and a2: "absT t2 h c = c'" and nf: "\<not> occupied (t2 c)"
      and some: "\<not> (t2 c = BUDDY_UNUSED \<and> t s = BUDDY_UNUSED)"
      and comb: "EMS_combine t j = Some (if t i = BUDDY_FULL
                   then combine_unfull (t2(i := BUDDY_SPLIT)) i else t2)" for t2
  proof -
    define t3 where "t3 = t2(i := BUDDY_SPLIT)"
    have i2: "t2 i = t i" "t2 s = t s" using frame n by auto
    have child: "absT t3 h x = absT t2 h x" "wfT t3 h x = wfT t2 h x" if "x = c \<or> x = s" for x
      using that b upd_parent [of i x t2 BUDDY_SPLIT h] by (auto simp: t3_def buddies_def)
    have sib: "absT t2 h s = absT t h s" "wfT t2 h s"
      using wfc(2) n(2) frame absT_cong [of h s t2 t] wfT_cong [of h s t2 t] by blast+
    have t3s: "t3 i = BUDDY_SPLIT" "t3 c = t2 c" "t3 s = t s" using i2 n by (simp_all add: t3_def)
    have "bt \<noteq> BFree"
      using some a2 absT_BFree [of t2 h c] absT_BFree [of t h s] bt by (auto simp: bjoin_def)
    moreover have w3: "wfT t3 (Suc h) i"
      using t3s w2 nf some child sib by (subst buddies_wfT [OF b]) auto
    moreover have "absT t3 (Suc h) i = bt"
    proof -
      have "absT t3 (Suc h) i = (if c < s then BNode (absT t3 h c) (absT t3 h s)
          else BNode (absT t3 h s) (absT t3 h c))"
        using b t3s(1) by (auto simp: buddies_def)
      also have "\<dots> = bt"
        using child sib a2 bt \<open>bt \<noteq> BFree\<close> by (auto simp: bjoin_def split: if_splits)
      finally show ?thesis .
    qed
    moreover have "EMS_combine t j = Some (if t i = BUDDY_FULL then combine_unfull t3 i else t3)"
    proof (cases "t i = BUDDY_FULL")
      case False
      then have "t i = BUDDY_SPLIT" using st by (cases "t i") auto
      then have "t3 = t2" using i2 by (auto simp: t3_def)
      with comb False show ?thesis by simp
    qed (use comb in \<open>simp add: t3_def\<close>)
    moreover have "\<forall>x. x \<notin> nodes (Suc h) i \<longrightarrow> t3 x = t x"
      using frame by (auto simp: t3_def n(1) simp del: nodes.simps)
    ultimately show ?thesis using t3s(1) by (auto simp: free_ok_def simp del: nodes.simps wfT.simps absT.simps)
  qed
  show ?thesis
  proof (cases "c' = BFree")
    case True
    with ok have c: "EMS_combine t j = EMS_combine t c" by (simp add: free_ok_def)
    show ?thesis
    proof (cases "t s = BUDDY_UNUSED")
      case True
      with c \<open>c' = BFree\<close> bt combine_step [OF b, of t] show ?thesis
        by (simp add: free_ok_def bjoin_def)
    next
      case False
      have "wfT (t(c := BUDDY_UNUSED)) h c" by (cases h) auto
      with False True c combine_step [OF b, of t] unfull_step [OF b, of "t(c := BUDDY_UNUSED)"] n
      show ?thesis by (intro finish [of "t(c := BUDDY_UNUSED)"]) auto
    qed
  next
    case False
    with ok obtain t2 where t2: "\<And>x. x \<notin> nodes h c \<Longrightarrow> t2 x = t x" "wfT t2 h c"
      "absT t2 h c = c'" "t2 c = BUDDY_SPLIT"
      "EMS_combine t j = Some (if t c = BUDDY_FULL then combine_unfull t2 c else t2)"
      by (auto simp: free_ok_def)
    have "t c \<noteq> BUDDY_USED"
    proof
      assume "t c = BUDDY_USED"
      then have "absT t h c = BUsed" by (cases h) auto
      with fr False show False by (auto split: if_splits)
    qed
    then have "t i = BUDDY_FULL \<Longrightarrow> t c = BUDDY_FULL" using full by (auto simp: occupied_def)
    moreover have "t2 i = t i" using t2(1) n by auto
    ultimately show ?thesis
      using t2 unfull_step [OF b, of t2] by (intro finish [of t2]) auto
  qed
qed

lemma free_ok_sim:
  assumes "wfT t h i" "0 \<le> i" "bfree a h (absT t h i) = Some bt"
  shows "free_ok h i t (walk t h i a) bt"
  using assms
proof (induction h arbitrary: i a bt)
  case 0
  then show ?case by (auto simp: free_ok_def split: if_splits)
next
  case (Suc h)
  let ?l = "i * 2 + 1" and ?r = "i * 2 + 2"
  have bl: "buddies i ?l ?r" and br: "buddies i ?r ?l" using Suc.prems by (auto simp: buddies_def)
  consider "t i = BUDDY_USED" | "t i = BUDDY_UNUSED"
    | "t i \<noteq> BUDDY_USED" "t i \<noteq> BUDDY_UNUSED" by blast
  then show ?case
  proof cases
    case 3
    then have node: "absT t (Suc h) i = BNode (absT t h ?l) (absT t h ?r)"
      by (intro absT_node)
    have wf: "wfT t h ?l" "wfT t h ?r" using Suc.prems(1) 3 by auto
    show ?thesis
    proof (cases "a < 2 ^ h")
      case True
      with Suc.prems(3) node obtain l' where l: "bfree a h (absT t h ?l) = Some l'"
        "bt = bjoin l' (absT t h ?r)" by auto
      have "free_ok h ?l t (walk t h ?l a) l'" using Suc.IH [OF wf(1) _ l(1)] Suc.prems(2) by simp
      from free_ok_up [OF bl Suc.prems(1) 3(2,1) this l(1)] l(2) True 3 show ?thesis by simp
    next
      case False
      with Suc.prems(3) node obtain r' where r: "bfree (a - 2 ^ h) h (absT t h ?r) = Some r'"
        "bt = bjoin (absT t h ?l) r'" by auto
      have "free_ok h ?r t (walk t h ?r (a - 2 ^ h)) r'"
        using Suc.IH [OF wf(2) _ r(1)] Suc.prems(2) by simp
      from free_ok_up [OF br Suc.prems(1) 3(2,1) this r(1)] r(2) False 3 show ?thesis by simp
    qed
  qed (use Suc.prems in \<open>auto simp: free_ok_def split: if_splits\<close>)
qed

end
