(* ===== verification/Allocator.thy ===== *)
theory Allocator
  imports BuddyFree
begin

text \<open>
  What \<open>emsMem_alloc\<close>, \<open>emsMem_free\<close> and \<open>emsMem_size\<close> promise, in terms of the
  set of blocks in use: the correctness theorems of \<open>src/ems_alloc.cc\<close>.
\<close>

section \<open>State, invariant and blocks in use\<close>

definition mem_inv :: "emsMem \<Rightarrow> bool" where
  "mem_inv m \<longleftrightarrow> wfT (m_tree m) (m_level m) 0"

definition mem_abs :: "emsMem \<Rightarrow> btree" where
  "mem_abs m = absT (m_tree m) (m_level m) 0"

definition in_use :: "emsMem \<Rightarrow> block set" where
  "in_use m = blocks (m_level m) (mem_abs m)"

lemma mem_inv_canon: "mem_inv m \<Longrightarrow> canon (m_level m) (mem_abs m)"
  by (simp add: mem_inv_def mem_abs_def wfT_canon)

lemma nodes_bound: "j \<in> nodes h i \<Longrightarrow> 0 \<le> i \<Longrightarrow> j + 2 \<le> (i + 2) * 2 ^ h"
proof (induction h arbitrary: i)
  case (Suc h)
  then consider "j = i" | "j \<in> nodes h (i * 2 + 1)" | "j \<in> nodes h (i * 2 + 2)" by auto
  then show ?case
  proof cases
    case 1
    have "(i + 2) * 1 \<le> (i + 2) * 2 ^ Suc h"
      using Suc.prems(2) by (intro mult_left_mono) (auto simp: one_le_power simp del: power_Suc)
    with 1 show ?thesis by simp
  next
    case 2
    have "j + 2 \<le> (i * 2 + 1 + 2) * 2 ^ h" using Suc.IH [OF 2] Suc.prems(2) by simp
    moreover have "(i * 2 + 1 + 2) * 2 ^ h \<le> (i * 2 + 4) * (2::int) ^ h"
      by (intro mult_right_mono) auto
    ultimately have "j + 2 \<le> (i * 2 + 4) * 2 ^ h" by (rule order_trans)
    then show ?thesis by (simp add: algebra_simps)
  next
    case 3
    have "j + 2 \<le> (i * 2 + 2 + 2) * 2 ^ h" using Suc.IH [OF 3] Suc.prems(2) by simp
    then show ?thesis by (simp add: algebra_simps)
  qed
qed simp

lemma nodes_root: "j \<in> nodes h 0 \<Longrightarrow> 0 \<le> j \<and> j < 2 ^ h * 2 - 1"
  using nodes_ge [of 0 j h] nodes_bound [of j h 0] by simp

lemma wfT_new: "(\<And>j. j \<in> nodes h i \<Longrightarrow> t j = BUDDY_UNUSED) \<Longrightarrow> wfT t h i \<and> absT t h i = BFree"
  by (cases h) auto

lemma emsMem_new_facts:
  "mem_inv (emsMem_new l rest)" "in_use (emsMem_new l rest) = {}" "m_level (emsMem_new l rest) = l"
  using wfT_new [of l 0 "m_tree (emsMem_new l rest)"] nodes_root
  by (auto simp: mem_inv_def in_use_def mem_abs_def emsMem_new_def Let_def)

section \<open>Allocation\<close>

text \<open>The number of blocks asked for, and the height of the node that holds them.\<close>

lemma request_pow2:
  assumes "0 < n" "n + 31 < 2 ^ 64"
  obtains k where
    "emsNextPow2 ((n + (EMS_MEM_BLOCKSZ - 1)) mod 2 ^ 64 div EMS_MEM_BLOCKSZ) = Some (2 ^ k)"
    "n \<le> 32 * 2 ^ k" "32 * 2 ^ k < 2 * (n + 31)" "\<And>j. n \<le> 32 * 2 ^ j \<Longrightarrow> k \<le> j"
proof -
  let ?q = "(n + 31) div 32"
  have q: "0 < ?q" "n \<le> 32 * ?q" "32 * ?q \<le> n + 31" using assms(1) by linarith+
  then have "?q \<le> 2 ^ 63" using assms(2) by simp
  from emsNextPow2_spec [OF q(1) this] obtain k where
    k: "emsNextPow2 ?q = Some (2 ^ k)" "?q \<le> 2 ^ k" "2 ^ k < 2 * ?q"
      "\<forall>j. ?q \<le> 2 ^ j \<longrightarrow> k \<le> j" by blast
  show thesis
  proof
    show "emsNextPow2 ((n + (EMS_MEM_BLOCKSZ - 1)) mod 2 ^ 64 div EMS_MEM_BLOCKSZ) = Some (2 ^ k)"
      using k(1) assms(2) by (simp add: EMS_MEM_BLOCKSZ_def)
    have "32 * ?q \<le> 32 * 2 ^ k" using k(2) by simp
    with q(2) show "n \<le> 32 * 2 ^ k" by linarith
    have "32 * 2 ^ k < 2 * (32 * ?q)" using k(3) by simp
    also have "\<dots> \<le> 2 * (n + 31)" using q(3) by (rule mult_le_mono2)
    finally show "32 * 2 ^ k < 2 * (n + 31)" .
    show "k \<le> j" if "n \<le> 32 * 2 ^ j" for j
    proof -
      have "n + 31 < (2 ^ j + 1) * 32" using that by simp
      then have "?q < 2 ^ j + 1" by (rule less_mult_imp_div_less)
      with k(4) show ?thesis by simp
    qed
  qed
qed

text \<open>The call on a well-formed allocator, in terms of the tree allocator.\<close>

lemma emsMem_alloc_balloc:
  assumes inv: "mem_inv m" and pow2:
    "emsNextPow2 ((n + (EMS_MEM_BLOCKSZ - 1)) mod 2 ^ 64 div EMS_MEM_BLOCKSZ) = Some (2 ^ k)"
  shows "if m_level m < k \<or> balloc k (m_level m) (mem_abs m) = None
         then emsMem_alloc m n = Some (- 1, m)
         else \<exists>a m'. balloc k (m_level m) (mem_abs m) = Some (a, mem_abs m') \<and>
           emsMem_alloc m n = Some (32 * int a, m') \<and> mem_inv m' \<and> m_level m' = m_level m \<and>
           (\<forall>x. x \<notin> nodes (m_level m) 0 \<longrightarrow> m_tree m' x = m_tree m x)"
proof (cases "m_level m < k")
  case True
  then have "(2::nat) ^ m_level m < 2 ^ k" by simp
  with True pow2 show ?thesis by (simp add: emsMem_alloc_def)
next
  case False
  let ?h = "m_level m" and ?t = "m_tree m"
  from False have kh: "k \<le> ?h" by simp
  then have le: "\<not> (2::nat) ^ ?h < 2 ^ k" by (simp add: not_less)
  have call: "emsMem_alloc m n = map_option (\<lambda>(addr, tree). (addr, m\<lparr>m_tree := tree\<rparr>))
      (alloc_loop (2 ^ k) (int ?h) (2 ^ ?h) 0 (int ?h - int ?h) ?t)"
    using pow2 le by (simp add: emsMem_alloc_def)
  note sim = call [unfolded alloc_loop_sim [OF order_refl kh, of "int ?h"]]
  have ok: "alloc_ok k ?h ?h 0 ?t"
    using inv kh by (intro alloc_ok_sim) (simp_all add: mem_inv_def)
  show ?thesis
  proof (cases "ualloc k ?h 0 ?t")
    case None
    with ok sim show ?thesis by (simp add: alloc_ok_def alloc_next_root mem_abs_def)
  next
    case (Some p)
    then obtain j t1 where u: "ualloc k ?h 0 ?t = Some (j, t1)" by (cases p) auto
    with ok obtain a t2 where t2: "balloc k ?h (absT ?t ?h 0) = Some (a, absT t2 ?h 0)"
      "EMS_index_offset j (int ?h - int k) (int ?h) = int a"
      "\<And>x. x \<notin> nodes ?h 0 \<Longrightarrow> t2 x = ?t x" "wfT t2 ?h 0"
      "EMS_mark_parent t1 j = (if occupied (t2 0) then EMS_mark_parent t2 0 else t2)"
      by (auto simp: alloc_ok_def)
    have "EMS_mark_parent t2 0 = t2" by (subst EMS_mark_parent.simps) (simp add: buddy_of_def)
    with t2 sim u False show ?thesis
      by (auto simp: mem_abs_def mem_inv_def EMS_MEM_BLOCKSZ_def mult.commute
          intro!: exI [of _ "m\<lparr>m_tree := t2\<rparr>"])
  qed
qed

lemma emsMem_alloc_spec:
  assumes "mem_inv m" "0 < n" "n + 31 < 2 ^ 64"
  shows "\<exists>addr m'. emsMem_alloc m n = Some (addr, m') \<and> mem_inv m' \<and> m_level m' = m_level m \<and>
     (addr = - 1 \<and> m' = m \<or>
      (\<exists>a k. addr = 32 * int a \<and> in_use m' = insert (a, k) (in_use m) \<and> (a, k) \<notin> in_use m \<and>
         n \<le> 32 * 2 ^ k \<and> 32 * 2 ^ k < 2 * (n + 31) \<and>
         2 ^ k dvd a \<and> a + 2 ^ k \<le> 2 ^ m_level m \<and>
         (\<forall>x \<in> in_use m. extent x \<inter> extent (a, k) = {})))"
proof -
  obtain k where pow2: "emsNextPow2 ((n + (EMS_MEM_BLOCKSZ - 1)) mod 2 ^ 64 div EMS_MEM_BLOCKSZ) = Some (2 ^ k)"
    and n: "n \<le> 32 * 2 ^ k" "32 * 2 ^ k < 2 * (n + 31)"
    using request_pow2 [OF assms(2,3)] by blast
  note call = emsMem_alloc_balloc [OF assms(1) pow2]
  show ?thesis
  proof (cases "m_level m < k \<or> balloc k (m_level m) (mem_abs m) = None")
    case True
    with call assms(1) show ?thesis by auto
  next
    case False
    with call obtain a m' where m': "balloc k (m_level m) (mem_abs m) = Some (a, mem_abs m')"
      "emsMem_alloc m n = Some (32 * int a, m')" "mem_inv m'" "m_level m' = m_level m" by auto
    have new: "in_use m' = insert (a, k) (in_use m)" "(a, k) \<notin> in_use m"
      using balloc_blocks [OF m'(1)] m'(4) by (auto simp: in_use_def)
    then have "2 ^ k dvd a"
      using blocks_aligned [of "(a, k)" "m_level m'" "mem_abs m'"] by (auto simp: in_use_def)
    moreover have "a + 2 ^ k \<le> 2 ^ m_level m" using balloc_range [OF m'(1)] by simp
    moreover have "\<forall>x \<in> in_use m. extent x \<inter> extent (a, k) = {}"
      using balloc_fresh [OF m'(1)] by (auto simp: in_use_def)
    ultimately show ?thesis using m' new n by auto
  qed
qed

text \<open>
  C9: an allocation on a well-formed allocator always returns. It either returns \<open>-1\<close> and
  leaves the allocator alone, or hands out one block that was not in use, lies inside the
  heap, meets no block in use, and is long enough, but less than twice the rounded request.
\<close>

theorem emsMem_alloc_correct:
  assumes "mem_inv m" "0 < n" "n + 31 < 2 ^ 64"
  shows "\<exists>addr m'. emsMem_alloc m n = Some (addr, m') \<and> mem_inv m' \<and> m_level m' = m_level m \<and>
     (addr = - 1 \<and> m' = m \<or>
      (\<exists>a k. addr = 32 * int a \<and> in_use m' = insert (a, k) (in_use m) \<and> (a, k) \<notin> in_use m \<and>
         n \<le> 32 * 2 ^ k \<and> 32 * 2 ^ k < 2 * (n + 31) \<and>
         2 ^ k dvd a \<and> a + 2 ^ k \<le> 2 ^ m_level m \<and>
         (\<forall>x \<in> in_use m. extent x \<inter> extent (a, k) = {})))"
  using assms by (rule emsMem_alloc_spec)

theorem emsMem_alloc_correct_witness:
  "\<exists>addr m'. emsMem_alloc (emsMem_new 2 (\<lambda>_. BUDDY_UNUSED)) 40 = Some (addr, m') \<and> mem_inv m'"
  using emsMem_alloc_correct [of "emsMem_new 2 (\<lambda>_. BUDDY_UNUSED)" 40] emsMem_new_facts by auto

text \<open>
  C22: the allocator is complete: it returns \<open>-1\<close> only when every aligned place long enough
  for the request meets a block in use.
\<close>

theorem emsMem_alloc_complete:
  assumes "mem_inv m" "0 < n" "n + 31 < 2 ^ 64" "emsMem_alloc m n = Some (- 1, m')"
    and "n \<le> 32 * 2 ^ j" "2 ^ j dvd a" "a + 2 ^ j \<le> 2 ^ m_level m"
  shows "\<exists>x \<in> in_use m. extent x \<inter> extent (a, j) \<noteq> {}"
proof -
  obtain k where pow2: "emsNextPow2 ((n + (EMS_MEM_BLOCKSZ - 1)) mod 2 ^ 64 div EMS_MEM_BLOCKSZ) = Some (2 ^ k)"
    and least: "\<And>j. n \<le> 32 * 2 ^ j \<Longrightarrow> k \<le> j"
    using request_pow2 [OF assms(2,3)] by blast
  from least [OF assms(5)] have kj: "k \<le> j" .
  then have pw: "(2::nat) ^ k \<le> 2 ^ j" "(2::nat) ^ k dvd 2 ^ j"
    by (simp_all add: le_imp_power_dvd)
  have "(2::nat) ^ j \<le> 2 ^ m_level m" using assms(7) by linarith
  then have kh: "k \<le> m_level m" using kj by simp
  with emsMem_alloc_balloc [OF assms(1) pow2] assms(4)
  have "balloc k (m_level m) (mem_abs m) = None" by (auto split: if_splits)
  moreover have "2 ^ k dvd a" using pw(2) assms(6) by (rule dvd_trans)
  moreover have "a + 2 ^ k \<le> 2 ^ m_level m" using pw(1) assms(7) by linarith
  ultimately obtain x where "x \<in> in_use m" "extent x \<inter> extent (a, k) \<noteq> {}"
    using balloc_None [OF _ mem_inv_canon [OF assms(1)] kh, of a] by (auto simp: in_use_def)
  moreover have "extent (a, k) \<subseteq> extent (a, j)" using pw by (auto simp: extent_def)
  ultimately show ?thesis by blast
qed

text \<open>A heap of one block that is in use.\<close>

definition one_block :: emsMem where
  "one_block = \<lparr>m_level = 0, m_tree = (\<lambda>_. BUDDY_USED)\<rparr>"

lemma one_block_facts:
  "mem_inv one_block" "in_use one_block = {(0, 0)}" "m_level one_block = 0"
  "emsMem_alloc one_block 10 = Some (- 1, one_block)"
proof -
  show "mem_inv one_block" "in_use one_block = {(0, 0)}" "m_level one_block = 0"
    by (simp_all add: one_block_def mem_inv_def in_use_def mem_abs_def)
  have "emsNextPow2 1 = Some 1" by code_simp
  then show "emsMem_alloc one_block 10 = Some (- 1, one_block)"
    by (simp add: emsMem_alloc_def EMS_MEM_BLOCKSZ_def one_block_def alloc_loop.simps
        alloc_up.simps [of 0] parent_of_def)
qed

theorem emsMem_alloc_complete_witness:
  "\<exists>x \<in> in_use one_block. extent x \<inter> extent (0, 0) \<noteq> {}"
  using emsMem_alloc_complete [of one_block 10 one_block 0 0] one_block_facts by simp

text \<open>
  The node states an allocation writes lie inside the array of \<open>2 * size - 1\<close> bytes that
  follows the header.
\<close>

lemma emsMem_alloc_in_bounds:
  assumes "mem_inv m" "0 < n" "n + 31 < 2 ^ 64" "emsMem_alloc m n = Some (addr, m')"
    and "x < 0 \<or> 2 * 2 ^ m_level m - 1 \<le> x"
  shows "m_tree m' x = m_tree m x"
proof -
  obtain k where pow2: "emsNextPow2 ((n + (EMS_MEM_BLOCKSZ - 1)) mod 2 ^ 64 div EMS_MEM_BLOCKSZ) = Some (2 ^ k)"
    using request_pow2 [OF assms(2,3)] by blast
  have "x \<notin> nodes (m_level m) 0" using assms(5) nodes_root [of x "m_level m"] by auto
  with emsMem_alloc_balloc [OF assms(1) pow2] assms(4) show ?thesis by (auto split: if_splits)
qed

lemma small_heap_alloc:
  "\<exists>a m'. emsMem_alloc (emsMem_new 2 (\<lambda>_. BUDDY_FULL)) 40 = Some (32 * int a, m')"
proof -
  have pow2: "emsNextPow2 ((40 + (EMS_MEM_BLOCKSZ - 1)) mod 2 ^ 64 div EMS_MEM_BLOCKSZ) = Some (2 ^ 1)"
    by (simp add: EMS_MEM_BLOCKSZ_def) code_simp
  have "mem_abs (emsMem_new 2 (\<lambda>_. BUDDY_FULL)) = BFree"
    by (simp add: mem_abs_def emsMem_new_def)
  with emsMem_alloc_balloc [OF emsMem_new_facts(1) [of 2 "\<lambda>_. BUDDY_FULL"] pow2]
  show ?thesis using balloc_BFree [of 1 2] by (auto simp: emsMem_new_facts(3))
qed

section \<open>Release\<close>

lemma emsMem_free_bfree:
  assumes inv: "mem_inv m" and off: "off div 32 < 2 ^ m_level m"
  shows "case bfree (off div 32) (m_level m) (mem_abs m) of
           None \<Rightarrow> emsMem_free m off = Some (Inl AssertFailed)
         | Some b \<Rightarrow> \<exists>m'. emsMem_free m off = Some (Inr m') \<and> mem_inv m' \<and>
             m_level m' = m_level m \<and> mem_abs m' = b"
proof -
  let ?h = "m_level m" and ?t = "m_tree m" and ?a = "off div 32"
  have wf: "wfT ?t ?h 0" using inv by (simp add: mem_inv_def)
  have call: "emsMem_free m off = map_option (map_sum id (\<lambda>tree. m\<lparr>m_tree := tree\<rparr>))
      (free_loop ?t (0 + int ?a) 0 (2 ^ ?h) 0)"
    using off by (simp add: emsMem_free_def EMS_MEM_BLOCKSZ_def)
  note sim = call [unfolded free_loop_sim [OF wf off, of 0]]
  show ?thesis
  proof (cases "bfree ?a ?h (mem_abs m)")
    case None
    with sim show ?thesis by (simp add: mem_abs_def)
  next
    case (Some b)
    then have fr: "bfree ?a ?h (absT ?t ?h 0) = Some b" by (simp add: mem_abs_def)
    from free_ok_sim [OF wf _ fr] have ok: "free_ok ?h 0 ?t (walk ?t ?h 0 ?a) b" by simp
    obtain t2 where t2: "EMS_combine ?t (walk ?t ?h 0 ?a) = Some t2" "wfT t2 ?h 0" "absT t2 ?h 0 = b"
    proof (cases "b = BFree")
      case True
      with ok have "EMS_combine ?t (walk ?t ?h 0 ?a) = Some (?t(0 := BUDDY_UNUSED))"
        by (simp add: free_ok_def combine_root)
      moreover have "wfT (?t(0 := BUDDY_UNUSED)) ?h 0" by (cases ?h) auto
      ultimately show thesis using True by (intro that [of "?t(0 := BUDDY_UNUSED)"]) auto
    next
      case False
      with ok show thesis by (auto simp: free_ok_def unfull_root intro: that)
    qed
    with sim fr Some show ?thesis
      by (auto simp: mem_inv_def mem_abs_def intro!: exI [of _ "m\<lparr>m_tree := t2\<rparr>"])
  qed
qed

lemma emsMem_free_spec:
  assumes "mem_inv m" "(a, k) \<in> in_use m" "r < 32"
  shows "\<exists>m'. emsMem_free m (32 * a + r) = Some (Inr m') \<and> mem_inv m' \<and>
     m_level m' = m_level m \<and> in_use m' = in_use m - {(a, k)}"
proof -
  have a: "(32 * a + r) div 32 = a" using assms(3) by simp
  have b: "(a, k) \<in> blocks (m_level m) (mem_abs m)" using assms(2) by (simp add: in_use_def)
  then obtain b' where "bfree a (m_level m) (mem_abs m) = Some b'"
    "blocks (m_level m) b' = in_use m - {(a, k)}"
    using bfree_blocks by (fastforce simp: in_use_def)
  moreover have "a < 2 ^ m_level m" using block_start [OF b] by simp
  ultimately show ?thesis
    using emsMem_free_bfree [OF assms(1), of "32 * a + r"] a by (auto simp: in_use_def)
qed

lemma emsMem_free_block:
  "mem_inv m \<Longrightarrow> (a, k) \<in> in_use m \<Longrightarrow> \<exists>m'. emsMem_free m (32 * a) = Some (Inr m') \<and> mem_inv m' \<and>
     m_level m' = m_level m \<and> in_use m' = in_use m - {(a, k)}"
  using emsMem_free_spec [of m a k 0] by simp

text \<open>
  C10: releasing any byte address inside the first block of memory of a block in use succeeds
  and takes exactly that block out of use.
\<close>

theorem emsMem_free_correct:
  assumes "mem_inv m" "(a, k) \<in> in_use m" "r < 32"
  shows "\<exists>m'. emsMem_free m (32 * a + r) = Some (Inr m') \<and> mem_inv m' \<and>
     m_level m' = m_level m \<and> in_use m' = in_use m - {(a, k)}"
  using assms by (rule emsMem_free_spec)

theorem emsMem_free_correct_witness:
  "\<exists>m'. emsMem_free one_block 3 = Some (Inr m') \<and> in_use m' = {}"
  using emsMem_free_correct [of one_block 0 0 3] one_block_facts by auto

text \<open>
  Releasing an address at which no block in use starts (a double free, or an address inside
  a longer block) stops at an assertion and changes nothing.
\<close>

lemma emsMem_free_asserts:
  assumes "mem_inv m" "off div 32 \<notin> fst ` in_use m"
  shows "emsMem_free m off = Some (Inl AssertFailed)"
proof (cases "off div 32 < 2 ^ m_level m")
  case True
  from assms(2) have "bfree (off div 32) (m_level m) (mem_abs m) = None"
    by (simp add: bfree_None in_use_def)
  with emsMem_free_bfree [OF assms(1) True] show ?thesis by simp
next
  case False
  then show ?thesis by (simp add: emsMem_free_def EMS_MEM_BLOCKSZ_def)
qed

text \<open>
  C27: releasing the block just allocated restores the allocator: the same tree of free and used
  nodes, with every split undone and every pair of free buddies merged again.
\<close>

theorem emsMem_alloc_free:
  assumes "mem_inv m" "0 < n" "n + 31 < 2 ^ 64" "emsMem_alloc m n = Some (addr, m1)" "addr \<noteq> - 1"
  shows "\<exists>m2. emsMem_free m1 (nat addr) = Some (Inr m2) \<and> mem_inv m2 \<and>
     m_level m2 = m_level m \<and> mem_abs m2 = mem_abs m"
proof -
  obtain k where pow2: "emsNextPow2 ((n + (EMS_MEM_BLOCKSZ - 1)) mod 2 ^ 64 div EMS_MEM_BLOCKSZ) = Some (2 ^ k)"
    using request_pow2 [OF assms(2,3)] by blast
  with emsMem_alloc_balloc [OF assms(1) pow2] assms(4,5) obtain a where
    al: "balloc k (m_level m) (mem_abs m) = Some (a, mem_abs m1)" "addr = 32 * int a"
      "mem_inv m1" "m_level m1 = m_level m" by (auto split: if_splits)
  have "bfree a (m_level m1) (mem_abs m1) = Some (mem_abs m)"
    using bfree_balloc [OF al(1) mem_inv_canon [OF assms(1)]] al(4) by simp
  moreover have "nat addr div 32 = a" using al(2) by simp
  moreover have "a < 2 ^ m_level m1" using balloc_start [OF al(1)] al(4) by simp
  ultimately show ?thesis using emsMem_free_bfree [OF al(3), of "nat addr"] al(4) by auto
qed

theorem emsMem_alloc_free_witness:
  "\<exists>addr m1 m2. emsMem_alloc (emsMem_new 2 (\<lambda>_. BUDDY_FULL)) 40 = Some (addr, m1) \<and>
     emsMem_free m1 (nat addr) = Some (Inr m2) \<and> mem_abs m2 = BFree"
proof -
  obtain a m1 where al: "emsMem_alloc (emsMem_new 2 (\<lambda>_. BUDDY_FULL)) 40 = Some (32 * int a, m1)"
    using small_heap_alloc by blast
  have "mem_abs (emsMem_new 2 (\<lambda>_. BUDDY_FULL)) = BFree"
    by (simp add: mem_abs_def emsMem_new_def)
  with emsMem_alloc_free [OF emsMem_new_facts(1) _ _ al] al show ?thesis by auto
qed

section \<open>Block sizes\<close>

lemma size_loop_sim:
  "wfT t h i \<Longrightarrow> (a, k) \<in> blocks h (absT t h i) \<Longrightarrow>
   size_loop t (left + int a) left (2 ^ h) i = Some (Inr (2 ^ k * 32))"
proof (induction h arbitrary: i a left)
  case 0
  then show ?case by (subst size_loop.simps) (auto simp: EMS_MEM_BLOCKSZ_def split: if_splits)
next
  case (Suc h)
  let ?l = "i * 2 + 1" and ?r = "i * 2 + 2"
  consider "t i = BUDDY_USED" | "t i = BUDDY_UNUSED"
    | "t i = BUDDY_SPLIT \<or> t i = BUDDY_FULL" by (cases "t i") auto
  then show ?case
  proof cases
    case 1
    with Suc.prems show ?thesis by (subst size_loop.simps) (auto simp: EMS_MEM_BLOCKSZ_def)
  next
    case 2
    with Suc.prems show ?thesis by simp
  next
    case 3
    then have wf: "wfT t h ?l" "wfT t h ?r" using Suc.prems(1) by auto
    have step: "size_loop t (left + int a) left (2 ^ Suc h) i =
      (if a < 2 ^ h then size_loop t (left + int a) left (2 ^ h) ?l
       else size_loop t (left + int a) (left + 2 ^ h) (2 ^ h) ?r)"
      using 3 of_nat_less_iff [of a "2 ^ h", where ?'a = int]
      by (subst size_loop.simps) (auto simp del: of_nat_less_iff)
    from 3 Suc.prems(2) consider "(a, k) \<in> blocks h (absT t h ?l)"
      | c where "(c, k) \<in> blocks h (absT t h ?r)" "a = 2 ^ h + c"
      by (auto simp: shift_def)
    then show ?thesis
    proof cases
      case 1
      with block_start [OF 1] Suc.IH [OF wf(1) 1] step show ?thesis by simp
    next
      case c: 2
      with Suc.IH [OF wf(2) c(1), of "left + 2 ^ h"] step show ?thesis by (simp add: add.assoc)
    qed
  qed
qed

text \<open>
  \<open>emsMem_size\<close>, given the offset of a block in use counted in blocks, returns its
  length in bytes.
\<close>

lemma emsMem_size_correct:
  assumes "mem_inv m" "(a, k) \<in> in_use m"
  shows "emsMem_size m a = Some (Inr (2 ^ k * 32))"
proof -
  have b: "(a, k) \<in> blocks (m_level m) (absT (m_tree m) (m_level m) 0)" "wfT (m_tree m) (m_level m) 0"
    using assms by (simp_all add: in_use_def mem_abs_def mem_inv_def)
  from size_loop_sim [OF b(2,1), of 0] block_start [OF b(1)] show ?thesis
    by (simp add: emsMem_size_def)
qed

text \<open>
  \<open>emsMem_size\<close> does not take the byte address that \<open>emsMem_alloc\<close> returned for the
  block: from the block on whose byte address reaches the number of blocks of the heap, the
  first assertion fails.
\<close>

lemma emsMem_size_byte_address:
  "2 ^ m_level m \<le> 32 * a \<Longrightarrow> emsMem_size m (32 * a) = Some (Inl AssertFailed)"
  by (simp add: emsMem_size_def)

section \<open>The loops end\<close>

lemma size_loop_returns: "wfT t h i \<Longrightarrow> \<exists>r. size_loop t off left (2 ^ h) i = Some r"
proof (induction h arbitrary: i left)
  case 0
  then show ?case by (subst size_loop.simps) (auto split: if_splits)
next
  case (Suc h)
  show ?case
  proof (cases "t i = BUDDY_USED \<or> t i = BUDDY_UNUSED")
    case True
    then show ?thesis by (subst size_loop.simps) auto
  next
    case False
    then have "wfT t h (i * 2 + 1)" "wfT t h (i * 2 + 2)" "t i = BUDDY_SPLIT \<or> t i = BUDDY_FULL"
      using Suc.prems by (cases "t i"; auto)+
    with Suc.IH [of "i * 2 + 1" left] Suc.IH [of "i * 2 + 2" "left + 2 ^ h"] show ?thesis
      by (subst size_loop.simps) auto
  qed
qed

text \<open>
  C23: on a well-formed allocator the search of an allocation, the walk of a release with the
  merging of buddies, and the walk of \<open>emsMem_size\<close> all come to an end, for every request of at
  least one byte (that does not wrap at 64 bits) and for every address, used or not.
\<close>

theorem emsMem_terminates:
  assumes "mem_inv m" "0 < n" "n + 31 < 2 ^ 64"
  shows "(\<exists>addr m'. emsMem_alloc m n = Some (addr, m')) \<and> (\<exists>r. emsMem_free m off = Some r) \<and>
    (\<exists>r. emsMem_size m off = Some r)"
proof (intro conjI)
  obtain k where pow2: "emsNextPow2 ((n + (EMS_MEM_BLOCKSZ - 1)) mod 2 ^ 64 div EMS_MEM_BLOCKSZ) = Some (2 ^ k)"
    using request_pow2 [OF assms(2,3)] by blast
  from emsMem_alloc_balloc [OF assms(1) pow2] show "\<exists>addr m'. emsMem_alloc m n = Some (addr, m')"
    by (auto split: option.splits if_splits)
  show "\<exists>r. emsMem_free m off = Some r"
  proof (cases "off div 32 < 2 ^ m_level m")
    case True
    from emsMem_free_bfree [OF assms(1) this] show ?thesis by (auto split: option.splits)
  qed (simp add: emsMem_free_def EMS_MEM_BLOCKSZ_def)
  have "wfT (m_tree m) (m_level m) 0" using assms(1) by (simp add: mem_inv_def)
  then show "\<exists>r. emsMem_size m off = Some r"
    using size_loop_returns [of "m_tree m" "m_level m" 0 "int off" 0] by (simp add: emsMem_size_def)
qed

theorem emsMem_terminates_witness:
  "(\<exists>r. emsMem_free one_block 1000 = Some r) \<and> (\<exists>r. emsMem_size one_block 1000 = Some r)"
  using emsMem_terminates [of one_block 1 1000] one_block_facts by simp

end
