(* ===== verification/HeapStrings.thy ===== *)
theory HeapStrings
  imports Allocator
begin

text \<open>
  Strings on the EMS heap. The heap is an array of bytes; a string is copied into a block with
  \<open>strcpy\<close> and read back up to its NUL. The interface \<open>heap_allocator\<close> states what
  the clients of the allocator rely on; inside it, storing a string in a new block is shown to
  keep every string stored before. The interface is interpreted on the buddy allocator.
\<close>

section \<open>C strings in the byte array\<close>

type_synonym heap_bytes = "nat \<Rightarrow> char"

definition strcpy :: "heap_bytes \<Rightarrow> nat \<Rightarrow> string \<Rightarrow> heap_bytes" where
  "strcpy h p s =
     (\<lambda>x. if p \<le> x \<and> x < p + length (c_str s) then c_str s ! (x - p)
          else if x = p + length (c_str s) then NUL else h x)"

text \<open>The string at \<open>p\<close>, read to its NUL or to the end of the region.\<close>

definition heap_string :: "heap_bytes \<Rightarrow> nat \<Rightarrow> nat \<Rightarrow> string" where
  "heap_string h limit p = takeWhile (\<lambda>c. c \<noteq> NUL) (map h [p ..< limit])"

text \<open>
  \<open>str_block L h p s\<close>: \<open>p\<close> is the start of a block of \<open>L\<close> (start and length in
  bytes) that holds the C string \<open>s\<close> with its NUL.
\<close>

definition str_block :: "(nat \<times> nat) set \<Rightarrow> heap_bytes \<Rightarrow> nat \<Rightarrow> string \<Rightarrow> bool" where
  "str_block L h p s \<longleftrightarrow> NUL \<notin> set s \<and>
     (\<exists>n. (p, n) \<in> L \<and> length s < n \<and> (\<forall>i < length s. h (p + i) = s ! i) \<and>
          h (p + length s) = NUL)"

lemma heap_string_block:
  assumes "str_block L h p s" "\<And>n. (p, n) \<in> L \<Longrightarrow> p + n \<le> limit"
  shows "heap_string h limit p = s"
proof -
  from assms obtain n where n: "(p, n) \<in> L" "length s < n" "\<forall>i < length s. h (p + i) = s ! i"
    "h (p + length s) = NUL" "NUL \<notin> set s" by (auto simp: str_block_def)
  from n(1,2) assms(2) have "p + length s < limit" by fastforce
  then obtain d where d: "limit = p + length s + Suc d" using less_iff_Suc_add by auto
  have "[p ..< limit] = [p ..< p + length s] @ (p + length s) # [Suc (p + length s) ..< limit]"
    unfolding d upt_add_eq_append [OF le_add1] by (simp add: upt_conv_Cons del: upt_Suc)
  moreover have "map h [p ..< p + length s] = s"
    using n(3) by (intro nth_equalityI) auto
  ultimately have "map h [p ..< limit] = s @ NUL # map h [Suc (p + length s) ..< limit]"
    using n(4) by simp
  moreover have "takeWhile (\<lambda>c. c \<noteq> NUL) (s @ NUL # xs) = s" for xs
    using n(5) by (subst takeWhile_append2) auto
  ultimately show ?thesis by (simp add: heap_string_def)
qed

lemma str_block_frame:
  assumes "str_block L h p s" "\<And>n. (p, n) \<in> L \<Longrightarrow> (p, n) \<in> L'"
    and "\<And>n x. (p, n) \<in> L \<Longrightarrow> p \<le> x \<Longrightarrow> x < p + n \<Longrightarrow> h' x = h x"
  shows "str_block L' h' p s"
  using assms unfolding str_block_def by fastforce

lemma str_block_strcpy:
  assumes "(p, n) \<in> L" "length (c_str s) < n"
  shows "str_block L (strcpy h p s) p (c_str s)"
  unfolding str_block_def using assms by (auto simp: strcpy_def intro!: exI [of _ n])

lemma strcpy_outside: "x < p \<or> p + n \<le> x \<Longrightarrow> length (c_str s) < n \<Longrightarrow> strcpy h p s x = h x"
  by (auto simp: strcpy_def)

section \<open>The interface of the allocator\<close>

text \<open>The largest request whose rounding to blocks does not wrap at 64 bits.\<close>

definition request_ok :: "nat \<Rightarrow> bool" where
  "request_ok n \<longleftrightarrow> 0 < n \<and> n + 31 < 2 ^ 64"

locale heap_allocator =
  fixes inv :: "'m \<Rightarrow> bool"
    and live :: "'m \<Rightarrow> (nat \<times> nat) set"
    and cap :: "'m \<Rightarrow> nat"
    and alloc :: "'m \<Rightarrow> nat \<Rightarrow> (int \<times> 'm) option"
    and free :: "'m \<Rightarrow> nat \<Rightarrow> ('e + 'm) option"
  assumes live_bounds: "inv m \<Longrightarrow> (p, n) \<in> live m \<Longrightarrow> 0 < n \<and> p + n \<le> cap m"
    and live_disjoint: "inv m \<Longrightarrow> (p, n) \<in> live m \<Longrightarrow> (q, k) \<in> live m \<Longrightarrow> (p, n) \<noteq> (q, k) \<Longrightarrow>
          p + n \<le> q \<or> q + k \<le> p"
    and alloc_returns: "inv m \<Longrightarrow> request_ok n \<Longrightarrow> \<exists>addr m'. alloc m n = Some (addr, m')"
    and alloc_fails: "inv m \<Longrightarrow> request_ok n \<Longrightarrow> alloc m n = Some (addr, m') \<Longrightarrow> addr < 0 \<Longrightarrow>
          addr = - 1 \<and> m' = m"
    and alloc_block: "inv m \<Longrightarrow> request_ok n \<Longrightarrow> alloc m n = Some (addr, m') \<Longrightarrow> 0 \<le> addr \<Longrightarrow>
          inv m' \<and> cap m' = cap m \<and>
          (\<exists>k \<ge> n. (nat addr, k) \<notin> live m \<and> live m' = insert (nat addr, k) (live m))"
    and free_block: "inv m \<Longrightarrow> (p, n) \<in> live m \<Longrightarrow>
          \<exists>m'. free m p = Some (Inr m') \<and> inv m' \<and> cap m' = cap m \<and> live m' = live m - {(p, n)}"
begin

lemma live_start: "inv m \<Longrightarrow> (p, n) \<in> live m \<Longrightarrow> (p, k) \<in> live m \<Longrightarrow> n = k"
  using live_disjoint [of m p n p k] live_bounds [of m p n] live_bounds [of m p k] by auto

lemma read_block: "inv m \<Longrightarrow> str_block (live m) h p s \<Longrightarrow> heap_string h (cap m) p = s"
  using live_bounds by (intro heap_string_block) auto

text \<open>A string stored in a new block is there, and every string stored before still is.\<close>

lemma store_new:
  assumes "inv m" "request_ok n" "alloc m n = Some (addr, m')" "0 \<le> addr" "length (c_str s) < n"
  shows "str_block (live m') (strcpy h (nat addr) s) (nat addr) (c_str s)"
    and "str_block (live m) h q t \<Longrightarrow>
           str_block (live m') (strcpy h (nat addr) s) q t \<and> q \<noteq> nat addr"
proof -
  from alloc_block [OF assms(1-4)] obtain k where
    k: "inv m'" "n \<le> k" "(nat addr, k) \<notin> live m" "live m' = insert (nat addr, k) (live m)" by auto
  then show "str_block (live m') (strcpy h (nat addr) s) (nat addr) (c_str s)"
    using assms(5) by (intro str_block_strcpy [of _ k]) auto
  assume q: "str_block (live m) h q t"
  then obtain j where j: "(q, j) \<in> live m" by (auto simp: str_block_def)
  have ne: "q \<noteq> nat addr"
    using live_start [OF k(1), of q j k] j k(3,4) by auto
  moreover have "str_block (live m') (strcpy h (nat addr) s) q t"
  proof (rule str_block_frame [OF q])
    show "(q, i) \<in> live m'" if "(q, i) \<in> live m" for i using that k(4) by simp
    show "strcpy h (nat addr) s x = h x" if "(q, i) \<in> live m" "q \<le> x" "x < q + i" for i x
    proof -
      have "q + i \<le> nat addr \<or> nat addr + k \<le> q"
        using live_disjoint [OF k(1), of q i "nat addr" k] that(1) k(4) ne by auto
      then show ?thesis
        using that(2,3) assms(5) k(2) by (intro strcpy_outside [of _ _ k]) auto
    qed
  qed
  ultimately show "str_block (live m') (strcpy h (nat addr) s) q t \<and> q \<noteq> nat addr" by blast
qed

text \<open>Releasing one string block keeps the others.\<close>

lemma release_string:
  assumes "inv m" "str_block (live m) h p s"
  obtains m' where "free m p = Some (Inr m')" "inv m'" "cap m' = cap m"
    "\<And>q t. str_block (live m) h q t \<Longrightarrow> q \<noteq> p \<Longrightarrow> str_block (live m') h q t"
proof -
  from assms(2) obtain n where "(p, n) \<in> live m" by (auto simp: str_block_def)
  from free_block [OF assms(1) this] obtain m' where
    "free m p = Some (Inr m')" "inv m'" "cap m' = cap m" "live m' = live m - {(p, n)}" by blast
  note m' = this
  have "str_block (live m') h q t" if "str_block (live m) h q t" "q \<noteq> p" for q t
    using that m'(4) by (auto simp: str_block_def)
  with m'(1-3) show thesis by (rule that)
qed

end

section \<open>The buddy allocator provides it\<close>

definition heap_bytes_of :: "emsMem \<Rightarrow> nat" where
  "heap_bytes_of m = 2 ^ m_level m * EMS_MEM_BLOCKSZ"

definition live_blocks :: "emsMem \<Rightarrow> (nat \<times> nat) set" where
  "live_blocks m = (\<lambda>(a, k). (32 * a, 32 * 2 ^ k)) ` in_use m"

lemma live_blocks_iff: "(p, n) \<in> live_blocks m \<longleftrightarrow> (\<exists>a k. (a, k) \<in> in_use m \<and> p = 32 * a \<and> n = 32 * 2 ^ k)"
  by (auto simp: live_blocks_def)

lemma live_blocks_remove:
  "in_use m' = in_use m - {(a, k)} \<Longrightarrow> live_blocks m' = live_blocks m - {(32 * a, 32 * 2 ^ k)}"
proof -
  have "inj (\<lambda>(a, k). (32 * a, 32 * 2 ^ k :: nat) :: nat \<times> nat)" by (auto simp: inj_on_def)
  then show "live_blocks m' = live_blocks m - {(32 * a, 32 * 2 ^ k)}"
    if "in_use m' = in_use m - {(a, k)}"
    using that by (simp add: live_blocks_def image_set_diff)
qed

lemma live_blocks_insert:
  "in_use m' = insert (a, k) (in_use m) \<Longrightarrow>
    live_blocks m' = insert (32 * a, 32 * 2 ^ k) (live_blocks m)"
  by (simp add: live_blocks_def)

lemma live_blocks_mem: "(32 * a, 32 * 2 ^ k) \<in> live_blocks m \<longleftrightarrow> (a, k) \<in> in_use m"
  by (auto simp: live_blocks_iff)

lemma in_use_disjoint:
  assumes "(a, k) \<in> in_use m" "(b, j) \<in> in_use m" "(a, k) \<noteq> (b, j)"
  shows "a + 2 ^ k \<le> b \<or> b + 2 ^ j \<le> a"
proof (rule ccontr)
  assume "\<not> ?thesis"
  then have "max a b \<in> extent (a, k) \<inter> extent (b, j)" by (auto simp: extent_def max_def)
  moreover have "extent (a, k) \<inter> extent (b, j) = {}"
    using assms blocks_disjoint unfolding in_use_def by blast
  ultimately show False by simp
qed

interpretation buddy: heap_allocator mem_inv live_blocks heap_bytes_of emsMem_alloc emsMem_free
proof
  fix m p n
  assume "mem_inv m" "(p, n) \<in> live_blocks m"
  then obtain a k where ak: "(a, k) \<in> in_use m" "p = 32 * a" "n = 32 * 2 ^ k"
    by (auto simp: live_blocks_iff)
  have "a + 2 ^ k \<le> 2 ^ m_level m"
    using ak(1) blocks_range [of "(a, k)" "m_level m" "mem_abs m"] by (simp add: in_use_def)
  then have "32 * (a + 2 ^ k) \<le> 32 * 2 ^ m_level m" by simp
  then show "0 < n \<and> p + n \<le> heap_bytes_of m"
    using ak(2,3) by (simp add: heap_bytes_of_def EMS_MEM_BLOCKSZ_def)
  from emsMem_free_block [OF \<open>mem_inv m\<close> ak(1)] obtain m' where
    "emsMem_free m (32 * a) = Some (Inr m')" "mem_inv m'" "m_level m' = m_level m"
    "in_use m' = in_use m - {(a, k)}" by auto
  then show "\<exists>m'. emsMem_free m p = Some (Inr m') \<and> mem_inv m' \<and>
      heap_bytes_of m' = heap_bytes_of m \<and> live_blocks m' = live_blocks m - {(p, n)}"
    using ak(2,3) live_blocks_remove [of m' m a k] by (simp add: heap_bytes_of_def)
next
  fix m p n q k
  assume "mem_inv m" "(p, n) \<in> live_blocks m" "(q, k) \<in> live_blocks m" "(p, n) \<noteq> (q, k)"
  then obtain a i b j where ab: "(a, i) \<in> in_use m" "(b, j) \<in> in_use m" "p = 32 * a" "n = 32 * 2 ^ i"
    "q = 32 * b" "k = 32 * 2 ^ j" by (auto simp: live_blocks_iff)
  then have "(a, i) \<noteq> (b, j)" using \<open>(p, n) \<noteq> (q, k)\<close> by auto
  from in_use_disjoint [OF ab(1,2) this] have "a + 2 ^ i \<le> b \<or> b + 2 ^ j \<le> a" .
  then have "32 * (a + 2 ^ i) \<le> 32 * b \<or> 32 * (b + 2 ^ j) \<le> 32 * a"
    using mult_le_mono2 by blast
  then show "p + n \<le> q \<or> q + k \<le> p"
    using ab(3-6) by simp
next
  fix m n
  assume "mem_inv m" "request_ok n"
  then show "\<exists>addr m'. emsMem_alloc m n = Some (addr, m')"
    using emsMem_alloc_spec [of m n] by (auto simp: request_ok_def)
next
  fix m n addr m'
  assume "mem_inv m" "request_ok n" and al: "emsMem_alloc m n = Some (addr, m')"
  then have spec: "mem_inv m' \<and> m_level m' = m_level m \<and>
     (addr = - 1 \<and> m' = m \<or>
      (\<exists>a k. addr = 32 * int a \<and> in_use m' = insert (a, k) (in_use m) \<and> (a, k) \<notin> in_use m \<and>
         n \<le> 32 * 2 ^ k))"
    using emsMem_alloc_spec [of m n] by (auto simp: request_ok_def)
  then show "addr = - 1 \<and> m' = m" if "addr < 0" using that by auto
  show "mem_inv m' \<and> heap_bytes_of m' = heap_bytes_of m \<and>
      (\<exists>k \<ge> n. (nat addr, k) \<notin> live_blocks m \<and> live_blocks m' = insert (nat addr, k) (live_blocks m))"
    if "0 \<le> addr"
  proof -
    from spec that obtain a k where ak: "addr = 32 * int a" "in_use m' = insert (a, k) (in_use m)"
      "(a, k) \<notin> in_use m" "n \<le> 32 * 2 ^ k" by auto
    then have "nat addr = 32 * a" by simp
    moreover have "heap_bytes_of m' = heap_bytes_of m" using spec by (simp add: heap_bytes_of_def)
    moreover note ak live_blocks_insert [OF ak(2)] live_blocks_mem [of a k m]
    ultimately show ?thesis using spec by auto
  qed
qed

end
