(* ===== verification/EmsMem.thy ===== *)
theory EmsMem
  imports EmsLayout HeapStrings "HOL-Library.Monad_Syntax"
begin

text \<open>
  One EMS buffer and the primitives every operation is made of: the tag transition
  \<open>EMStransitionFEtag\<close>, the allocator behind its mutex, and strings stored on the heap
  (\<open>src/ems.cc\<close>, \<open>src/ems.h\<close>).

  Other processes share the buffer. They act while an operation naps (\<open>NANOSLEEP\<close>) and
  between the load of a tag and the compare and swap on it; \<open>env w k\<close> is what they do at the
  \<open>k\<close>th such point. An operation gets \<open>fuel\<close>, the number of attempts each of its waiting
  loops may make; \<open>None\<close> is an operation that has not returned by then, or whose behaviour
  C leaves undefined, or that aborted.
\<close>

section \<open>Values passed in and out\<close>

text \<open>
  \<open>EMSvalueType\<close>. Its \<open>void *\<close> holds the 64 bits of a number, a pointer to a private
  string, or a pointer into the EMS heap (an offset from the heap's base).
\<close>

datatype payload = PInt int | PStr string | PHeap int

record EMSvalueType =
  len :: nat
  val :: payload
  vtype :: ems_type

section \<open>The buffer\<close>

text \<open>
  Words and tags by application index, which \<open>layout_disjoint\<close> makes independent of each
  other; the allocator's structure and the heap's bytes.
\<close>

record ems =
  word :: "nat \<Rightarrow> int"
  tag :: "nat \<Rightarrow> EMStag_t"
  malloc :: emsMem
  heap :: heap_bytes

definition set_word :: "nat \<Rightarrow> int \<Rightarrow> ems \<Rightarrow> ems" where
  "set_word a x m = m\<lparr>word := (word m)(a := x)\<rparr>"

definition set_tag :: "nat \<Rightarrow> EMStag_t \<Rightarrow> ems \<Rightarrow> ems" where
  "set_tag a t m = m\<lparr>tag := (tag m)(a := t)\<rparr>"

definition set_fe :: "nat \<Rightarrow> fe_state \<Rightarrow> ems \<Rightarrow> ems" where
  "set_fe a f m = set_tag a ((tag m a)\<lparr>fe := f\<rparr>) m"

definition nelem :: "ems \<Rightarrow> int" where
  "nelem m = word m EMS_ARR_NELEM"

text \<open>
  \<open>EMSdataData\<close>, \<open>EMSdataTag\<close>, \<open>EMSmapData\<close> and \<open>EMSmapTag\<close> as application
  indexes. Index \<open>-1\<close> of the map is the last data element, as in C.
\<close>

definition dataIdx :: "int \<Rightarrow> nat" where
  "dataIdx idx = nat (idx + int EMS_ARR_CB_SIZE)"

definition mapIdx :: "ems \<Rightarrow> int \<Rightarrow> nat" where
  "mapIdx m idx = nat (idx + int EMS_ARR_CB_SIZE + nelem m)"

definition EMSisMapped :: "ems \<Rightarrow> bool" where
  "EMSisMapped m \<longleftrightarrow> word m EMS_ARR_MAPBOT * int EMSwordSize \<noteq> word m EMS_ARR_MALLOCBOT"

text \<open>
  \<open>EMSheapPtr\<close> and reading a C string there; \<open>None\<close> when the bytes run out of the heap.
\<close>

definition heapStr :: "ems \<Rightarrow> int \<Rightarrow> string option" where
  "heapStr m off =
     (let n = heap_bytes_of (malloc m); s = heap_string (heap m) n (nat off) in
      if 0 \<le> off \<and> nat off + length s < n then Some s else None)"

fun cstring :: "ems \<Rightarrow> payload \<Rightarrow> string option" where
  "cstring m (PStr s) = Some (c_str s)"
| "cstring m (PHeap off) = heapStr m off"
| "cstring m (PInt i) = None"

text \<open>\<open>(int64_t) value->value\<close>; the address of a string is not modelled.\<close>

fun as_int64 :: "payload \<Rightarrow> int option" where
  "as_int64 (PInt i) = Some i"
| "as_int64 _ = None"

section \<open>The other processes\<close>

record world =
  mem :: ems
  env :: "nat \<Rightarrow> ems \<Rightarrow> ems"
  now :: nat
  libc_malloc :: "nat \<Rightarrow> bool"

text \<open>\<open>libc_malloc n\<close>: the C library's \<open>malloc(n)\<close> does not return NULL.\<close>

definition yield :: "world \<Rightarrow> world" where
  "yield w = w\<lparr>mem := env w (now w) (mem w), now := Suc (now w)\<rparr>"

definition upd :: "(ems \<Rightarrow> ems) \<Rightarrow> world \<Rightarrow> world" where
  "upd f w = w\<lparr>mem := f (mem w)\<rparr>"

text \<open>\<open>waits w w'\<close>: from \<open>w\<close> to \<open>w'\<close> only the other processes acted.\<close>

inductive waits :: "world \<Rightarrow> world \<Rightarrow> bool" where
  waits_refl [intro!, simp]: "waits w w"
| waits_yield [intro]: "waits w w' \<Longrightarrow> waits w (yield w')"

text \<open>No other process acts.\<close>

definition quiet :: "world \<Rightarrow> bool" where
  "quiet w \<longleftrightarrow> (\<forall>k m. env w k m = m)"

section \<open>The mutex of the allocator\<close>

text \<open>The mutex is the low byte of its word.\<close>

definition low_byte :: "int \<Rightarrow> int" where
  "low_byte x = x mod 256"

definition set_low_byte :: "int \<Rightarrow> int \<Rightarrow> int" where
  "set_low_byte b x = x - x mod 256 + b"

fun mutex_acquire :: "nat \<Rightarrow> world \<Rightarrow> world option" where
  "mutex_acquire 0 w = None"
| "mutex_acquire (Suc fuel) w =
     (let x = word (mem w) EMS_ARR_MEM_MUTEX in
      if low_byte x = int (fe_code EMS_TAG_EMPTY)
      then Some (upd (set_word EMS_ARR_MEM_MUTEX (set_low_byte (int (fe_code EMS_TAG_FULL)) x)) w)
      else mutex_acquire fuel (yield w))"

definition mutex_release :: "world \<Rightarrow> world" where
  "mutex_release w =
     upd (set_word EMS_ARR_MEM_MUTEX
            (set_low_byte (int (fe_code EMS_TAG_EMPTY)) (word (mem w) EMS_ARR_MEM_MUTEX))) w"

definition emsMutexMem_alloc :: "nat \<Rightarrow> nat \<Rightarrow> world \<Rightarrow> (int \<times> world) option" where
  "emsMutexMem_alloc fuel n w = do {
     w \<leftarrow> mutex_acquire fuel w;
     (retval, malloc') \<leftarrow> emsMem_alloc (malloc (mem w)) n;
     Some (retval, mutex_release (upd (malloc_update (\<lambda>_. malloc')) w))
   }"

text \<open>A failed assertion of \<open>emsMem_free\<close> aborts the process.\<close>

definition emsMutexMem_free :: "nat \<Rightarrow> int \<Rightarrow> world \<Rightarrow> world option" where
  "emsMutexMem_free fuel addr w = do {
     w \<leftarrow> mutex_acquire fuel w;
     r \<leftarrow> emsMem_free (malloc (mem w)) (nat (addr mod 2 ^ 64));
     (case r of
        Inl AssertFailed \<Rightarrow> None
      | Inr malloc' \<Rightarrow> Some (mutex_release (upd (malloc_update (\<lambda>_. malloc')) w)))
   }"

section \<open>Tag transitions\<close>

text \<open>
  \<open>EMStransitionFEtag\<close>. \<open>oldType\<close> is the \<open>unsigned char\<close> the caller passes; the code
  takes 4 (\<open>EMS_TAG_ANY\<close>, which is also \<open>EMS_TYPE_INTEGER\<close>) as any type. The result
  is the tag byte, here the tag. \<open>memTag\<close> is the local variable of the loop.
\<close>

definition EMS_TAG_ANY_code :: nat where "EMS_TAG_ANY_code = 4"

fun transition_loop ::
  "nat \<Rightarrow> nat \<Rightarrow> nat option \<Rightarrow> fe_state \<Rightarrow> fe_state \<Rightarrow> nat \<Rightarrow> EMStag_t \<Rightarrow> world \<Rightarrow>
    (EMStag_t \<times> world) option" where
  "transition_loop 0 t mapTag oldFE newFE oldType memTag w = None"
| "transition_loop (Suc fuel) t mapTag oldFE newFE oldType memTag w =
     (if oldType = EMS_TAG_ANY_code \<or> type_code (ty memTag) = oldType then
        (let oldTag = memTag\<lparr>fe := oldFE\<rparr>;
             newTag = memTag\<lparr>fe := newFE\<rparr>;
             w = yield w in
         if tag (mem w) t = oldTag then Some (newTag, upd (set_tag t newTag) w)
         else
           (case mapTag of
              None \<Rightarrow>
                (let w = yield w in
                 transition_loop fuel t mapTag oldFE newFE oldType (tag (mem w) t) w)
            | Some mt \<Rightarrow>
                (let w = yield (upd (set_fe mt EMS_TAG_FULL) w) in
                 case transition_loop fuel mt None EMS_TAG_FULL EMS_TAG_BUSY EMS_TAG_ANY_code
                        (tag (mem w) mt) w of
                   None \<Rightarrow> None
                 | Some (_, w) \<Rightarrow>
                     transition_loop fuel t mapTag oldFE newFE oldType (tag (mem w) t) w)))
      else Some (memTag, w))"

definition EMStransitionFEtag ::
  "nat \<Rightarrow> nat \<Rightarrow> nat option \<Rightarrow> fe_state \<Rightarrow> fe_state \<Rightarrow> nat \<Rightarrow> world \<Rightarrow> (EMStag_t \<times> world) option" where
  "EMStransitionFEtag fuel t mapTag oldFE newFE oldType w =
     transition_loop fuel t mapTag oldFE newFE oldType (tag (mem w) t) w"

section \<open>Strings stored on the heap\<close>

text \<open>
  The pattern shared by all writers: allocate \<open>n\<close> bytes, store the offset in the word,
  copy the string. The result is \<open>False\<close> when \<open>EMS_ALLOC\<close> found no block, where the
  callers return at once.
\<close>

definition store_text :: "nat \<Rightarrow> nat \<Rightarrow> nat \<Rightarrow> payload \<Rightarrow> world \<Rightarrow> (bool \<times> world) option" where
  "store_text fuel a n p w = do {
     (textOffset, w) \<leftarrow> emsMutexMem_alloc fuel n w;
     if textOffset < 0 then Some (False, w)
     else do {
       let w = upd (set_word a textOffset) w;
       s \<leftarrow> cstring (mem w) p;
       Some (True, upd (\<lambda>m. m\<lparr>heap := strcpy (heap m) (nat textOffset) s\<rparr>) w)
     }
   }"

end
