(* ===== verification/EmsState.thy ===== *)
theory EmsState
  imports EmsMem
begin

text \<open>
  How the primitives of \<open>EmsMem\<close> behave: what they leave alone, what a tag transition
  guarantees under any interference, when a waiting transition returns, and the ownership of
  heap strings by the words that point to them.
\<close>

section \<open>Reading after writing\<close>

lemma set_word_sel [simp]:
  "word (set_word a x m) = (word m)(a := x)" "tag (set_word a x m) = tag m"
  "malloc (set_word a x m) = malloc m" "heap (set_word a x m) = heap m"
  by (simp_all add: set_word_def)

lemma set_tag_sel [simp]:
  "word (set_tag a t m) = word m" "tag (set_tag a t m) = (tag m)(a := t)"
  "malloc (set_tag a t m) = malloc m" "heap (set_tag a t m) = heap m"
  by (simp_all add: set_tag_def)

lemma set_fe_sel [simp]:
  "word (set_fe a f m) = word m" "tag (set_fe a f m) = (tag m)(a := (tag m a)\<lparr>fe := f\<rparr>)"
  "malloc (set_fe a f m) = malloc m" "heap (set_fe a f m) = heap m"
  by (simp_all add: set_fe_def)

lemma upd_sel [simp]:
  "mem (upd f w) = f (mem w)" "env (upd f w) = env w" "now (upd f w) = now w"
  "libc_malloc (upd f w) = libc_malloc w" "quiet (upd f w) = quiet w"
  by (simp_all add: upd_def quiet_def)

lemma yield_sel [simp]:
  "env (yield w) = env w" "libc_malloc (yield w) = libc_malloc w" "quiet (yield w) = quiet w"
  by (simp_all add: yield_def quiet_def)

lemma yield_quiet [simp]: "quiet w \<Longrightarrow> mem (yield w) = mem w"
  by (simp add: yield_def quiet_def)

lemma ems_eqI:
  "word m = word n \<Longrightarrow> tag m = tag n \<Longrightarrow> malloc m = malloc n \<Longrightarrow> heap m = heap n \<Longrightarrow> m = (n :: ems)"
  by simp

lemma set_word_id [simp]: "set_word a (word m a) m = m"
  by (rule ems_eqI) simp_all

lemma set_tag_id [simp]: "set_tag a (tag m a) m = m"
  by (rule ems_eqI) simp_all

lemma set_tag_twice [simp]: "set_tag a t (set_tag a u m) = set_tag a t m"
  by (rule ems_eqI) simp_all

lemma cb_distinct [simp]:
  "EMS_ARR_NELEM \<noteq> EMS_ARR_STACKTOP" "EMS_ARR_NELEM \<noteq> EMS_ARR_Q_BOTTOM"
  "EMS_ARR_NELEM \<noteq> EMS_ARR_MEM_MUTEX" "EMS_ARR_STACKTOP \<noteq> EMS_ARR_NELEM"
  "EMS_ARR_STACKTOP \<noteq> EMS_ARR_Q_BOTTOM" "EMS_ARR_STACKTOP \<noteq> EMS_ARR_MEM_MUTEX"
  "EMS_ARR_Q_BOTTOM \<noteq> EMS_ARR_NELEM" "EMS_ARR_Q_BOTTOM \<noteq> EMS_ARR_STACKTOP"
  "EMS_ARR_Q_BOTTOM \<noteq> EMS_ARR_MEM_MUTEX" "EMS_ARR_MEM_MUTEX \<noteq> EMS_ARR_NELEM"
  "EMS_ARR_MEM_MUTEX \<noteq> EMS_ARR_STACKTOP" "EMS_ARR_MEM_MUTEX \<noteq> EMS_ARR_Q_BOTTOM"
  by (simp_all add: ems_cb_defs)

lemma dataIdx_cb [simp]:
  assumes "0 \<le> i"
  shows "dataIdx i \<noteq> EMS_ARR_NELEM" "dataIdx i \<noteq> EMS_ARR_STACKTOP" "dataIdx i \<noteq> EMS_ARR_Q_BOTTOM"
    "dataIdx i \<noteq> EMS_ARR_MEM_MUTEX" "dataIdx i \<noteq> EMS_ARR_MAPBOT" "dataIdx i \<noteq> EMS_ARR_MALLOCBOT"
    "EMS_ARR_NELEM \<noteq> dataIdx i" "EMS_ARR_STACKTOP \<noteq> dataIdx i" "EMS_ARR_Q_BOTTOM \<noteq> dataIdx i"
    "EMS_ARR_MEM_MUTEX \<noteq> dataIdx i" "EMS_ARR_MAPBOT \<noteq> dataIdx i" "EMS_ARR_MALLOCBOT \<noteq> dataIdx i"
  using assms by (simp_all add: dataIdx_def ems_cb_defs)

lemma dataIdx_eq [simp]: "0 \<le> i \<Longrightarrow> 0 \<le> j \<Longrightarrow> dataIdx i = dataIdx j \<longleftrightarrow> i = j"
  by (auto simp: dataIdx_def)

lemma mapIdx_cb [simp]:
  assumes "0 \<le> i" "0 \<le> nelem m"
  shows "mapIdx m i \<noteq> EMS_ARR_NELEM" "mapIdx m i \<noteq> EMS_ARR_STACKTOP" "mapIdx m i \<noteq> EMS_ARR_Q_BOTTOM"
    "mapIdx m i \<noteq> EMS_ARR_MEM_MUTEX" "mapIdx m i \<noteq> EMS_ARR_MAPBOT" "mapIdx m i \<noteq> EMS_ARR_MALLOCBOT"
    "EMS_ARR_NELEM \<noteq> mapIdx m i" "EMS_ARR_MAPBOT \<noteq> mapIdx m i" "EMS_ARR_MALLOCBOT \<noteq> mapIdx m i"
    "EMS_ARR_MEM_MUTEX \<noteq> mapIdx m i"
  using assms by (simp_all add: mapIdx_def ems_cb_defs)

section \<open>The mutex\<close>

definition unlocked :: "ems \<Rightarrow> bool" where
  "unlocked m \<longleftrightarrow> low_byte (word m EMS_ARR_MEM_MUTEX) = int (fe_code EMS_TAG_EMPTY)"

lemma low_byte_set [simp]: "0 \<le> b \<Longrightarrow> b < 256 \<Longrightarrow> low_byte (set_low_byte b x) = b"
  by (simp add: low_byte_def set_low_byte_def minus_mod_eq_mult_div)

lemma set_low_byte_twice [simp]:
  "0 \<le> a \<Longrightarrow> a < 256 \<Longrightarrow> set_low_byte b (set_low_byte a x) = set_low_byte b x"
  by (simp add: set_low_byte_def minus_mod_eq_mult_div)

lemma set_low_byte_same: "low_byte x = b \<Longrightarrow> set_low_byte b x = x"
  by (simp add: low_byte_def set_low_byte_def)

definition locked_from :: "world \<Rightarrow> world \<Rightarrow> bool" where
  "locked_from w0 w \<longleftrightarrow> unlocked (mem w0) \<and>
     w = upd (set_word EMS_ARR_MEM_MUTEX (set_low_byte (int (fe_code EMS_TAG_FULL))
                 (word (mem w0) EMS_ARR_MEM_MUTEX))) w0"

lemma waits_trans: "waits v w \<Longrightarrow> waits u v \<Longrightarrow> waits u w"
  by (induction rule: waits.induct) auto

lemma waits_one: "waits w (yield w)"
  by auto

lemma mutex_acquire_locked:
  "mutex_acquire fuel w = Some w' \<Longrightarrow> \<exists>w0. waits w w0 \<and> locked_from w0 w'"
proof (induction fuel arbitrary: w)
  case (Suc fuel)
  show ?case
  proof (cases "unlocked (mem w)")
    case True
    with Suc.prems show ?thesis
      by (intro exI [of _ w]) (auto simp: locked_from_def unlocked_def Let_def)
  next
    case False
    with Suc.prems have "mutex_acquire fuel (yield w) = Some w'"
      by (simp add: unlocked_def Let_def)
    from Suc.IH [OF this] show ?thesis using waits_trans waits_one by blast
  qed
qed simp

lemma mutex_acquire_unlocked:
  "unlocked (mem w) \<Longrightarrow> mutex_acquire (Suc fuel) w =
     Some (upd (set_word EMS_ARR_MEM_MUTEX (set_low_byte (int (fe_code EMS_TAG_FULL))
                 (word (mem w) EMS_ARR_MEM_MUTEX))) w)"
  by (simp add: unlocked_def Let_def)

lemma mutex_release_acquire:
  assumes "unlocked (mem w)"
  shows "mutex_release (upd (malloc_update f) (upd (set_word EMS_ARR_MEM_MUTEX
           (set_low_byte 0 (word (mem w) EMS_ARR_MEM_MUTEX))) w)) = upd (malloc_update f) w"
proof -
  let ?x = "word (mem w) EMS_ARR_MEM_MUTEX"
  have "set_low_byte 1 ?x = ?x" using assms(1) by (intro set_low_byte_same) (simp add: unlocked_def)
  then show ?thesis
    by (simp add: mutex_release_def upd_def set_word_def)
qed

lemma malloc_update_word [simp]:
  "word (malloc_update f m) = word m" "tag (malloc_update f m) = tag m"
  "heap (malloc_update f m) = heap m"
  by simp_all

lemma emsMutexMem_alloc_unlocked:
  assumes "unlocked (mem w)" "0 < fuel"
  shows "emsMutexMem_alloc fuel n w =
    map_option (\<lambda>(r, malloc'). (r, upd (malloc_update (\<lambda>_. malloc')) w)) (emsMem_alloc (malloc (mem w)) n)"
proof -
  from assms(2) obtain k where "fuel = Suc k" by (cases fuel) auto
  then show ?thesis
    unfolding emsMutexMem_alloc_def
    by (cases "emsMem_alloc (malloc (mem w)) n")
      (auto simp del: mutex_acquire.simps malloc_update_word simp: mutex_acquire_unlocked assms(1)
        mutex_release_acquire)
qed

lemma emsMutexMem_free_unlocked:
  assumes "unlocked (mem w)" "0 < fuel"
    and "emsMem_free (malloc (mem w)) (nat (addr mod 2 ^ 64)) = Some (Inr malloc')"
  shows "emsMutexMem_free fuel addr w = Some (upd (malloc_update (\<lambda>_. malloc')) w)"
proof -
  from assms(2) obtain k where "fuel = Suc k" by (cases fuel) auto
  with assms(3) show ?thesis
    unfolding emsMutexMem_free_def
    by (simp del: mutex_acquire.simps
        add: mutex_acquire_unlocked assms(1) mutex_release_acquire)
qed

section \<open>Tag transitions\<close>

lemmas transition_Suc = transition_loop.simps(2)

lemma fe_update_same: "fe t = f \<Longrightarrow> t\<lparr>fe := f\<rparr> = (t :: EMStag_t)"
  by (cases t) simp

lemma fe_update_eq_iff: "t = u\<lparr>fe := f\<rparr> \<longleftrightarrow> fe t = f \<and> t = u\<lparr>fe := fe t\<rparr>" for t u :: EMStag_t
  by (cases t; cases u) auto

text \<open>
  Whatever the other processes do, a transition that ends either swapped the tag in one step, at
  a moment when its state was the awaited one, or found another type than the one asked for.
\<close>

lemma transition_loop_atomic:
  assumes "transition_loop fuel t None oldFE newFE oldType memTag w = Some (r, w')"
  shows "(\<exists>w0. waits w w0 \<and> fe (tag (mem w0) t) = oldFE \<and> r = (tag (mem w0) t)\<lparr>fe := newFE\<rparr> \<and>
            w' = upd (set_tag t r) w0) \<or>
         (oldType \<noteq> EMS_TAG_ANY_code \<and> type_code (ty r) \<noteq> oldType \<and> waits w w')"
  using assms
proof (induction fuel arbitrary: memTag w)
  case (Suc fuel)
  let ?w1 = "yield w"
  consider "\<not> (oldType = EMS_TAG_ANY_code \<or> type_code (ty memTag) = oldType)"
    | "oldType = EMS_TAG_ANY_code \<or> type_code (ty memTag) = oldType" "tag (mem ?w1) t = memTag\<lparr>fe := oldFE\<rparr>"
    | "oldType = EMS_TAG_ANY_code \<or> type_code (ty memTag) = oldType" "tag (mem ?w1) t \<noteq> memTag\<lparr>fe := oldFE\<rparr>"
    by blast
  then show ?case
  proof cases
    case 1 then show ?thesis using Suc.prems by (auto simp: transition_Suc)
  next
    case 2 then show ?thesis using Suc.prems by (auto simp: transition_Suc Let_def)
  next
    case 3
    then have "transition_loop fuel t None oldFE newFE oldType (tag (mem (yield ?w1)) t) (yield ?w1)
      = Some (r, w')" using Suc.prems by (auto simp: transition_Suc Let_def)
    from Suc.IH [OF this] show ?thesis
      using waits_trans [of "yield ?w1" _ w] waits_yield [OF waits_one [of w]] by blast
  qed
qed simp

lemma transition_atomic:
  assumes "EMStransitionFEtag fuel t None oldFE newFE EMS_TAG_ANY_code w = Some (r, w')"
  obtains w0 where "waits w w0" "fe (tag (mem w0) t) = oldFE" "r = (tag (mem w0) t)\<lparr>fe := newFE\<rparr>"
    "w' = upd (set_tag t r) w0"
  using transition_loop_atomic [OF assms [unfolded EMStransitionFEtag_def]] that by auto

text \<open>Without interference a transition from the present state takes one attempt.\<close>

lemma transition_quiet:
  assumes "quiet w" "fe (tag (mem w) t) = oldFE" "0 < fuel"
  shows "EMStransitionFEtag fuel t mapTag oldFE newFE EMS_TAG_ANY_code w =
     Some ((tag (mem w) t)\<lparr>fe := newFE\<rparr>, upd (set_fe t newFE) (yield w))"
proof -
  from assms(3) obtain k where "fuel = Suc k" by (cases fuel) auto
  moreover have "(tag (mem w) t)\<lparr>fe := oldFE\<rparr> = tag (mem w) t" using assms(2) by simp
  ultimately show ?thesis
    using assms(1) by (simp add: EMStransitionFEtag_def transition_Suc Let_def upd_def set_fe_def)
qed

lemma transition_blocked:
  assumes "quiet w" "fe (tag (mem w) t) \<noteq> oldFE"
  shows "EMStransitionFEtag fuel t None oldFE newFE EMS_TAG_ANY_code w = None"
proof -
  have "transition_loop fuel t None oldFE newFE EMS_TAG_ANY_code (tag (mem w) t) w = None"
    if "quiet w" "fe (tag (mem w) t) \<noteq> oldFE" for w
    using that
  proof (induction fuel arbitrary: w)
    case (Suc fuel)
    have "tag (mem w) t \<noteq> (tag (mem w) t)\<lparr>fe := oldFE\<rparr>"
      using Suc.prems(2) fe_update_eq_iff by blast
    then show ?case
      using Suc.prems Suc.IH [of "yield (yield w)"] by (simp add: transition_Suc Let_def)
  qed simp
  then show ?thesis using assms by (simp add: EMStransitionFEtag_def)
qed

text \<open>
  \<open>run w k\<close>: the world after \<open>k\<close> of the points at which other processes act. An attempt takes
  two of them, one before its compare and swap and one for its nap.
\<close>

definition run :: "world \<Rightarrow> nat \<Rightarrow> world" where
  "run w k = (yield ^^ k) w"

lemma run_0 [simp]: "run w 0 = w" and run_Suc: "run w (Suc k) = run (yield w) k"
  and run_yield: "run w (Suc k) = yield (run w k)"
  by (simp_all add: run_def funpow_swap1)

definition attempt_ok :: "world \<Rightarrow> nat \<Rightarrow> fe_state \<Rightarrow> nat \<Rightarrow> bool" where
  "attempt_ok w t oldFE j \<longleftrightarrow> fe (tag (mem (run w (2 * j))) t) = oldFE \<and>
     tag (mem (run w (2 * j + 1))) t = tag (mem (run w (2 * j))) t"

lemma transition_returns:
  assumes "attempt_ok w t oldFE j" "j < fuel"
  shows "\<exists>r w'. EMStransitionFEtag fuel t None oldFE newFE EMS_TAG_ANY_code w = Some (r, w')"
  using assms
proof (induction fuel arbitrary: j w)
  case (Suc fuel)
  let ?w1 = "yield w"
  show ?case
  proof (cases "tag (mem ?w1) t = (tag (mem w) t)\<lparr>fe := oldFE\<rparr>")
    case True then show ?thesis by (simp add: EMStransitionFEtag_def transition_Suc Let_def)
  next
    case False
    have "j \<noteq> 0"
    proof
      assume "j = 0"
      then have "fe (tag (mem w) t) = oldFE" "tag (mem ?w1) t = tag (mem w) t"
        using Suc.prems(1) by (simp_all add: attempt_ok_def run_yield)
      then show False using False by simp
    qed
    then obtain i where i: "j = Suc i" by (cases j) auto
    then have "attempt_ok (yield ?w1) t oldFE i"
      using Suc.prems(1) by (simp add: attempt_ok_def run_Suc)
    from Suc.IH [OF this] i Suc.prems(2) False show ?thesis
      by (simp add: EMStransitionFEtag_def transition_Suc Let_def)
  qed
qed simp

section \<open>Transitions of an element with a map\<close>

text \<open>
  In a mapped array a transition that has to wait also touches the tag of the map entry: it sets
  the entry to full and takes it again after its nap. \<open>waits_on mt\<close> allows these steps beside
  those of the others.
\<close>

inductive waits_on :: "nat option \<Rightarrow> world \<Rightarrow> world \<Rightarrow> bool" for mt :: "nat option" where
  waits_on_refl [intro!, simp]: "waits_on mt w w"
| waits_on_yield [intro]: "waits_on mt w w' \<Longrightarrow> waits_on mt w (yield w')"
| waits_on_map [intro]: "waits_on mt w w' \<Longrightarrow> mt = Some a \<Longrightarrow> waits_on mt w (upd (set_fe a f) w')"

lemma waits_on_trans: "waits_on mt v w \<Longrightarrow> waits_on mt u v \<Longrightarrow> waits_on mt u w"
  by (induction rule: waits_on.induct) auto

lemma waits_waits_on: "waits u w \<Longrightarrow> waits_on mt u w"
  by (induction rule: waits.induct) auto

lemma waits_on_None: "waits_on None u w \<Longrightarrow> waits u w"
  by (induction rule: waits_on.induct) auto

lemma transition_loop_map:
  assumes "transition_loop fuel t mapTag oldFE newFE oldType memTag w = Some (r, w')"
  shows "(\<exists>w0. waits_on mapTag w w0 \<and> fe (tag (mem w0) t) = oldFE \<and> r = (tag (mem w0) t)\<lparr>fe := newFE\<rparr> \<and>
            w' = upd (set_fe t newFE) w0) \<or>
         (oldType \<noteq> EMS_TAG_ANY_code \<and> type_code (ty r) \<noteq> oldType \<and> waits_on mapTag w w')"
  using assms
proof (induction fuel arbitrary: memTag w)
  case (Suc fuel)
  let ?w1 = "yield w"
  let ?ok = "oldType = EMS_TAG_ANY_code \<or> type_code (ty memTag) = oldType"
  consider "\<not> ?ok" | "?ok" "tag (mem ?w1) t = memTag\<lparr>fe := oldFE\<rparr>"
    | "?ok" "tag (mem ?w1) t \<noteq> memTag\<lparr>fe := oldFE\<rparr>" by blast
  then show ?case
  proof cases
    case 1 then show ?thesis using Suc.prems by (auto simp: transition_Suc)
  next
    case 2
    have eq: "upd (set_tag t (memTag\<lparr>fe := newFE\<rparr>)) ?w1 = upd (set_fe t newFE) ?w1"
      using 2(2) by (simp add: upd_def set_fe_def)
    show ?thesis
      using Suc.prems 2 by (intro disjI1 exI [of _ ?w1]) (auto simp: transition_Suc Let_def eq)
  next
    case 3
    obtain w2 where w2: "waits_on mapTag w w2"
      "transition_loop fuel t mapTag oldFE newFE oldType (tag (mem w2) t) w2 = Some (r, w')"
    proof (cases mapTag)
      case None
      then show thesis using Suc.prems 3 by (intro that [of "yield ?w1"]) (auto simp: transition_Suc Let_def)
    next
      case (Some mt)
      let ?w2 = "yield (upd (set_fe mt EMS_TAG_FULL) ?w1)"
      obtain q w3 where w3: "transition_loop fuel mt None EMS_TAG_FULL EMS_TAG_BUSY EMS_TAG_ANY_code
            (tag (mem ?w2) mt) ?w2 = Some (q, w3)"
        "transition_loop fuel t mapTag oldFE newFE oldType (tag (mem w3) t) w3 = Some (r, w')"
        using Suc.prems 3 Some by (auto simp: transition_Suc Let_def split: option.splits)
      obtain w0 where w0: "waits ?w2 w0" "w3 = upd (set_fe mt EMS_TAG_BUSY) w0"
        using transition_loop_atomic [OF w3(1)] by (auto simp: upd_def set_fe_def)
      have "waits_on mapTag w ?w2" using Some by auto
      then have "waits_on mapTag w w3"
        using waits_on_trans [OF waits_waits_on [OF w0(1)]] Some w0(2) by auto
      then show thesis using w3(2) by (rule that)
    qed
    from Suc.IH [OF w2(2)] show ?thesis using waits_on_trans [OF _ w2(1)] by blast
  qed
qed simp

section \<open>Properties\<close>

text \<open>
  C4: whatever the other processes do, a full/empty transition that returns performed one atomic
  swap: there is a moment at which the tag was in the awaited state, the new tag differs from it
  only in that state, and nothing else of the element was touched; while waiting, it only gave up
  and retook the tag of the map entry. A call that names a type returns without the swap only when
  it saw another type.
\<close>

theorem EMStransitionFEtag_atomic:
  assumes "EMStransitionFEtag fuel t mapTag oldFE newFE oldType w = Some (r, w')"
  shows "(\<exists>w0. waits_on mapTag w w0 \<and> fe (tag (mem w0) t) = oldFE \<and> r = (tag (mem w0) t)\<lparr>fe := newFE\<rparr> \<and>
            w' = upd (set_fe t newFE) w0) \<or>
         (oldType \<noteq> EMS_TAG_ANY_code \<and> type_code (ty r) \<noteq> oldType \<and> waits_on mapTag w w')"
  using transition_loop_map [OF assms [unfolded EMStransitionFEtag_def]] .

text \<open>An element another process fills at its second step.\<close>

definition filler :: "nat \<Rightarrow> world" where
  "filler t =
     \<lparr>mem = \<lparr>word = (\<lambda>_. 0), tag = (\<lambda>_. \<lparr>fe = EMS_TAG_EMPTY, ty = EMS_TYPE_INTEGER, rw = 0\<rparr>),
             malloc = emsMem_new 0 (\<lambda>_. BUDDY_UNUSED), heap = (\<lambda>_. NUL)\<rparr>,
      env = (\<lambda>k m. if k = 1 then set_fe t EMS_TAG_FULL m else m), now = 0, libc_malloc = (\<lambda>_. True)\<rparr>"

lemma filler_transition:
  "\<exists>w'. EMStransitionFEtag 2 5 None EMS_TAG_FULL EMS_TAG_BUSY 4 (filler 5) =
     Some (\<lparr>fe = EMS_TAG_BUSY, ty = EMS_TYPE_INTEGER, rw = 0\<rparr>, w')"
  by (simp add: EMStransitionFEtag_def filler_def EMS_TAG_ANY_code_def Let_def yield_def numeral_2_eq_2)

theorem EMStransitionFEtag_atomic_witness:
  "\<exists>w0 w'. EMStransitionFEtag 2 5 None EMS_TAG_FULL EMS_TAG_BUSY 4 (filler 5) =
       Some (\<lparr>fe = EMS_TAG_BUSY, ty = EMS_TYPE_INTEGER, rw = 0\<rparr>, w') \<and>
     fe (tag (mem w0) 5) = EMS_TAG_FULL \<and> w' = upd (set_fe 5 EMS_TAG_BUSY) w0"
proof -
  obtain w' where w': "EMStransitionFEtag 2 5 None EMS_TAG_FULL EMS_TAG_BUSY 4 (filler 5) =
     Some (\<lparr>fe = EMS_TAG_BUSY, ty = EMS_TYPE_INTEGER, rw = 0\<rparr>, w')" using filler_transition by blast
  from EMStransitionFEtag_atomic [OF this] w' show ?thesis by (auto simp: EMS_TAG_ANY_code_def)
qed

text \<open>
  C21: a waiting transition returns: if at one of its attempts the tag is in the awaited state and
  no other process changes it between the load and the compare and swap, then that many attempts
  are enough.
\<close>

theorem EMStransitionFEtag_returns:
  assumes "attempt_ok w t oldFE j" "j < fuel"
  shows "\<exists>r w'. EMStransitionFEtag fuel t None oldFE newFE EMS_TAG_ANY_code w = Some (r, w')"
  using transition_returns [OF assms] .

theorem EMStransitionFEtag_returns_witness:
  "\<exists>r w'. EMStransitionFEtag 2 5 None EMS_TAG_FULL EMS_TAG_BUSY EMS_TAG_ANY_code (filler 5) = Some (r, w')"
  by (rule EMStransitionFEtag_returns [of _ _ _ 1])
    (simp_all add: attempt_ok_def run_Suc numeral_2_eq_2 numeral_3_eq_3 filler_def yield_def)

end
