(* ===== verification/EmsOwned.thy ===== *)
theory EmsOwned
  imports EmsState
begin

text \<open>
  Which words own which heap strings. \<open>owned m T\<close>: the allocator is well formed and
  unlocked, and the words at the application indexes \<open>T\<close> point to strings in distinct
  allocated blocks. Storing a string adds its word, releasing one removes it, and both leave
  every other owned string as it was. The proofs rest on the interpretation \<open>buddy\<close>.
\<close>

section \<open>Ownership\<close>

definition string_at :: "ems \<Rightarrow> int \<Rightarrow> string \<Rightarrow> bool" where
  "string_at m off s \<longleftrightarrow> 0 \<le> off \<and> str_block (live_blocks (malloc m)) (heap m) (nat off) s"

definition owned :: "ems \<Rightarrow> nat set \<Rightarrow> bool" where
  "owned m T \<longleftrightarrow> mem_inv (malloc m) \<and> m_level (malloc m) < 59 \<and> unlocked m \<and>
     inj_on (word m) T \<and> (\<forall>a \<in> T. \<exists>s. string_at m (word m a) s)"

lemma string_at_heapStr:
  assumes "mem_inv (malloc m)" "string_at m off s"
  shows "heapStr m off = Some s"
proof -
  have st: "heap_string (heap m) (heap_bytes_of (malloc m)) (nat off) = s"
    using assms by (intro buddy.read_block) (simp_all add: string_at_def)
  from assms(2) obtain n where n: "(nat off, n) \<in> live_blocks (malloc m)" "length s < n" "0 \<le> off"
    by (auto simp: string_at_def str_block_def)
  then have "nat off + length s < heap_bytes_of (malloc m)"
    using buddy.live_bounds [OF assms(1), of "nat off" n] by simp
  with st n(3) show ?thesis by (simp add: heapStr_def Let_def)
qed

lemma owned_heapStr:
  assumes "owned m T" "a \<in> T"
  obtains s where "string_at m (word m a) s" "heapStr m (word m a) = Some s"
  using assms string_at_heapStr [of m "word m a"] by (auto simp: owned_def)

lemma owned_subset: "owned m T \<Longrightarrow> U \<subseteq> T \<Longrightarrow> owned m U"
  by (auto simp: owned_def intro: inj_on_subset)

lemma owned_unlocked: "owned m T \<Longrightarrow> unlocked m"
  by (simp add: owned_def)

lemma owned_set_tag [simp]: "owned (set_tag a t m) T = owned m T"
  by (simp add: owned_def string_at_def unlocked_def)

lemma owned_set_fe [simp]: "owned (set_fe a f m) T = owned m T"
  by (simp add: set_fe_def)

lemma owned_set_word:
  assumes "a \<notin> T" "a \<noteq> EMS_ARR_MEM_MUTEX"
  shows "owned (set_word a x m) T = owned m T"
proof -
  have "inj_on ((word m)(a := x)) T = inj_on (word m) T"
    using assms(1) by (intro inj_on_cong) auto
  moreover have "(\<forall>b \<in> T. \<exists>s. string_at (set_word a x m) (((word m)(a := x)) b) s) =
      (\<forall>b \<in> T. \<exists>s. string_at m (word m b) s)"
    using assms(1) by (intro ball_cong) (auto simp: string_at_def)
  ultimately show ?thesis
    using assms(2) by (simp add: owned_def unlocked_def)
qed

lemma heapStr_cong:
  "malloc m = malloc n \<Longrightarrow> heap m = heap n \<Longrightarrow> heapStr m off = heapStr n off"
  by (simp add: heapStr_def)

lemma heapStr_sel [simp]:
  "heapStr (set_word a x m) off = heapStr m off" "heapStr (set_tag a t m) off = heapStr m off"
  "heapStr (set_fe a f m) off = heapStr m off"
  by (auto intro: heapStr_cong)

lemma cstring_sel [simp]:
  "cstring (set_word a x m) p = cstring m p" "cstring (set_tag a t m) p = cstring m p"
  "cstring (set_fe a f m) p = cstring m p"
  by (cases p; simp)+

lemma cstring_no_NUL: "cstring m p = Some s \<Longrightarrow> NUL \<notin> set s"
proof (cases p)
  case (PHeap off)
  moreover assume "cstring m p = Some s"
  ultimately have "s = heap_string (heap m) (heap_bytes_of (malloc m)) (nat off)"
    by (auto simp: heapStr_def Let_def split: if_splits)
  then show ?thesis by (auto simp: heap_string_def dest: set_takeWhileD)
qed auto

lemma owned_offset_range:
  assumes "owned m T" "a \<in> T"
  shows "word m a < 2 ^ 63"
proof -
  from assms obtain s n where n: "(nat (word m a), n) \<in> live_blocks (malloc m)" "0 \<le> word m a"
    by (auto simp: owned_def string_at_def str_block_def)
  then have "nat (word m a) + n \<le> heap_bytes_of (malloc m) \<and> 0 < n"
    using assms(1) buddy.live_bounds [of "malloc m"] by (auto simp: owned_def)
  moreover have "heap_bytes_of (malloc m) \<le> 2 ^ 63"
  proof -
    have "(2::nat) ^ m_level (malloc m) \<le> 2 ^ 58"
      using assms(1) by (intro power_increasing) (auto simp: owned_def)
    then show ?thesis by (simp add: heap_bytes_of_def EMS_MEM_BLOCKSZ_def)
  qed
  ultimately have "nat (word m a) < 2 ^ 63" by linarith
  then show ?thesis using n(2) by simp
qed

section \<open>Releasing a string\<close>

lemma free_text_keeps:
  assumes own: "owned (mem w) T" and a: "a \<in> T" and fuel: "0 < fuel"
  obtains malloc' where
    "emsMutexMem_free fuel (word (mem w) a) w = Some (upd (malloc_update (\<lambda>_. malloc')) w)"
    "owned (mem (upd (malloc_update (\<lambda>_. malloc')) w)) (T - {a})"
    "\<And>b. b \<in> T - {a} \<Longrightarrow>
       heapStr (malloc_update (\<lambda>_. malloc') (mem w)) (word (mem w) b) = heapStr (mem w) (word (mem w) b)"
    "\<And>x t. string_at (mem w) x t \<Longrightarrow> x \<noteq> word (mem w) a \<Longrightarrow> string_at (malloc_update (\<lambda>_. malloc') (mem w)) x t"
proof -
  let ?m = "mem w" let ?off = "word ?m a"
  from own a obtain s where s: "0 \<le> ?off" "str_block (live_blocks (malloc ?m)) (heap ?m) (nat ?off) s"
    by (auto simp: owned_def string_at_def)
  have inv: "mem_inv (malloc ?m)" using own by (simp add: owned_def)
  have mod: "nat (?off mod 2 ^ 64) = nat ?off"
    using s(1) owned_offset_range [OF own a] by simp
  from buddy.release_string [OF inv s(2)] obtain malloc' where
    f: "emsMem_free (malloc ?m) (nat ?off) = Some (Inr malloc')" and inv': "mem_inv malloc'"
    and cap: "heap_bytes_of malloc' = heap_bytes_of (malloc ?m)"
    and keep: "\<And>q t. str_block (live_blocks (malloc ?m)) (heap ?m) q t \<Longrightarrow> q \<noteq> nat ?off \<Longrightarrow>
                 str_block (live_blocks malloc') (heap ?m) q t"
    by blast
  have level: "m_level malloc' = m_level (malloc ?m)"
    using cap by (simp add: heap_bytes_of_def EMS_MEM_BLOCKSZ_def)
  let ?m' = "malloc_update (\<lambda>_. malloc') ?m"
  have at': "string_at ?m' x t" if "string_at ?m x t" "x \<noteq> ?off" for x t
  proof -
    have "nat x \<noteq> nat ?off" using that s(1) by (simp add: string_at_def nat_eq_iff)
    then show ?thesis using that(1) keep by (simp add: string_at_def)
  qed
  have at: "string_at ?m' (word ?m b) t" if "b \<in> T - {a}" "string_at ?m (word ?m b) t" for b t
    using at' [OF that(2)] own a that(1) by (auto simp: owned_def dest: inj_onD)
  have own': "owned ?m' (T - {a})"
    unfolding owned_def
  proof (intro conjI ballI)
    show "\<exists>t. string_at ?m' (word ?m' b) t" if b: "b \<in> T - {a}" for b
    proof -
      from own b obtain t where "string_at ?m (word ?m b) t" by (auto simp: owned_def)
      from at [OF b this] show ?thesis by auto
    qed
  qed (use own inv' level in \<open>auto simp: owned_def unlocked_def intro: inj_on_subset\<close>)
  show thesis
  proof (rule that)
    show "emsMutexMem_free fuel ?off w = Some (upd (malloc_update (\<lambda>_. malloc')) w)"
      using own fuel f mod by (intro emsMutexMem_free_unlocked) (auto simp: owned_def)
    show "owned (mem (upd (malloc_update (\<lambda>_. malloc')) w)) (T - {a})" using own' by simp
    show "string_at ?m' x t" if "string_at ?m x t" "x \<noteq> ?off" for x t by (rule at' [OF that])
    fix b assume b: "b \<in> T - {a}"
    with own obtain t where "string_at ?m (word ?m b) t" by (auto simp: owned_def)
    with at [OF b this] inv inv' show "heapStr ?m' (word ?m b) = heapStr ?m (word ?m b)"
      using string_at_heapStr [of ?m "word ?m b" t] string_at_heapStr [of ?m' "word ?m b" t] by simp
  qed
qed

lemma free_text_quiet:
  assumes own: "owned (mem w) T" and a: "a \<in> T" and fuel: "0 < fuel"
  obtains malloc' where
    "emsMutexMem_free fuel (word (mem w) a) w = Some (upd (malloc_update (\<lambda>_. malloc')) w)"
    "owned (mem (upd (malloc_update (\<lambda>_. malloc')) w)) (T - {a})"
    "\<And>b. b \<in> T - {a} \<Longrightarrow>
       heapStr (malloc_update (\<lambda>_. malloc') (mem w)) (word (mem w) b) = heapStr (mem w) (word (mem w) b)"
  by (rule free_text_keeps [OF own a fuel]) (rule that)

section \<open>Storing a string\<close>

lemma cstring_malloc:
  "heap_bytes_of malloc' = heap_bytes_of (malloc m) \<Longrightarrow>
    cstring (malloc_update (\<lambda>_. malloc') m) p = cstring m p"
  by (cases p) (simp_all add: heapStr_def)

text \<open>
  A new block for a text of fewer than \<open>n\<close> bytes: whatever text is copied into it, the strings
  owned before are kept and nobody owns the new one yet.
\<close>

definition with_text :: "ems \<Rightarrow> emsMem \<Rightarrow> int \<Rightarrow> string \<Rightarrow> ems" where
  "with_text m malloc' off s = m\<lparr>malloc := malloc', heap := strcpy (heap m) (nat off) s\<rparr>"

lemma with_text_sel [simp]:
  "word (with_text m malloc' off s) = word m" "tag (with_text m malloc' off s) = tag m"
  "malloc (with_text m malloc' off s) = malloc'" "heap (with_text m malloc' off s) = strcpy (heap m) (nat off) s"
  by (simp_all add: with_text_def)

lemma alloc_string_quiet:
  assumes own: "owned (mem w) T" and fuel: "0 < fuel" and n: "request_ok n"
  obtains "emsMutexMem_alloc fuel n w = Some (- 1, w)" "emsMem_alloc (malloc (mem w)) n = Some (- 1, malloc (mem w))"
  | off malloc' where "emsMutexMem_alloc fuel n w = Some (off, upd (malloc_update (\<lambda>_. malloc')) w)" "0 \<le> off"
      "heap_bytes_of malloc' = heap_bytes_of (malloc (mem w))"
      "\<And>s. NUL \<notin> set s \<Longrightarrow> length s < n \<Longrightarrow> owned (with_text (mem w) malloc' off s) T"
      "\<And>s. NUL \<notin> set s \<Longrightarrow> length s < n \<Longrightarrow> string_at (with_text (mem w) malloc' off s) off s"
      "\<And>s b. NUL \<notin> set s \<Longrightarrow> length s < n \<Longrightarrow> b \<in> T \<Longrightarrow> word (mem w) b \<noteq> off \<and>
         heapStr (with_text (mem w) malloc' off s) (word (mem w) b) = heapStr (mem w) (word (mem w) b)"
proof -
  let ?m = "mem w"
  have inv: "mem_inv (malloc ?m)" using own by (simp add: owned_def)
  from buddy.alloc_returns [OF inv n] obtain off malloc' where
    al: "emsMem_alloc (malloc ?m) n = Some (off, malloc')" by blast
  have mx: "emsMutexMem_alloc fuel n w = Some (off, upd (malloc_update (\<lambda>_. malloc')) w)"
    using own fuel al by (simp add: emsMutexMem_alloc_unlocked owned_def)
  show thesis
  proof (cases "off < 0")
    case True
    with buddy.alloc_fails [OF inv n al] have fails: "malloc' = malloc ?m" "off = - 1" by simp_all
    then have "upd (malloc_update (\<lambda>_. malloc')) w = w" by (simp add: upd_def)
    with mx al fails show thesis by (intro that(1)) simp_all
  next
    case False
    then have off: "0 \<le> off" by simp
    from buddy.alloc_block [OF inv n al off] have inv': "mem_inv malloc'"
      and cap: "heap_bytes_of malloc' = heap_bytes_of (malloc ?m)" by auto
    have level: "m_level malloc' = m_level (malloc ?m)"
      using cap by (simp add: heap_bytes_of_def EMS_MEM_BLOCKSZ_def)
    have at: "string_at (with_text ?m malloc' off s) off s"
      and keep: "string_at ?m x t \<Longrightarrow> string_at (with_text ?m malloc' off s) x t \<and> x \<noteq> off"
      if "NUL \<notin> set s" "length s < n" for s t x
    proof -
      have cs: "c_str s = s" using that(1) by (rule c_str_id)
      note new = buddy.store_new [OF inv n al off, of s "heap ?m", unfolded cs, OF that(2)]
      show "string_at (with_text ?m malloc' off s) off s" using new(1) off by (simp add: string_at_def)
      show "string_at (with_text ?m malloc' off s) x t \<and> x \<noteq> off" if "string_at ?m x t"
        using new(2) [of "nat x" t] that by (auto simp: string_at_def)
    qed
    show thesis
    proof (rule that(2) [OF mx off cap])
      fix s assume s: "NUL \<notin> set s" "length s < n"
      let ?m' = "with_text ?m malloc' off s"
      show "string_at ?m' off s" by (rule at [OF s])
      have "\<exists>t. string_at ?m' (word ?m b) t" if "b \<in> T" for b
      proof -
        from own that obtain t where "string_at ?m (word ?m b) t" by (auto simp: owned_def)
        from keep [OF s this] show ?thesis by blast
      qed
      then show "owned ?m' T" using own inv' level by (simp add: owned_def unlocked_def)
      show "word ?m b \<noteq> off \<and> heapStr ?m' (word ?m b) = heapStr ?m (word ?m b)" if "b \<in> T" for b
      proof -
        from own that obtain t where t: "string_at ?m (word ?m b) t" by (auto simp: owned_def)
        with keep [OF s t] inv inv' show ?thesis
          using string_at_heapStr [of ?m "word ?m b" t] string_at_heapStr [of ?m' "word ?m b" t] by simp
      qed
    qed
  qed
qed

text \<open>A word that is pointed to the new string owns it.\<close>

lemma owned_insert:
  assumes "owned m T" "string_at m off s" "\<And>b. b \<in> T \<Longrightarrow> word m b \<noteq> off" "a \<notin> T" "a \<noteq> EMS_ARR_MEM_MUTEX"
  shows "owned (set_word a off m) (insert a T)"
proof -
  have "\<exists>t. string_at (set_word a off m) (((word m)(a := off)) b) t" if "b \<in> insert a T" for b
    using that assms(1,2,4) by (cases "b = a") (auto simp: owned_def string_at_def)
  moreover have "inj_on ((word m)(a := off)) (insert a T)"
    using assms(1,3,4) by (auto simp: owned_def inj_on_def)
  ultimately show ?thesis using assms(1,5) by (simp add: owned_def unlocked_def)
qed

lemma store_text_quiet:
  assumes own: "owned (mem w) T" and a: "a \<notin> T" "a \<noteq> EMS_ARR_MEM_MUTEX" and fuel: "0 < fuel"
    and n: "request_ok n" and s: "cstring (mem w) p = Some s" "length s < n"
  obtains "store_text fuel a n p w = Some (False, w)"
      "emsMem_alloc (malloc (mem w)) n = Some (- 1, malloc (mem w))"
  | m' where "store_text fuel a n p w = Some (True, upd (\<lambda>_. m') w)"
      "owned m' (insert a T)" "heapStr m' (word m' a) = Some s" "tag m' = tag (mem w)"
      "word m' = (word (mem w))(a := word m' a)"
      "\<And>b. b \<in> T \<Longrightarrow> heapStr m' (word (mem w) b) = heapStr (mem w) (word (mem w) b)"
proof -
  let ?m = "mem w"
  have nul: "NUL \<notin> set s" using s(1) by (rule cstring_no_NUL)
  from own fuel n show thesis
  proof (cases rule: alloc_string_quiet)
    case 1
    then show thesis by (intro that(1)) (simp_all add: store_text_def)
  next
    case (2 off malloc')
    let ?x = "with_text ?m malloc' off s"
    have own': "owned (set_word a off ?x) (insert a T)"
      using 2(4,5,6) nul s(2) a by (intro owned_insert) auto
    have at: "string_at ?x off s" using 2(5) nul s(2) by blast
    show thesis
    proof (rule that(2))
      have "cstring (set_word a off (malloc_update (\<lambda>_. malloc') ?m)) p = Some s"
        using s(1) cstring_malloc [OF 2(3)] by simp
      then show "store_text fuel a n p w = Some (True, upd (\<lambda>_. set_word a off ?x) w)"
        using 2(1,2) by (simp add: store_text_def upd_def set_word_def with_text_def)
      show "owned (set_word a off ?x) (insert a T)" by (rule own')
      show "heapStr (set_word a off ?x) (word (set_word a off ?x) a) = Some s"
        using own' at string_at_heapStr [of "set_word a off ?x" off s] by (simp add: owned_def string_at_def)
      show "heapStr (set_word a off ?x) (word ?m b) = heapStr ?m (word ?m b)" if "b \<in> T" for b
        using 2(6) [OF nul s(2) that] heapStr_cong [of "set_word a off ?x" ?x] by simp
    qed simp_all
  qed
qed

end
