(* ===== verification/EmsData.thy ===== *)
theory EmsData
  imports EmsOwned
begin

text \<open>
  The data an element holds, seen without its representation, and the step that stores a value
  in an element, which \<open>EMSpush\<close> and \<open>EMSenqueue\<close> (\<open>src/primitives.cc\<close>) have in
  common.
\<close>

section \<open>Data\<close>

datatype datum = DBool int | DInt int | DFloat int | DStr string | DJson string | DUndef

definition is_text :: "ems_type \<Rightarrow> bool" where
  "is_text t \<longleftrightarrow> t = EMS_TYPE_STRING \<or> t = EMS_TYPE_JSON"

text \<open>The datum that a word stands for under a type.\<close>

fun datum_at :: "ems \<Rightarrow> ems_type \<Rightarrow> int \<Rightarrow> datum option" where
  "datum_at m EMS_TYPE_BOOLEAN x = Some (DBool x)"
| "datum_at m EMS_TYPE_INTEGER x = Some (DInt x)"
| "datum_at m EMS_TYPE_FLOAT x = Some (DFloat x)"
| "datum_at m EMS_TYPE_STRING x = map_option DStr (heapStr m x)"
| "datum_at m EMS_TYPE_JSON x = map_option DJson (heapStr m x)"
| "datum_at m EMS_TYPE_UNDEFINED x = Some DUndef"
| "datum_at m EMS_TYPE_INVALID x = None"
| "datum_at m EMS_TYPE_UNUSED7 x = None"

definition slot_datum :: "ems \<Rightarrow> nat \<Rightarrow> datum option" where
  "slot_datum m a = datum_at m (ty (tag m a)) (word m a)"

text \<open>The datum that a value passed in or out stands for.\<close>

definition value_datum :: "ems \<Rightarrow> EMSvalueType \<Rightarrow> datum option" where
  "value_datum m v = (case vtype v of
       EMS_TYPE_BOOLEAN \<Rightarrow> map_option DBool (as_int64 (val v))
     | EMS_TYPE_INTEGER \<Rightarrow> map_option DInt (as_int64 (val v))
     | EMS_TYPE_FLOAT \<Rightarrow> map_option DFloat (as_int64 (val v))
     | EMS_TYPE_STRING \<Rightarrow> map_option DStr (cstring m (val v))
     | EMS_TYPE_JSON \<Rightarrow> map_option DJson (cstring m (val v))
     | EMS_TYPE_UNDEFINED \<Rightarrow> Some DUndef
     | _ \<Rightarrow> None)"

text \<open>A text is short enough when the request for its bytes does not wrap at 64 bits.\<close>

fun datum_bytes :: "datum \<Rightarrow> nat" where
  "datum_bytes (DStr s) = length s + 1"
| "datum_bytes (DJson s) = length s + 1"
| "datum_bytes _ = 1"

lemma datum_at_cong:
  "(is_text t \<Longrightarrow> heapStr m x = heapStr n x) \<Longrightarrow> datum_at m t x = datum_at n t x"
  by (cases t) (simp_all add: is_text_def)

lemma datum_at_sel [simp]:
  "datum_at (set_word a y m) t x = datum_at m t x" "datum_at (set_tag a u m) t x = datum_at m t x"
  "datum_at (set_fe a f m) t x = datum_at m t x"
  by (auto intro: datum_at_cong)

lemma value_datum_sel [simp]:
  "value_datum (set_word a y m) v = value_datum m v" "value_datum (set_tag a u m) v = value_datum m v"
  "value_datum (set_fe a f m) v = value_datum m v"
  by (simp_all add: value_datum_def cong: ems_type.case_cong)

lemma nelem_set [simp]:
  "nelem (set_tag a t m) = nelem m" "nelem (set_fe a f m) = nelem m"
  "a \<noteq> EMS_ARR_NELEM \<Longrightarrow> nelem (set_word a x m) = nelem m"
  by (simp_all add: nelem_def)

section \<open>Storing a value\<close>

text \<open>
  The \<open>switch\<close> on the type of the value. The result is \<open>False\<close> where the code returns
  \<open>-1\<close>: out of memory, or an unknown type.
\<close>

definition write_value :: "nat \<Rightarrow> nat \<Rightarrow> EMSvalueType \<Rightarrow> world \<Rightarrow> (bool \<times> world) option" where
  "write_value fuel a v w =
     (if vtype v \<in> {EMS_TYPE_BOOLEAN, EMS_TYPE_INTEGER, EMS_TYPE_FLOAT} then do {
        i \<leftarrow> as_int64 (val v);
        Some (True, upd (set_word a i) w)
      } else if vtype v \<in> {EMS_TYPE_JSON, EMS_TYPE_STRING} then do {
        s \<leftarrow> cstring (mem w) (val v);
        store_text fuel a (length s + 1) (val v) w
      } else if vtype v = EMS_TYPE_UNDEFINED then
        Some (True, upd (set_word a 0xdeadbeef) w)
      else Some (False, w))"

text \<open>The owners of strings among the elements \<open>A\<close>.\<close>

definition texts :: "ems \<Rightarrow> nat set \<Rightarrow> nat set" where
  "texts m A = {a \<in> A. is_text (ty (tag m a))}"

text \<open>The store succeeds, or the value is a text and the allocator has no block for it.\<close>

lemma write_value_quiet:
  assumes own: "owned (mem w) T" and a: "a \<notin> T" "a \<noteq> EMS_ARR_MEM_MUTEX" and fuel: "0 < fuel"
    and d: "value_datum (mem w) v = Some d" and n: "request_ok (datum_bytes d)"
  obtains "write_value fuel a v w = Some (False, w)" "is_text (vtype v)"
      "emsMem_alloc (malloc (mem w)) (datum_bytes d) = Some (- 1, malloc (mem w))"
  | m' where "write_value fuel a v w = Some (True, upd (\<lambda>_. m') w)"
      "owned m' (if is_text (vtype v) then insert a T else T)"
      "datum_at m' (vtype v) (word m' a) = Some d" "tag m' = tag (mem w)"
      "word m' = (word (mem w))(a := word m' a)"
      "\<And>b. b \<in> T \<Longrightarrow> heapStr m' (word (mem w) b) = heapStr (mem w) (word (mem w) b)"
proof (cases "is_text (vtype v)")
  case True
  then obtain s where s: "cstring (mem w) (val v) = Some s" "datum_bytes d = length s + 1"
    "\<And>m x. heapStr m x = Some s \<Longrightarrow> datum_at m (vtype v) x = Some d"
    using d by (auto simp: is_text_def value_datum_def)
  have wv: "write_value fuel a v w = store_text fuel a (length s + 1) (val v) w"
    using True s(1) by (auto simp: write_value_def is_text_def)
  have rq: "request_ok (length s + 1)" using n s(2) by simp
  have lt: "length s < length s + 1" by simp
  from own a fuel rq s(1) lt show thesis
  proof (cases rule: store_text_quiet)
    case 1
    with wv True s(2) show thesis by (intro that(1)) simp_all
  next
    case (2 m')
    with wv True s(3) show thesis by (intro that(2) [of m']) simp_all
  qed
next
  case False
  with d have sc: "vtype v \<in> {EMS_TYPE_BOOLEAN, EMS_TYPE_INTEGER, EMS_TYPE_FLOAT} \<and>
      (\<exists>i. as_int64 (val v) = Some i) \<or> vtype v = EMS_TYPE_UNDEFINED"
    by (auto simp: value_datum_def is_text_def split: ems_type.splits)
  define x where "x = (if vtype v = EMS_TYPE_UNDEFINED then 0xdeadbeef else the (as_int64 (val v)))"
  have "write_value fuel a v w = Some (True, upd (\<lambda>_. set_word a x (mem w)) w)"
    using sc by (auto simp: write_value_def x_def upd_def)
  moreover have "datum_at m (vtype v) x = Some d" for m
    using sc d by (auto simp: value_datum_def x_def)
  ultimately show thesis
    using False own a by (intro that(2) [of "set_word a x (mem w)"]) (simp_all add: owned_set_word)
qed

section \<open>A sequence of elements\<close>

text \<open>
  \<open>slots_rep m f ds\<close>: the elements at the distinct indexes \<open>f 0, f 1, ...\<close> are full and
  hold the data \<open>ds\<close>. The stack and the queue are such sequences.
\<close>

definition slots :: "(nat \<Rightarrow> nat) \<Rightarrow> nat \<Rightarrow> nat set" where
  "slots f n = f ` {..<n}"

definition slots_rep :: "ems \<Rightarrow> (nat \<Rightarrow> nat) \<Rightarrow> datum list \<Rightarrow> bool" where
  "slots_rep m f ds \<longleftrightarrow> inj_on f {..<length ds} \<and>
     (\<forall>i < length ds. fe (tag m (f i)) = EMS_TAG_FULL \<and> slot_datum m (f i) = Some (ds ! i))"

lemma texts_empty [simp]: "texts m {} = {}"
  by (simp add: texts_def)

lemma texts_insert: "texts m (insert a A) = (if is_text (ty (tag m a)) then insert a (texts m A) else texts m A)"
  by (auto simp: texts_def)

lemma texts_mono: "A \<subseteq> B \<Longrightarrow> texts m A \<subseteq> texts m B"
  by (auto simp: texts_def)

lemma texts_cong: "(\<And>a. a \<in> A \<Longrightarrow> ty (tag m' a) = ty (tag m a)) \<Longrightarrow> texts m' A = texts m A"
  by (auto simp: texts_def)

lemma texts_sub: "a \<in> texts m A \<Longrightarrow> a \<in> A"
  by (simp add: texts_def)

lemma slots_0 [simp]: "slots f 0 = {}"
  by (simp add: slots_def)

lemma slots_Suc: "slots f (Suc n) = insert (f n) (slots f n)"
  by (simp add: slots_def lessThan_Suc)

lemma slots_Suc_0: "slots f (Suc n) = insert (f 0) (slots (f \<circ> Suc) n)"
  unfolding slots_def lessThan_Suc_eq_insert_0 by (simp add: image_comp)

lemma slots_iff: "a \<in> slots f n \<longleftrightarrow> (\<exists>i < n. a = f i)"
  by (auto simp: slots_def)

lemma slots_frame:
  assumes "slots_rep m f ds"
    and "\<And>a. a \<in> slots f (length ds) \<Longrightarrow> tag m' a = tag m a \<and> word m' a = word m a"
    and str: "\<And>b. b \<in> texts m (slots f (length ds)) \<Longrightarrow> heapStr m' (word m b) = heapStr m (word m b)"
  shows "slots_rep m' f ds"
proof -
  have "slot_datum m' a = slot_datum m a" if a: "a \<in> slots f (length ds)" for a
    unfolding slot_datum_def using assms(2) [OF a]
    by (auto intro!: datum_at_cong str simp: texts_def a)
  moreover have "f i \<in> slots f (length ds)" if "i < length ds" for i
    using that by (auto simp: slots_iff)
  ultimately show ?thesis
    using assms(1,2) by (simp add: slots_rep_def)
qed

lemma slots_snoc:
  "slots_rep m f (ds @ [d]) \<longleftrightarrow> slots_rep m f ds \<and> f (length ds) \<notin> slots f (length ds) \<and>
     fe (tag m (f (length ds))) = EMS_TAG_FULL \<and> slot_datum m (f (length ds)) = Some d"
  by (auto simp: slots_rep_def slots_def lessThan_Suc nth_append less_Suc_eq)

lemma slots_cons:
  "slots_rep m f (d # ds) \<longleftrightarrow> slots_rep m (f \<circ> Suc) ds \<and> f 0 \<notin> slots (f \<circ> Suc) (length ds) \<and>
     fe (tag m (f 0)) = EMS_TAG_FULL \<and> slot_datum m (f 0) = Some d"
proof -
  have "inj_on f {..<Suc n} \<longleftrightarrow> inj_on (f \<circ> Suc) {..<n} \<and> f 0 \<notin> slots (f \<circ> Suc) n" for n
    unfolding lessThan_Suc_eq_insert_0 slots_def
    by (simp add: inj_on_insert comp_inj_on_iff [of Suc, symmetric] image_comp)
  then show ?thesis
    unfolding slots_rep_def by (simp add: All_less_Suc2) auto
qed

section \<open>A blank buffer\<close>

text \<open>
  An unmapped buffer of \<open>n\<close> empty integer elements, as \<open>EMSinitialize\<close> leaves it, and a
  world without other processes. The witnesses use it.
\<close>

definition blank_ems :: "int \<Rightarrow> nat \<Rightarrow> ems" where
  "blank_ems n level =
     \<lparr>word = (\<lambda>_. 0)(EMS_ARR_NELEM := n, EMS_ARR_MEM_MUTEX := 1),
      tag = (\<lambda>_. \<lparr>fe = EMS_TAG_EMPTY, ty = EMS_TYPE_INTEGER, rw = 0\<rparr>)
              (EMS_ARR_STACKTOP := \<lparr>fe = EMS_TAG_FULL, ty = EMS_TYPE_INTEGER, rw = 0\<rparr>,
               EMS_ARR_Q_BOTTOM := \<lparr>fe = EMS_TAG_FULL, ty = EMS_TYPE_INTEGER, rw = 0\<rparr>),
      malloc = emsMem_new level (\<lambda>_. BUDDY_UNUSED),
      heap = (\<lambda>_. NUL)\<rparr>"

definition alone :: "ems \<Rightarrow> world" where
  "alone m = \<lparr>mem = m, env = (\<lambda>_ m. m), now = 0, libc_malloc = (\<lambda>_. True)\<rparr>"

lemma alone_sel [simp]: "mem (alone m) = m" "quiet (alone m)" "libc_malloc (alone m) = (\<lambda>_. True)"
  by (simp_all add: alone_def quiet_def)

lemma blank_owned: "level < 59 \<Longrightarrow> owned (blank_ems n level) {}"
  using emsMem_new_facts [of level "\<lambda>_. BUDDY_UNUSED"]
  by (simp add: owned_def blank_ems_def unlocked_def low_byte_def)

lemma blank_sel [simp]:
  "nelem (blank_ems n level) = n" "word (blank_ems n level) EMS_ARR_STACKTOP = 0"
  "word (blank_ems n level) EMS_ARR_Q_BOTTOM = 0"
  "fe (tag (blank_ems n level) EMS_ARR_STACKTOP) = EMS_TAG_FULL"
  "fe (tag (blank_ems n level) EMS_ARR_Q_BOTTOM) = EMS_TAG_FULL"
  "0 \<le> i \<Longrightarrow> fe (tag (blank_ems n level) (dataIdx i)) = EMS_TAG_EMPTY"
  "0 \<le> i \<Longrightarrow> word (blank_ems n level) (dataIdx i) = 0"
  "malloc (blank_ems n level) = emsMem_new level (\<lambda>_. BUDDY_UNUSED)"
  by (simp_all add: blank_ems_def nelem_def)

definition int_value :: "int \<Rightarrow> EMSvalueType" where
  "int_value i = \<lparr>len = 0, val = PInt i, vtype = EMS_TYPE_INTEGER\<rparr>"

definition str_value :: "string \<Rightarrow> EMSvalueType" where
  "str_value s = \<lparr>len = length s, val = PStr s, vtype = EMS_TYPE_STRING\<rparr>"

end
