(* ===== verification/EmsMap.thy ===== *)
theory EmsMap
  imports EmsData
begin

text \<open>
  Keys: how any key becomes an index, and the map from keys to indexes that a mapped array keeps
  beside its data by open addressing (\<open>EMShashString\<close>, \<open>EMSkey2index\<close>,
  \<open>EMSwriteIndexMap\<close>, \<open>EMSindex2key\<close> of \<open>src/ems.cc\<close>).
\<close>

unbundle bit_operations_syntax

section \<open>Hashing\<close>

text \<open>A \<open>char\<close> is signed and is extended to 64 bits.\<close>

definition char_u64 :: "char \<Rightarrow> 64 word" where
  "char_u64 c = word_of_int (sint (of_char c :: 8 word))"

fun hash_loop :: "64 word \<Rightarrow> string \<Rightarrow> 64 word" where
  "hash_loop hash [] = hash"
| "hash_loop hash (c # cs) =
     hash_loop (char_u64 c + push_bit 6 hash + push_bit 16 hash - hash) cs"

definition llabs :: "int \<Rightarrow> int" where
  "llabs x = wrap64 (abs x)"

definition EMShashString :: "string \<Rightarrow> int" where
  "EMShashString key = llabs (sint (hash_loop 0 (c_str key) * 1191613))"

section \<open>Comparing doubles by their bits\<close>

definition dbl_is_nan :: "int \<Rightarrow> bool" where
  "dbl_is_nan b \<longleftrightarrow> b mod 2 ^ 63 > 0x7FF0000000000000"

definition dbl_is_zero :: "int \<Rightarrow> bool" where
  "dbl_is_zero b \<longleftrightarrow> b mod 2 ^ 63 = 0"

definition dbl_eq :: "int \<Rightarrow> int \<Rightarrow> bool" where
  "dbl_eq a b \<longleftrightarrow> \<not> dbl_is_nan a \<and> \<not> dbl_is_nan b \<and>
     (a mod 2 ^ 64 = b mod 2 ^ 64 \<or> dbl_is_zero a \<and> dbl_is_zero b)"

section \<open>From a key to an index\<close>

definition MAX_OPEN_HASH_STEPS :: nat where
  "MAX_OPEN_HASH_STEPS = 200"

text \<open>The first index of a key; the outer option is the type for which the code returns \<open>-1\<close>.\<close>

definition key_home :: "ems \<Rightarrow> EMSvalueType \<Rightarrow> int option option" where
  "key_home m key =
     (if vtype key = EMS_TYPE_BOOLEAN then
        Some (map_option (\<lambda>i. if i \<noteq> 0 then 1 else 0) (as_int64 (val key)))
      else if vtype key = EMS_TYPE_INTEGER \<or> vtype key = EMS_TYPE_FLOAT then
        Some (map_option llabs (as_int64 (val key)))
      else if vtype key = EMS_TYPE_STRING then
        Some (map_option EMShashString (cstring m (val key)))
      else None)"

text \<open>
  Whether the key stored at a map index equals the one looked for. \<open>None\<close> is a string that
  cannot be read.
\<close>

definition map_matches :: "ems \<Rightarrow> EMStag_t \<Rightarrow> EMSvalueType \<Rightarrow> int \<Rightarrow> bool option" where
  "map_matches m mapTags key idx =
     (if ty mapTags = vtype key then
        (if vtype key = EMS_TYPE_BOOLEAN \<or> vtype key = EMS_TYPE_INTEGER then
           map_option (\<lambda>i. i = word m (mapIdx m idx)) (as_int64 (val key))
         else if vtype key = EMS_TYPE_FLOAT then
           map_option (\<lambda>i. dbl_eq i (word m (mapIdx m idx))) (as_int64 (val key))
         else if vtype key = EMS_TYPE_STRING then do {
           k \<leftarrow> cstring m (val key);
           s \<leftarrow> heapStr m (word m (mapIdx m idx));
           Some (k = s)
         }
         else Some (vtype key \<noteq> EMS_TYPE_UNDEFINED))
      else Some False)"

text \<open>The \<open>while\<close> loop of \<open>EMSkey2index\<close> with \<open>k\<close> tries left; \<open>-1\<close> when it ends unmatched.\<close>

fun key2index_loop :: "nat \<Rightarrow> nat \<Rightarrow> EMSvalueType \<Rightarrow> int \<Rightarrow> world \<Rightarrow> (int \<times> world) option" where
  "key2index_loop fuel 0 key idx w = Some (- 1, w)"
| "key2index_loop fuel (Suc k) key idx w = do {
     let idx = idx smod nelem (mem w);
     (mapTags, w) \<leftarrow> EMStransitionFEtag fuel (mapIdx (mem w) idx) None EMS_TAG_FULL EMS_TAG_BUSY EMS_TAG_ANY_code w;
     matched \<leftarrow> map_matches (mem w) mapTags key idx;
     let notPresent = (ty mapTags = EMS_TYPE_UNDEFINED);
     let w = upd (\<lambda>m. set_fe (mapIdx m idx) EMS_TAG_FULL m) w;
     if matched then Some (idx, w)
     else if notPresent then Some (- 1, w)
     else key2index_loop fuel k key (idx + 1) w
   }"

definition EMSkey2index :: "nat \<Rightarrow> EMSvalueType \<Rightarrow> bool \<Rightarrow> world \<Rightarrow> (int \<times> world) option" where
  "EMSkey2index fuel key is_mapped w =
     (case key_home (mem w) key of
        None \<Rightarrow> Some (- 1, w)
      | Some None \<Rightarrow> None
      | Some (Some idx) \<Rightarrow> do {
          (idx, w) \<leftarrow> (if is_mapped then key2index_loop fuel MAX_OPEN_HASH_STEPS key idx w else Some (idx, w));
          Some (idx smod nelem (mem w), w)
        })"

section \<open>Finding or making the entry of a key\<close>

text \<open>
  Storing the key in an unused entry. \<open>False\<close> is the \<open>return -1\<close> of a failed allocation. The
  tag of the entry stays busy.
\<close>

definition map_store_key :: "nat \<Rightarrow> EMSvalueType \<Rightarrow> int \<Rightarrow> world \<Rightarrow> (bool \<times> world) option" where
  "map_store_key fuel key idx w = do {
     let w = upd (\<lambda>m. set_tag (mapIdx m idx) ((tag m (mapIdx m idx))\<lparr>ty := vtype key\<rparr>) m) w;
     let a = mapIdx (mem w) idx;
     if vtype key = EMS_TYPE_BOOLEAN then do {
       i \<leftarrow> as_int64 (val key);
       Some (True, upd (set_word a (if i \<noteq> 0 then 1 else 0)) w)
     } else if vtype key = EMS_TYPE_INTEGER \<or> vtype key = EMS_TYPE_FLOAT then do {
       i \<leftarrow> as_int64 (val key);
       Some (True, upd (set_word a i) w)
     } else if vtype key = EMS_TYPE_STRING then
       store_text fuel a (len key + 1) (val key) w
     else if vtype key = EMS_TYPE_UNDEFINED then
       Some (True, upd (set_word a 0xdeadbeef) w)
     else Some (True, w)
   }"

text \<open>The comparison of \<open>EMSwriteIndexMap\<close> differs from \<open>map_matches\<close> on booleans only.\<close>

definition map_matches_w :: "ems \<Rightarrow> EMStag_t \<Rightarrow> EMSvalueType \<Rightarrow> int \<Rightarrow> bool option" where
  "map_matches_w m mapTags key idx =
     (if ty mapTags = EMS_TYPE_BOOLEAN then
        map_option (\<lambda>i. i = (if word m (mapIdx m idx) \<noteq> 0 then 1 else 0)) (as_int64 (val key))
      else if ty mapTags = EMS_TYPE_INTEGER then
        map_option (\<lambda>i. i = word m (mapIdx m idx)) (as_int64 (val key))
      else if ty mapTags = EMS_TYPE_FLOAT then
        map_option (\<lambda>i. dbl_eq i (word m (mapIdx m idx))) (as_int64 (val key))
      else do {
        k \<leftarrow> cstring m (val key);
        s \<leftarrow> heapStr m (word m (mapIdx m idx));
        Some (k = s)
      })"

fun writeIndexMap_loop :: "nat \<Rightarrow> nat \<Rightarrow> EMSvalueType \<Rightarrow> int \<Rightarrow> world \<Rightarrow> (int \<times> world) option" where
  "writeIndexMap_loop fuel 0 key idx w = Some (- 1, w)"
| "writeIndexMap_loop fuel (Suc k) key idx w = do {
     let idx = idx smod nelem (mem w);
     (mapTags, w) \<leftarrow> EMStransitionFEtag fuel (mapIdx (mem w) idx) None EMS_TAG_FULL EMS_TAG_BUSY EMS_TAG_ANY_code w;
     if ty mapTags = EMS_TYPE_UNDEFINED then do {
       (stored, w) \<leftarrow> map_store_key fuel key idx w;
       Some (if stored then idx else - 1, w)
     } else if ty mapTags = vtype key then
       (if ty mapTags \<in> {EMS_TYPE_BOOLEAN, EMS_TYPE_INTEGER, EMS_TYPE_FLOAT, EMS_TYPE_STRING} then do {
          matched \<leftarrow> map_matches_w (mem w) mapTags key idx;
          let w = upd (\<lambda>m. set_fe (mapIdx m idx) EMS_TAG_FULL m) w;
          if matched then Some (idx, w) else writeIndexMap_loop fuel k key (idx + 1) w
        } else Some (idx, w))
     else do {
       let w = upd (\<lambda>m. set_fe (mapIdx m idx) EMS_TAG_FULL m) w;
       writeIndexMap_loop fuel k key (idx + 1) w
     }
   }"

definition EMSwriteIndexMap :: "nat \<Rightarrow> EMSvalueType \<Rightarrow> world \<Rightarrow> (int \<times> world) option" where
  "EMSwriteIndexMap fuel key w = do {
     (idx, w) \<leftarrow> EMSkey2index fuel key (EMSisMapped (mem w)) w;
     if idx > 0 then Some (idx, w)
     else do {
       (idx, w) \<leftarrow> EMSkey2index fuel key False w;
       if EMSisMapped (mem w) then writeIndexMap_loop fuel MAX_OPEN_HASH_STEPS key idx w
       else Some (if idx < 0 \<or> idx \<ge> nelem (mem w) then - 1 else idx, w)
     }
   }"

section \<open>From an index to its key\<close>

text \<open>
  \<open>EMSindex2key\<close> fills the fields \<open>value\<close> and \<open>type\<close>; the value of a string points into the
  heap, \<open>NULL\<close> is 0.
\<close>

definition EMSindex2key :: "int \<Rightarrow> EMSvalueType \<Rightarrow> ems \<Rightarrow> bool \<times> EMSvalueType" where
  "EMSindex2key idx key m =
     (if \<not> EMSisMapped m then (False, key)
      else if idx < 0 \<or> idx \<ge> nelem m then (False, key)
      else
        (let a = mapIdx m idx; key = key\<lparr>vtype := ty (tag m a)\<rparr> in
         if vtype key = EMS_TYPE_BOOLEAN \<or> vtype key = EMS_TYPE_INTEGER \<or> vtype key = EMS_TYPE_FLOAT
           then (True, key\<lparr>val := PInt (word m a)\<rparr>)
         else if vtype key = EMS_TYPE_JSON \<or> vtype key = EMS_TYPE_STRING
           then (True, key\<lparr>val := PHeap (word m a)\<rparr>)
         else if vtype key = EMS_TYPE_UNDEFINED then (True, key\<lparr>val := PInt 0\<rparr>)
         else (False, key)))"

end
