(* ===== verification/EmsAccess.thy ===== *)
theory EmsAccess
  imports EmsMap
begin

text \<open>
  Reading and writing an element under the full/empty tags, the readers-writer lock, and setting
  a tag (\<open>src/ems.cc\<close>, from \<open>EMSreadUsingTags\<close> to \<open>EMSsetTag\<close>). Here the others act at the naps and
  between the load of a tag and the compare and swap on it, and nowhere between a swap that succeeds
  and the end of the operation; \<open>EmsElement\<close> has the same accesses one at a time.
\<close>

section \<open>Reading\<close>

text \<open>
  Under the lock: the value is read, then the tags are set. A string is returned as a pointer into
  the heap. For \<open>EMS_TAG_ANY\<close> as the final state no tag is stored.
\<close>

definition read_set_tags :: "int \<Rightarrow> fe_arg \<Rightarrow> EMStag_t \<Rightarrow> world \<Rightarrow> world" where
  "read_set_tags idx finalFE newTag w =
     (let w = (if finalFE \<noteq> EMS_TAG_ANY then upd (set_tag (dataIdx idx) newTag) w else w) in
      if EMSisMapped (mem w) then upd (\<lambda>m. set_fe (mapIdx m idx) EMS_TAG_FULL m) w else w)"

definition read_finish ::
  "int \<Rightarrow> fe_arg \<Rightarrow> EMSvalueType \<Rightarrow> EMStag_t \<Rightarrow> world \<Rightarrow> (bool \<times> EMSvalueType \<times> world) option" where
  "read_finish idx finalFE ret newTag w = do {
     let newTag = newTag\<lparr>fe := fe_field finalFE\<rparr>;
     let ret = ret\<lparr>vtype := ty newTag\<rparr>;
     let x = word (mem w) (dataIdx idx);
     if ty newTag = EMS_TYPE_BOOLEAN then
       Some (True, ret\<lparr>val := PInt (if x \<noteq> 0 then 1 else 0)\<rparr>, read_set_tags idx finalFE newTag w)
     else if ty newTag = EMS_TYPE_INTEGER \<or> ty newTag = EMS_TYPE_FLOAT then
       Some (True, ret\<lparr>val := PInt x\<rparr>, read_set_tags idx finalFE newTag w)
     else if ty newTag = EMS_TYPE_JSON \<or> ty newTag = EMS_TYPE_STRING then do {
       s \<leftarrow> heapStr (mem w) x;
       Some (True, ret\<lparr>val := PHeap x, len := length s\<rparr>, read_set_tags idx finalFE newTag w)
     } else if ty newTag = EMS_TYPE_UNDEFINED then
       Some (True, ret\<lparr>val := PInt 0xcafebeef\<rparr>, read_set_tags idx finalFE newTag w)
     else Some (False, ret, w)
   }"

text \<open>
  The test before the compare and swap. The readers-writer case looks at the local
  \<open>newTag\<close>, which in the first round has not been assigned.
\<close>

definition read_may_try :: "fe_arg \<Rightarrow> EMStag_t \<Rightarrow> EMStag_t \<Rightarrow> bool" where
  "read_may_try initialFE memTag newTag \<longleftrightarrow>
     initialFE = EMS_TAG_ANY \<or>
     (initialFE \<noteq> FE EMS_TAG_RW_LOCK \<and> FE (fe memTag) = initialFE) \<or>
     (initialFE = FE EMS_TAG_RW_LOCK \<and>
        ((fe memTag = EMS_TAG_RW_LOCK \<and> rw newTag < EMS_RW_NREADERS_MAX) \<or> fe memTag = EMS_TAG_FULL) \<and>
        rw memTag < EMS_RW_NREADERS_MAX)"

text \<open>The two sides of that compare and swap, and what is stored by it.\<close>

definition read_swap_tag :: "fe_arg \<Rightarrow> EMStag_t \<Rightarrow> EMStag_t" where
  "read_swap_tag initialFE memTag =
     (if initialFE = FE EMS_TAG_RW_LOCK then memTag else memTag\<lparr>fe := fe_field initialFE\<rparr>)"

definition read_locked_tag :: "fe_arg \<Rightarrow> EMStag_t \<Rightarrow> EMStag_t" where
  "read_locked_tag initialFE memTag =
     (if initialFE = FE EMS_TAG_RW_LOCK then memTag\<lparr>fe := EMS_TAG_BUSY, rw := rw memTag + 1\<rparr>
      else memTag\<lparr>fe := EMS_TAG_BUSY\<rparr>)"

declare read_swap_tag_def [simp] read_locked_tag_def [simp]

text \<open>The \<open>while (true)\<close> loop; \<open>newTag\<close> is the local variable.\<close>

fun read_loop ::
  "nat \<Rightarrow> int \<Rightarrow> fe_arg \<Rightarrow> fe_arg \<Rightarrow> EMSvalueType \<Rightarrow> EMStag_t \<Rightarrow> world \<Rightarrow>
    (bool \<times> EMSvalueType \<times> world) option" where
  "read_loop 0 idx initialFE finalFE ret newTag w = None"
| "read_loop (Suc fuel) idx initialFE finalFE ret newTag w =
     (let memTag = tag (mem w) (dataIdx idx);
          may_try = read_may_try initialFE memTag newTag;
          newTag = (if may_try then read_locked_tag initialFE memTag else newTag);
          oldTag = read_swap_tag initialFE memTag;
          w = yield w in
      if may_try \<and> initialFE = EMS_TAG_ANY then read_finish idx finalFE ret newTag w
      else if may_try \<and> tag (mem w) (dataIdx idx) = oldTag then
        read_finish idx finalFE ret newTag (upd (set_tag (dataIdx idx) newTag) w)
      else do {
        let w = (if EMSisMapped (mem w) then upd (\<lambda>m. set_fe (mapIdx m idx) EMS_TAG_FULL m) w else w);
        let w = yield w;
        (_, w) \<leftarrow> (if EMSisMapped (mem w)
                   then EMStransitionFEtag fuel (mapIdx (mem w) idx) None EMS_TAG_FULL EMS_TAG_BUSY EMS_TAG_ANY_code w
                   else Some (newTag, w));
        read_loop fuel idx initialFE finalFE ret newTag w
      })"

text \<open>\<open>newTag\<close>: what the uninitialised local variable happens to hold.\<close>

definition EMSreadUsingTags ::
  "nat \<Rightarrow> EMStag_t \<Rightarrow> EMSvalueType \<Rightarrow> EMSvalueType \<Rightarrow> fe_arg \<Rightarrow> fe_arg \<Rightarrow> world \<Rightarrow>
    (bool \<times> EMSvalueType \<times> world) option" where
  "EMSreadUsingTags fuel newTag key ret initialFE finalFE w = do {
     let ret = ret\<lparr>vtype := EMS_TYPE_UNDEFINED, val := PInt 0xdeafbeef\<rparr>;
     (idx, w) \<leftarrow> EMSkey2index fuel key (EMSisMapped (mem w)) w;
     if EMSisMapped (mem w) \<and> idx < 0 \<and> finalFE = EMS_TAG_ANY then Some (True, ret, w)
     else do {
       (idx, w) \<leftarrow> (if EMSisMapped (mem w) \<and> idx < 0 then EMSwriteIndexMap fuel key w else Some (idx, w));
       if idx < 0 \<or> idx \<ge> nelem (mem w) then Some (False, ret, w)
       else read_loop fuel idx initialFE finalFE ret newTag w
     }
   }"

definition EMSreadRW ::
  "nat \<Rightarrow> EMStag_t \<Rightarrow> EMSvalueType \<Rightarrow> EMSvalueType \<Rightarrow> world \<Rightarrow> (bool \<times> EMSvalueType \<times> world) option" where
  "EMSreadRW fuel nt key ret w = EMSreadUsingTags fuel nt key ret (FE EMS_TAG_RW_LOCK) (FE EMS_TAG_RW_LOCK) w"

definition EMSreadFE ::
  "nat \<Rightarrow> EMStag_t \<Rightarrow> EMSvalueType \<Rightarrow> EMSvalueType \<Rightarrow> world \<Rightarrow> (bool \<times> EMSvalueType \<times> world) option" where
  "EMSreadFE fuel nt key ret w = EMSreadUsingTags fuel nt key ret (FE EMS_TAG_FULL) (FE EMS_TAG_EMPTY) w"

definition EMSreadFF ::
  "nat \<Rightarrow> EMStag_t \<Rightarrow> EMSvalueType \<Rightarrow> EMSvalueType \<Rightarrow> world \<Rightarrow> (bool \<times> EMSvalueType \<times> world) option" where
  "EMSreadFF fuel nt key ret w = EMSreadUsingTags fuel nt key ret (FE EMS_TAG_FULL) (FE EMS_TAG_FULL) w"

definition EMSread ::
  "nat \<Rightarrow> EMStag_t \<Rightarrow> EMSvalueType \<Rightarrow> EMSvalueType \<Rightarrow> world \<Rightarrow> (bool \<times> EMSvalueType \<times> world) option" where
  "EMSread fuel nt key ret w = EMSreadUsingTags fuel nt key ret EMS_TAG_ANY EMS_TAG_ANY w"

section \<open>Releasing a read lock\<close>

text \<open>The last reader sets the element back to full.\<close>

definition release_tag :: "EMStag_t \<Rightarrow> EMStag_t" where
  "release_tag oldTag =
     (let newTag = oldTag\<lparr>rw := rw oldTag - 1\<rparr> in
      if rw newTag = 0 then newTag\<lparr>fe := EMS_TAG_FULL\<rparr> else newTag)"

declare release_tag_def [simp]

fun release_loop :: "nat \<Rightarrow> int \<Rightarrow> world \<Rightarrow> (int \<times> world) option" where
  "release_loop 0 idx w = None"
| "release_loop (Suc fuel) idx w =
     (let oldTag = tag (mem w) (dataIdx idx) in
      if fe oldTag = EMS_TAG_RW_LOCK then
        (if rw oldTag = 0 then Some (- 1, w)
         else
           (let newTag = release_tag oldTag;
                w = yield w in
            if tag (mem w) (dataIdx idx) = oldTag
            then Some (uint (rw newTag), upd (set_tag (dataIdx idx) newTag) w)
            else release_loop fuel idx (yield w)))
      else if fe oldTag \<noteq> EMS_TAG_BUSY then Some (- 1, w)
      else release_loop fuel idx (yield w))"

definition EMSreleaseRW :: "nat \<Rightarrow> EMSvalueType \<Rightarrow> world \<Rightarrow> (int \<times> world) option" where
  "EMSreleaseRW fuel key w = do {
     (idx, w) \<leftarrow> EMSkey2index fuel key (EMSisMapped (mem w)) w;
     if idx < 0 \<or> idx \<ge> nelem (mem w) then Some (- 1, w) else release_loop fuel idx w
   }"

section \<open>Writing\<close>

text \<open>
  Storing the value in the element. The result \<open>False\<close> is the \<open>return false\<close> on a failed
  allocation or an unknown type.
\<close>

definition write_store :: "nat \<Rightarrow> nat \<Rightarrow> EMSvalueType \<Rightarrow> world \<Rightarrow> (bool \<times> world) option" where
  "write_store fuel a v w =
     (if vtype v \<in> {EMS_TYPE_BOOLEAN, EMS_TYPE_INTEGER, EMS_TYPE_FLOAT} then do {
        i \<leftarrow> as_int64 (val v);
        Some (True, upd (set_word a i) w)
      } else if vtype v \<in> {EMS_TYPE_JSON, EMS_TYPE_STRING} then
        store_text fuel a (len v + 1) (val v) w
      else if vtype v = EMS_TYPE_UNDEFINED then
        Some (True, upd (set_word a 0xdeadbeef) w)
      else Some (False, w))"

text \<open>The body under the lock: \<open>oldTag\<close> and \<open>newTag\<close> are the tags before and after locking.\<close>

definition write_body ::
  "nat \<Rightarrow> int \<Rightarrow> EMSvalueType \<Rightarrow> fe_arg \<Rightarrow> EMStag_t \<Rightarrow> EMStag_t \<Rightarrow> world \<Rightarrow> (bool \<times> world) option" where
  "write_body fuel idx v finalFE oldTag newTag w = do {
     let a = dataIdx idx;
     w \<leftarrow> (if ty oldTag = EMS_TYPE_STRING \<or> ty oldTag = EMS_TYPE_JSON
           then emsMutexMem_free fuel (word (mem w) a) w else Some w);
     (stored, w) \<leftarrow> write_store fuel a v w;
     if \<not> stored then Some (False, w)
     else do {
       let oldTag = newTag;
       let newTag = (if finalFE \<noteq> EMS_TAG_ANY then newTag\<lparr>fe := fe_field finalFE, rw := 0\<rparr> else newTag);
       let newTag = newTag\<lparr>ty := vtype v\<rparr>;
       if finalFE \<noteq> EMS_TAG_ANY \<and> tag (mem w) a \<noteq> oldTag then Some (False, w)
       else do {
         let w = upd (set_tag a newTag) w;
         Some (True, if EMSisMapped (mem w) then upd (\<lambda>m. set_fe (mapIdx m idx) EMS_TAG_FULL m) w else w)
       }
     }
   }"

fun write_loop ::
  "nat \<Rightarrow> int \<Rightarrow> EMSvalueType \<Rightarrow> fe_arg \<Rightarrow> fe_arg \<Rightarrow> world \<Rightarrow> (bool \<times> world) option" where
  "write_loop 0 idx v initialFE finalFE w = None"
| "write_loop (Suc fuel) idx v initialFE finalFE w =
     (let idx = idx smod nelem (mem w);
          memTag = tag (mem w) (dataIdx idx) in
      if initialFE \<noteq> EMS_TAG_ANY \<or> finalFE = EMS_TAG_ANY \<or> fe memTag \<noteq> EMS_TAG_BUSY then
        (let newTag = (if finalFE \<noteq> EMS_TAG_ANY then memTag\<lparr>fe := EMS_TAG_BUSY\<rparr> else memTag) in
         if initialFE \<noteq> EMS_TAG_ANY \<or> finalFE = EMS_TAG_ANY then write_body (Suc fuel) idx v finalFE memTag newTag w
         else
           (let w = yield w in
            if tag (mem w) (dataIdx idx) = memTag
            then write_body (Suc fuel) idx v finalFE memTag newTag (upd (set_tag (dataIdx idx) newTag) w)
            else write_loop fuel idx v initialFE finalFE (yield w)))
      else write_loop fuel idx v initialFE finalFE (yield w))"

text \<open>What follows the index map in \<open>EMSwriteUsingTags\<close>.\<close>

definition write_at ::
  "nat \<Rightarrow> int \<Rightarrow> EMSvalueType \<Rightarrow> fe_arg \<Rightarrow> fe_arg \<Rightarrow> world \<Rightarrow> (bool \<times> world) option" where
  "write_at fuel idx v initialFE finalFE w = do {
     w \<leftarrow> (case initialFE of
             EMS_TAG_ANY \<Rightarrow> Some w
           | FE f \<Rightarrow> map_option snd (EMStransitionFEtag fuel (dataIdx idx)
               (if EMSisMapped (mem w) then Some (mapIdx (mem w) idx) else None) f EMS_TAG_BUSY EMS_TAG_ANY_code w));
     write_loop fuel idx v initialFE finalFE w
   }"

definition EMSwriteUsingTags ::
  "nat \<Rightarrow> EMSvalueType \<Rightarrow> EMSvalueType \<Rightarrow> fe_arg \<Rightarrow> fe_arg \<Rightarrow> world \<Rightarrow> (bool \<times> world) option" where
  "EMSwriteUsingTags fuel key v initialFE finalFE w = do {
     (idx, w) \<leftarrow> EMSwriteIndexMap fuel key w;
     if idx < 0 then Some (False, w) else write_at fuel idx v initialFE finalFE w
   }"

definition EMSwriteXF :: "nat \<Rightarrow> EMSvalueType \<Rightarrow> EMSvalueType \<Rightarrow> world \<Rightarrow> (bool \<times> world) option" where
  "EMSwriteXF fuel key v w = EMSwriteUsingTags fuel key v EMS_TAG_ANY (FE EMS_TAG_FULL) w"

definition EMSwriteXE :: "nat \<Rightarrow> EMSvalueType \<Rightarrow> EMSvalueType \<Rightarrow> world \<Rightarrow> (bool \<times> world) option" where
  "EMSwriteXE fuel key v w = EMSwriteUsingTags fuel key v EMS_TAG_ANY (FE EMS_TAG_EMPTY) w"

definition EMSwriteEF :: "nat \<Rightarrow> EMSvalueType \<Rightarrow> EMSvalueType \<Rightarrow> world \<Rightarrow> (bool \<times> world) option" where
  "EMSwriteEF fuel key v w = EMSwriteUsingTags fuel key v (FE EMS_TAG_EMPTY) (FE EMS_TAG_FULL) w"

definition EMSwrite :: "nat \<Rightarrow> EMSvalueType \<Rightarrow> EMSvalueType \<Rightarrow> world \<Rightarrow> (bool \<times> world) option" where
  "EMSwrite fuel key v w = EMSwriteUsingTags fuel key v EMS_TAG_ANY EMS_TAG_ANY w"

section \<open>Setting a tag\<close>

definition EMSsetTag :: "nat \<Rightarrow> EMSvalueType \<Rightarrow> bool \<Rightarrow> world \<Rightarrow> (bool \<times> world) option" where
  "EMSsetTag fuel key is_full w = do {
     (idx, w) \<leftarrow> EMSkey2index fuel key (EMSisMapped (mem w)) w;
     if idx < 0 \<or> idx \<ge> nelem (mem w) then Some (False, w)
     else
       Some (True, upd (\<lambda>m. set_fe (dataIdx idx) (if is_full then EMS_TAG_FULL else EMS_TAG_EMPTY) m) w)
   }"

end
