(* ===== verification/EmsDouble.thy ===== *)
theory EmsDouble
  imports BuddyProof EmsMap
begin

text \<open>
  The C arithmetic and printing that \<open>src/rmw.cc\<close> uses: addition of doubles, conversion from
  \<open>int64_t\<close>, and the formats \<open>%lld\<close> and \<open>%lf\<close>. A double is its 64 bits read as a signed
  integer, as the words of a buffer hold it. Every finite double is a whole number of units of
  \<open>2 ^ -1074\<close>, so arithmetic is exact on integers and rounded once, to nearest with ties to
  even. NaN payloads are not distinguished: an operation that gives a NaN gives the default one.
\<close>

section \<open>Doubles\<close>

definition dbl_neg :: "int \<Rightarrow> bool" where
  "dbl_neg b \<longleftrightarrow> 2 ^ 63 \<le> b mod 2 ^ 64"

definition dbl_is_inf :: "int \<Rightarrow> bool" where
  "dbl_is_inf b \<longleftrightarrow> b mod 2 ^ 63 = 0x7FF0000000000000"

definition DBL_NAN :: int where
  "DBL_NAN = 0x7FF8000000000000"

text \<open>The magnitude of a finite double in units of \<open>2 ^ -1074\<close>.\<close>

definition dbl_mag :: "int \<Rightarrow> int" where
  "dbl_mag b =
     (let e = (b mod 2 ^ 63) div 2 ^ 52; f = b mod 2 ^ 52 in
      if e = 0 then f else (2 ^ 52 + f) * 2 ^ nat (e - 1))"

definition dbl_units :: "int \<Rightarrow> int" where
  "dbl_units b = (if dbl_neg b then - dbl_mag b else dbl_mag b)"

text \<open>The bits of the double nearest to \<open>n\<close> units; too large a number becomes infinity.\<close>

definition dbl_round :: "nat \<Rightarrow> int" where
  "dbl_round n =
     (let s = bit_length n - 53; q = n div 2 ^ s; r = 2 * (n mod 2 ^ s);
          up = (r > 2 ^ s \<or> r = 2 ^ s \<and> odd q) in
      min (int (s * 2 ^ 52 + q + (if up then 1 else 0))) 0x7FF0000000000000)"

definition dbl_pack :: "int \<Rightarrow> int" where
  "dbl_pack u = (if u < 0 then dbl_round (nat (- u)) - 2 ^ 63 else dbl_round (nat u))"

definition dbl_of_int :: "int \<Rightarrow> int" where
  "dbl_of_int i = dbl_pack (i * 2 ^ 1074)"

definition dbl_add :: "int \<Rightarrow> int \<Rightarrow> int" where
  "dbl_add a b =
     (if dbl_is_nan a \<or> dbl_is_nan b then DBL_NAN
      else if dbl_is_inf a then (if dbl_is_inf b \<and> dbl_neg a \<noteq> dbl_neg b then DBL_NAN else a)
      else if dbl_is_inf b then b
      else if dbl_units a + dbl_units b = 0 then (if dbl_neg a \<and> dbl_neg b then - (2 ^ 63) else 0)
      else dbl_pack (dbl_units a + dbl_units b))"

section \<open>Printing\<close>

definition digit_char :: "nat \<Rightarrow> char" where
  "digit_char d = char_of (48 + d)"

fun dec_digits :: "nat \<Rightarrow> string" where
  "dec_digits n = (if n < 10 then [digit_char n] else dec_digits (n div 10) @ [digit_char (n mod 10)])"

declare dec_digits.simps [simp del]

text \<open>\<open>%lld\<close>.\<close>

definition fmt_lld :: "int \<Rightarrow> string" where
  "fmt_lld i = (if i < 0 then ''-'' else []) @ dec_digits (nat \<bar>i\<bar>)"

text \<open>\<open>%lf\<close>: six digits after the point, the exact value rounded to nearest, ties to even.\<close>

definition frac6 :: "nat \<Rightarrow> string" where
  "frac6 n = map (\<lambda>k. digit_char (n div 10 ^ k mod 10)) [5, 4, 3, 2, 1, 0]"

definition fmt_lf :: "int \<Rightarrow> string" where
  "fmt_lf b =
     (if dbl_neg b then ''-'' else []) @
     (if dbl_is_nan b then ''nan''
      else if dbl_is_inf b then ''inf''
      else
        (let x = nat (dbl_mag b) * 10 ^ 6; q = x div 2 ^ 1074; r = 2 * (x mod 2 ^ 1074);
             n = (if r > 2 ^ 1074 \<or> r = 2 ^ 1074 \<and> odd q then q + 1 else q) in
         dec_digits (n div 10 ^ 6) @ ''.'' @ frac6 (n mod 10 ^ 6)))"

section \<open>Facts\<close>

lemma dec_digits_chars: "c \<in> set (dec_digits n) \<Longrightarrow> c \<in> digit_char ` {..<10}"
proof (induction n rule: dec_digits.induct)
  case (1 n)
  show ?case
  proof (cases "n < 10")
    case False
    then have "c \<in> set (dec_digits (n div 10)) \<or> c = digit_char (n mod 10)"
      using "1.prems" by (auto simp: dec_digits.simps [of n])
    moreover have "digit_char (n mod 10) \<in> digit_char ` {..<10}" by simp
    ultimately show ?thesis using "1.IH" [OF False] by blast
  qed (use "1.prems" in \<open>simp add: dec_digits.simps [of n]\<close>)
qed

lemma of_char_digit: "d < 10 \<Longrightarrow> of_char (digit_char d) = 48 + d"
  by (simp add: digit_char_def of_char_of)

lemma digit_not_NUL: "d < 10 \<Longrightarrow> digit_char d \<noteq> NUL"
proof
  assume "d < 10" "digit_char d = NUL"
  then have "of_char NUL = 48 + d" using of_char_digit [of d] by simp
  then show False by simp
qed

lemma fmt_lld_no_NUL: "NUL \<notin> set (fmt_lld i)"
  using dec_digits_chars [of NUL "nat \<bar>i\<bar>"] digit_not_NUL by (force simp: fmt_lld_def)

lemma frac6_no_NUL: "NUL \<notin> set (frac6 n)"
proof
  assume "NUL \<in> set (frac6 n)"
  then obtain k where "NUL = digit_char (n div 10 ^ k mod 10)" unfolding frac6_def set_map by blast
  then show False using digit_not_NUL [of "n div 10 ^ k mod 10"] by simp
qed

lemma fmt_lf_no_NUL: "NUL \<notin> set (fmt_lf b)"
proof -
  have "NUL \<notin> set (dec_digits n)" for n
    using dec_digits_chars [of NUL n] digit_not_NUL by force
  then show ?thesis using frac6_no_NUL by (simp add: fmt_lf_def Let_def del: power.simps)
qed

text \<open>The digits denote the number, so \<open>%lld\<close> can be read back.\<close>

fun dec_value :: "string \<Rightarrow> nat" where
  "dec_value [] = 0"
| "dec_value (c # cs) = (of_char c - 48) * 10 ^ length cs + dec_value cs"

lemma dec_value_snoc: "dec_value (cs @ [c]) = dec_value cs * 10 + (of_char c - 48)"
  by (induction cs) (simp_all add: algebra_simps)

lemma dec_value_digits: "dec_value (dec_digits n) = n"
proof (induction n rule: dec_digits.induct)
  case (1 n)
  show ?case
  proof (cases "n < 10")
    case True then show ?thesis by (simp add: dec_digits.simps [of n] of_char_digit)
  next
    case False
    then show ?thesis using "1.IH" by (simp add: dec_digits.simps [of n] dec_value_snoc of_char_digit)
  qed
qed

lemma dec_digits_length: "n < 10 ^ Suc k \<Longrightarrow> length (dec_digits n) \<le> Suc k"
proof (induction k arbitrary: n)
  case (Suc k)
  show ?case
  proof (cases "n < 10")
    case False
    have "n div 10 < 10 ^ Suc k" using Suc.prems by (simp add: less_mult_imp_div_less)
    from Suc.IH [OF this] False show ?thesis by (simp add: dec_digits.simps [of n])
  qed (simp add: dec_digits.simps [of n])
qed (simp add: dec_digits.simps)

text \<open>A 64-bit integer takes at most 20 characters.\<close>

lemma fmt_lld_length:
  assumes "- (2 ^ 63) \<le> i" "i < 2 ^ 63"
  shows "length (fmt_lld i) \<le> 20"
proof -
  have "nat \<bar>i\<bar> < 10 ^ Suc 18" using assms by simp
  from dec_digits_length [OF this] show ?thesis by (auto simp: fmt_lld_def)
qed

section \<open>Integers below \<open>2 ^ 53\<close> are exact\<close>

lemma bit_length_unique:
  assumes "2 ^ l \<le> n" "n < 2 ^ Suc l"
  shows "bit_length n = Suc l"
proof -
  have n: "0 < n" using assms(1) by (rule less_le_trans [rotated]) simp
  note b = bit_length_bounds [OF n]
  have "(2::nat) ^ l < 2 ^ bit_length n" using assms(1) b by linarith
  moreover have "(2::nat) ^ (bit_length n - 1) < 2 ^ Suc l" using assms(2) b by linarith
  ultimately have "l < bit_length n" "bit_length n - 1 < Suc l"
    by (simp_all only: power_strict_increasing_iff one_less_numeral_iff semiring_norm)
  then show ?thesis by simp
qed

text \<open>The fields of a normal double.\<close>

lemma dbl_fields:
  assumes "1 \<le> e" "e < 2047" "0 \<le> f" "f < 2 ^ 52" and b: "b = e * 2 ^ 52 + f - (if neg then 2 ^ 63 else 0)"
  shows "dbl_mag b = (2 ^ 52 + f) * 2 ^ nat (e - 1)" "dbl_neg b = neg" "\<not> dbl_is_nan b" "\<not> dbl_is_inf b"
proof -
  let ?B = "e * 2 ^ 52 + f"
  have B: "0 \<le> ?B" "?B < 2047 * 2 ^ 52" using assms(1-4) by auto
  have m63: "b mod 2 ^ 63 = ?B"
  proof (cases neg)
    case True
    have "(?B - 2 ^ 63) mod 2 ^ 63 = ?B mod 2 ^ 63" by (rule minus_mod_self2)
    then show ?thesis using B b True by simp
  qed (use B b in simp)
  have m52: "b mod 2 ^ 52 = f"
  proof -
    have "b mod 2 ^ 52 = (f + (e - (if neg then 2 ^ 11 else 0)) * 2 ^ 52) mod 2 ^ 52"
      unfolding b by (simp add: algebra_simps)
    also have "\<dots> = f mod 2 ^ 52" by (rule mod_mult_self1)
    also have "\<dots> = f" using assms(3,4) by simp
    finally show ?thesis .
  qed
  have e: "b mod 2 ^ 63 div 2 ^ 52 = e" unfolding m63 using assms(3,4) by simp
  show "dbl_mag b = (2 ^ 52 + f) * 2 ^ nat (e - 1)"
    unfolding dbl_mag_def Let_def e m52 using assms(1) by simp
  show "\<not> dbl_is_nan b" "\<not> dbl_is_inf b"
    unfolding dbl_is_nan_def dbl_is_inf_def m63 using B(2) by simp_all
  show "dbl_neg b = neg"
  proof (cases neg)
    case True
    have "b mod 2 ^ 64 = (b + 2 ^ 64) mod 2 ^ 64" by (rule mod_add_self2 [symmetric])
    also have "\<dots> = ?B + 2 ^ 63" using B b True by simp
    finally show ?thesis using B True by (simp add: dbl_neg_def)
  qed (use B b in \<open>simp add: dbl_neg_def\<close>)
qed

lemma dbl_round_exact:
  assumes "0 < k" "k < 2 ^ 53"
  obtains e f where "dbl_round (k * 2 ^ 1074) = e * 2 ^ 52 + f" "1 \<le> e" "e < 2047" "0 \<le> f" "f < 2 ^ 52"
    "(2 ^ 52 + f) * 2 ^ nat (e - 1) = int k * 2 ^ 1074"
proof -
  obtain l where l: "2 ^ l \<le> k" "k < 2 ^ Suc l"
    using bit_length_bounds [OF assms(1)] by (metis Suc_diff_1)
  have "(2::nat) ^ l < 2 ^ 53" using l(1) assms(2) by linarith
  then have l52: "l \<le> 52" by (simp only: power_strict_increasing_iff one_less_numeral_iff semiring_norm)
  let ?n = "k * 2 ^ 1074" let ?s = "l + 1022"
  define q where "q = k * 2 ^ (52 - l)"
  have "52 - l + ?s = 1074" using l52 by simp
  then have pw: "(2::nat) ^ 1074 = 2 ^ (52 - l) * 2 ^ ?s" by (metis power_add)
  have "(2::nat) ^ (l + 1074) \<le> ?n" "?n < 2 ^ Suc (l + 1074)" using l by (simp_all add: power_add)
  then have "bit_length ?n = Suc (l + 1074)" by (rule bit_length_unique)
  then have s: "bit_length ?n - 53 = ?s" by simp
  have q: "?n = q * 2 ^ ?s" unfolding pw q_def by (simp only: mult.assoc)
  have div: "?n div 2 ^ ?s = q" "?n mod 2 ^ ?s = 0" unfolding q by simp_all
  have "l + (52 - l) = 52" using l52 by simp
  then have "(2::nat) ^ l * 2 ^ (52 - l) = 2 ^ 52" by (metis power_add)
  moreover have "2 ^ l * 2 ^ (52 - l) \<le> q" using l(1) by (simp add: q_def)
  ultimately have lo: "2 ^ 52 \<le> q" by (simp only:)
  have "Suc l + (52 - l) = 53" using l52 by simp
  then have "(2::nat) ^ Suc l * 2 ^ (52 - l) = 2 ^ 53" by (metis power_add)
  moreover have "q < 2 ^ Suc l * 2 ^ (52 - l)" using l(2) by (simp add: q_def)
  ultimately have hi: "q < 2 ^ 53" by (simp only:)
  have "int (?s * 2 ^ 52 + q) < 0x7FF0000000000000" using hi l52 by simp
  then have r: "dbl_round ?n = int ?s * 2 ^ 52 + int q"
    unfolding dbl_round_def Let_def s div by simp
  have "(2 ^ 52 + (int q - 2 ^ 52)) * 2 ^ nat (int ?s + 1 - 1) = int (q * 2 ^ ?s)"
    by (simp add: nat_add_distrib)
  also have "\<dots> = int k * 2 ^ 1074" unfolding q [symmetric] by (simp only: of_nat_mult of_nat_power of_nat_numeral)
  finally have v: "(2 ^ 52 + (int q - 2 ^ 52)) * 2 ^ nat (int ?s + 1 - 1) = int k * 2 ^ 1074" .
  show thesis
  proof (rule that [OF _ _ _ _ _ v])
    show "dbl_round ?n = (int ?s + 1) * 2 ^ 52 + (int q - 2 ^ 52)" unfolding r by (simp add: algebra_simps)
  qed (use lo hi l52 in simp_all)
qed

lemma units_nonneg: "0 \<le> i \<Longrightarrow> nat (i * 2 ^ n) = nat \<bar>i\<bar> * 2 ^ n \<and> \<not> i * 2 ^ n < 0"
  by (simp add: nat_mult_distrib nat_power_eq mult_less_0_iff)

lemma units_neg: "i < 0 \<Longrightarrow> nat (- (i * 2 ^ n)) = nat \<bar>i\<bar> * 2 ^ n \<and> i * 2 ^ n < 0"
  using units_nonneg [of "- i" n] by (auto simp: mult_less_0_iff)

lemma dbl_of_int_exact:
  assumes "\<bar>i\<bar> < 2 ^ 53"
  shows "dbl_units (dbl_of_int i) = i * 2 ^ 1074 \<and> \<not> dbl_is_nan (dbl_of_int i) \<and> \<not> dbl_is_inf (dbl_of_int i)"
proof (cases "i = 0")
  case True
  then show ?thesis
    by (simp add: dbl_of_int_def dbl_pack_def dbl_round_def bit_length.simps Let_def dbl_units_def dbl_mag_def dbl_neg_def
        dbl_is_nan_def dbl_is_inf_def)
next
  case False
  let ?k = "nat \<bar>i\<bar>"
  from False assms have k: "0 < ?k" "?k < 2 ^ 53" by simp_all
  from dbl_round_exact [OF this] obtain e f where
    r: "dbl_round (?k * 2 ^ 1074) = e * 2 ^ 52 + f" "1 \<le> e" "e < 2047" "0 \<le> f" "f < 2 ^ 52"
    "(2 ^ 52 + f) * 2 ^ nat (e - 1) = int ?k * 2 ^ 1074" by blast
  have b: "dbl_of_int i = e * 2 ^ 52 + f - (if i < 0 then 2 ^ 63 else 0)"
  proof (cases "i < 0")
    case True
    then show ?thesis
      using units_neg [OF True, of 1074] r(1) by (simp only: dbl_of_int_def dbl_pack_def if_True)
  next
    case False
    then have "0 \<le> i" by simp
    from units_nonneg [OF this, of 1074] r(1) False show ?thesis
      by (simp only: dbl_of_int_def dbl_pack_def if_False)
  qed
  show ?thesis
    using dbl_fields [OF r(2-5) b] r(6) by (simp add: dbl_units_def)
qed

end
