(* ===== verification/EmsRmw.thy ===== *)
theory EmsRmw
  imports EmsAccess EmsDouble
begin

text \<open>
  The read-modify-write operations \<open>EMScas\<close> and \<open>EMSfaa\<close> (\<open>src/rmw.cc\<close>). Nobody acts while they hold
  the lock here; \<open>EmsElement\<close> has their accesses one at a time.
\<close>

section \<open>Building a string on the heap\<close>

text \<open>
  \<open>EMS_ALLOC\<close> of \<open>n\<close> bytes and then \<open>sprintf\<close> or \<open>strcpy\<close> of a text into the block. The
  arguments of the text are read after the allocation. The result is the offset, or \<open>-1\<close> where the
  callers return at once. Nothing keeps the text within the block.
\<close>

definition alloc_text :: "nat \<Rightarrow> nat \<Rightarrow> (ems \<Rightarrow> string option) \<Rightarrow> world \<Rightarrow> (int \<times> world) option" where
  "alloc_text fuel n text w = do {
     (textOffset, w) \<leftarrow> emsMutexMem_alloc fuel n w;
     if textOffset < 0 then Some (textOffset, w)
     else do {
       s \<leftarrow> text (mem w);
       Some (textOffset, upd (\<lambda>m. m\<lparr>heap := strcpy (heap m) (nat textOffset) s\<rparr>) w)
     }
   }"

section \<open>Compare and swap\<close>

text \<open>Reading the value in memory; \<open>False\<close> is \<open>return false\<close>.\<close>

definition cas_read :: "int \<Rightarrow> ems_type \<Rightarrow> EMSvalueType \<Rightarrow> world \<Rightarrow> (bool \<times> EMSvalueType) option" where
  "cas_read idx memType ret w =
     (let ret = ret\<lparr>vtype := memType\<rparr>; x = word (mem w) (dataIdx idx) in
      if memType = EMS_TYPE_UNDEFINED then Some (True, ret\<lparr>val := PInt 0xf00dcafe\<rparr>)
      else if memType \<in> {EMS_TYPE_BOOLEAN, EMS_TYPE_INTEGER, EMS_TYPE_FLOAT} then Some (True, ret\<lparr>val := PInt x\<rparr>)
      else if memType \<in> {EMS_TYPE_JSON, EMS_TYPE_STRING} then do {
        s \<leftarrow> heapStr (mem w) x;
        Some (if libc_malloc w (length s + 1) then (True, ret\<lparr>val := PStr s\<rparr>) else (False, ret\<lparr>val := PInt 0\<rparr>))
      } else Some (False, ret))"

text \<open>The comparison: equal types, and equal words or equal strings.\<close>

definition cas_equal :: "ems_type \<Rightarrow> EMSvalueType \<Rightarrow> EMSvalueType \<Rightarrow> ems \<Rightarrow> bool option" where
  "cas_equal memType ret oldValue m =
     (if vtype oldValue \<noteq> memType then Some False
      else if memType = EMS_TYPE_UNDEFINED then Some True
      else if memType \<in> {EMS_TYPE_BOOLEAN, EMS_TYPE_INTEGER, EMS_TYPE_FLOAT} then
        map_option (\<lambda>i. val ret = PInt i) (as_int64 (val oldValue))
      else map_option (\<lambda>s. val ret = PStr s) (cstring m (val oldValue)))"

definition cas_store :: "nat \<Rightarrow> nat \<Rightarrow> EMSvalueType \<Rightarrow> world \<Rightarrow> (bool \<times> world) option" where
  "cas_store fuel a newValue w =
     (if vtype newValue = EMS_TYPE_UNDEFINED then Some (True, upd (set_word a 0xbeeff00d) w)
      else if vtype newValue \<in> {EMS_TYPE_BOOLEAN, EMS_TYPE_INTEGER, EMS_TYPE_FLOAT} then do {
        i \<leftarrow> as_int64 (val newValue);
        Some (True, upd (set_word a i) w)
      } else if vtype newValue \<in> {EMS_TYPE_JSON, EMS_TYPE_STRING} then do {
        (textOffset, w) \<leftarrow> alloc_text fuel (len newValue + 1) (\<lambda>m. cstring m (val newValue)) w;
        Some (if textOffset < 0 then (False, w) else (True, upd (set_word a textOffset) w))
      } else Some (False, w))"

text \<open>Both operations end by setting the tag of the element and releasing the map entry.\<close>

definition rmw_finish :: "int \<Rightarrow> EMStag_t \<Rightarrow> world \<Rightarrow> world" where
  "rmw_finish idx newTag w =
     (let w = upd (set_tag (dataIdx idx) newTag) w in
      if EMSisMapped (mem w) then upd (\<lambda>m. set_fe (mapIdx m idx) EMS_TAG_FULL m) w else w)"

definition map_tag_of :: "int \<Rightarrow> ems \<Rightarrow> nat option" where
  "map_tag_of idx m = (if EMSisMapped m then Some (mapIdx m idx) else None)"

text \<open>Under the lock: read, compare, and store the new value when equal.\<close>

definition cas_locked ::
  "nat \<Rightarrow> int \<Rightarrow> EMSvalueType \<Rightarrow> EMSvalueType \<Rightarrow> EMSvalueType \<Rightarrow> world \<Rightarrow> (bool \<times> EMSvalueType \<times> world) option" where
  "cas_locked fuel idx oldValue newValue ret w = do {
     let a = dataIdx idx;
     let memType = ty (tag (mem w) a);
     (ok, ret) \<leftarrow> cas_read idx memType ret w;
     if \<not> ok then Some (False, ret, w)
     else do {
       swapped \<leftarrow> cas_equal memType ret oldValue (mem w);
       if swapped then do {
         w \<leftarrow> (if memType = EMS_TYPE_STRING \<or> memType = EMS_TYPE_JSON
               then emsMutexMem_free fuel (word (mem w) a) w else Some w);
         (stored, w) \<leftarrow> cas_store fuel a newValue w;
         if stored
         then Some (True, ret, rmw_finish idx \<lparr>fe = EMS_TAG_FULL, ty = vtype newValue, rw = 0\<rparr> w)
         else Some (False, ret, w)
       } else Some (True, ret, rmw_finish idx \<lparr>fe = EMS_TAG_FULL, ty = memType, rw = 0\<rparr> w)
     }
   }"

text \<open>From \<open>retry_on_undefined\<close> on, for an element that exists.\<close>

definition cas_at ::
  "nat \<Rightarrow> int \<Rightarrow> EMSvalueType \<Rightarrow> EMSvalueType \<Rightarrow> EMSvalueType \<Rightarrow> world \<Rightarrow> (bool \<times> EMSvalueType \<times> world) option" where
  "cas_at fuel idx oldValue newValue ret w = do {
     (_, w) \<leftarrow> EMStransitionFEtag fuel (dataIdx idx) (map_tag_of idx (mem w)) EMS_TAG_FULL EMS_TAG_BUSY EMS_TAG_ANY_code w;
     cas_locked fuel idx oldValue newValue ret w
   }"

text \<open>
  An absent key of a mapped array counts as undefined. When undefined is what is asked for, the
  element is made and the operation starts over; otherwise the code goes on to set the tags of
  index \<open>-1\<close>.
\<close>

definition cas_absent ::
  "nat \<Rightarrow> EMSvalueType \<Rightarrow> int \<Rightarrow> EMSvalueType \<Rightarrow> EMSvalueType \<Rightarrow> EMSvalueType \<Rightarrow> world \<Rightarrow>
    (bool \<times> EMSvalueType \<times> world) option" where
  "cas_absent fuel key idx oldValue newValue ret w =
     (let ret = ret\<lparr>vtype := EMS_TYPE_UNDEFINED, val := PInt 0xf00dcafe\<rparr>;
          undef = \<lparr>fe = EMS_TAG_FULL, ty = EMS_TYPE_UNDEFINED, rw = 0\<rparr> in
      if vtype oldValue = EMS_TYPE_UNDEFINED then do {
        (idx, w) \<leftarrow> EMSwriteIndexMap fuel key w;
        if idx < 0 then Some (False, ret, w)
        else cas_at fuel idx oldValue newValue ret
               (upd (set_tag (dataIdx idx) undef) (upd (set_word (dataIdx idx) 0xcafebabe) w))
      } else Some (True, ret, rmw_finish idx undef w))"

definition EMScas ::
  "nat \<Rightarrow> EMSvalueType \<Rightarrow> EMSvalueType \<Rightarrow> EMSvalueType \<Rightarrow> EMSvalueType \<Rightarrow> world \<Rightarrow>
    (bool \<times> EMSvalueType \<times> world) option" where
  "EMScas fuel key oldValue newValue ret w = do {
     (idx, w) \<leftarrow> EMSkey2index fuel key (EMSisMapped (mem w)) w;
     if \<not> EMSisMapped (mem w) \<and> idx < 0 \<or> idx \<ge> nelem (mem w) then Some (False, ret, w)
     else if EMSisMapped (mem w) \<and> idx < 0 then cas_absent fuel key idx oldValue newValue ret w
     else cas_at fuel idx oldValue newValue ret w
   }"

section \<open>Fetch and add\<close>

definition MAX_NUMBER2STR_LEN :: nat where
  "MAX_NUMBER2STR_LEN = 40"

text \<open>The old value, for the caller; a text is copied. \<open>False\<close> is \<open>return false\<close>.\<close>

definition faa_read :: "int \<Rightarrow> ems_type \<Rightarrow> EMSvalueType \<Rightarrow> world \<Rightarrow> (bool \<times> EMSvalueType) option" where
  "faa_read idx t ret w =
     (let x = word (mem w) (dataIdx idx); typed = ret\<lparr>vtype := t\<rparr> in
      if t = EMS_TYPE_BOOLEAN then Some (True, typed\<lparr>val := PInt (if x \<noteq> 0 then 1 else 0)\<rparr>)
      else if t = EMS_TYPE_INTEGER \<or> t = EMS_TYPE_FLOAT then Some (True, typed\<lparr>val := PInt x\<rparr>)
      else if t = EMS_TYPE_STRING then do {
        s \<leftarrow> heapStr (mem w) x;
        Some (if libc_malloc w (length s + 1) then (True, typed\<lparr>val := PStr s\<rparr>) else (False, typed\<lparr>val := PInt 0\<rparr>))
      }
      else if t = EMS_TYPE_UNDEFINED then Some (True, typed\<lparr>val := PInt 0xf00dd00f\<rparr>)
      else Some (False, ret))"

text \<open>
  The sum is stored and its type returned; \<open>None\<close> inside is \<open>return false\<close>. \<open>faa_set\<close> stores a
  number, \<open>faa_text\<close> a text in a new block.
\<close>

definition faa_set :: "nat \<Rightarrow> ems_type \<Rightarrow> int \<Rightarrow> world \<Rightarrow> (ems_type option \<times> world) option" where
  "faa_set a t x w = Some (Some t, upd (set_word a x) w)"

definition faa_text ::
  "nat \<Rightarrow> nat \<Rightarrow> nat \<Rightarrow> ems_type \<Rightarrow> (ems \<Rightarrow> string option) \<Rightarrow> world \<Rightarrow> (ems_type option \<times> world) option" where
  "faa_text fuel a n t text w = do {
     (textOffset, w) \<leftarrow> alloc_text fuel n text w;
     Some (if textOffset < 0 then (None, w) else (Some t, upd (set_word a textOffset) w))
   }"

definition bool_text :: "int \<Rightarrow> string" where
  "bool_text x = (if x \<noteq> 0 then ''true'' else ''false'')"

text \<open>Boolean + value.\<close>

definition faa_bool :: "nat \<Rightarrow> nat \<Rightarrow> EMSvalueType \<Rightarrow> world \<Rightarrow> (ems_type option \<times> world) option" where
  "faa_bool fuel a v w =
     (let x = word (mem w) a in
      if vtype v = EMS_TYPE_INTEGER \<or> vtype v = EMS_TYPE_BOOLEAN then do {
        i \<leftarrow> as_int64 (val v);
        faa_set a EMS_TYPE_INTEGER (wrap64 (x + i)) w
      } else if vtype v = EMS_TYPE_FLOAT then do {
        d \<leftarrow> as_int64 (val v);
        faa_set a EMS_TYPE_FLOAT (dbl_add (dbl_of_int x) d) w
      } else if vtype v = EMS_TYPE_UNDEFINED then faa_set a EMS_TYPE_FLOAT DBL_NAN w
      else if vtype v = EMS_TYPE_STRING then
        faa_text fuel a (len v + 1 + 5) EMS_TYPE_STRING
          (\<lambda>m. map_option (\<lambda>s. bool_text (word m a) @ s) (cstring m (val v))) w
      else Some (None, w))"

text \<open>Integer + value; only the sum of two integers is made a double when it reaches \<open>2 ^ 30\<close>.\<close>

definition faa_int :: "nat \<Rightarrow> nat \<Rightarrow> EMSvalueType \<Rightarrow> world \<Rightarrow> (ems_type option \<times> world) option" where
  "faa_int fuel a v w =
     (let x = word (mem w) a in
      if vtype v = EMS_TYPE_INTEGER then do {
        i \<leftarrow> as_int64 (val v);
        let memInt = wrap64 (x + i);
        if memInt \<ge> 2 ^ 30 then faa_set a EMS_TYPE_FLOAT (dbl_of_int memInt) w
        else faa_set a EMS_TYPE_INTEGER memInt w
      } else if vtype v = EMS_TYPE_FLOAT then do {
        d \<leftarrow> as_int64 (val v);
        faa_set a EMS_TYPE_FLOAT (dbl_add (dbl_of_int x) d) w
      } else if vtype v = EMS_TYPE_UNDEFINED then faa_set a EMS_TYPE_FLOAT DBL_NAN w
      else if vtype v = EMS_TYPE_BOOLEAN then do {
        i \<leftarrow> as_int64 (val v);
        faa_set a EMS_TYPE_INTEGER (wrap64 (x + i)) w
      } else if vtype v = EMS_TYPE_STRING then
        faa_text fuel a (len v + 1 + MAX_NUMBER2STR_LEN) EMS_TYPE_STRING
          (\<lambda>m. map_option (\<lambda>s. fmt_lld (word m a) @ s) (cstring m (val v))) w
      else Some (None, w))"

text \<open>Double + value.\<close>

definition faa_float :: "nat \<Rightarrow> nat \<Rightarrow> EMSvalueType \<Rightarrow> world \<Rightarrow> (ems_type option \<times> world) option" where
  "faa_float fuel a v w =
     (let x = word (mem w) a in
      if vtype v = EMS_TYPE_INTEGER \<or> vtype v = EMS_TYPE_BOOLEAN then do {
        i \<leftarrow> as_int64 (val v);
        faa_set a EMS_TYPE_FLOAT (dbl_add x (dbl_of_int i)) w
      } else if vtype v = EMS_TYPE_FLOAT then do {
        d \<leftarrow> as_int64 (val v);
        faa_set a EMS_TYPE_FLOAT (dbl_add x d) w
      } else if vtype v = EMS_TYPE_STRING then
        faa_text fuel a (len v + 1 + MAX_NUMBER2STR_LEN) EMS_TYPE_STRING
          (\<lambda>m. map_option (\<lambda>s. fmt_lf (word m a) @ s) (cstring m (val v))) w
      else if vtype v = EMS_TYPE_UNDEFINED then faa_set a EMS_TYPE_FLOAT DBL_NAN w
      else Some (None, w))"

text \<open>
  String + value: the text appended and the bytes asked for beside the old string and its NUL; the
  new string is built before the old one is released.
\<close>

definition faa_suffix :: "EMSvalueType \<Rightarrow> ems \<Rightarrow> string option" where
  "faa_suffix v m =
     (if vtype v = EMS_TYPE_INTEGER then map_option fmt_lld (as_int64 (val v))
      else if vtype v = EMS_TYPE_FLOAT then map_option fmt_lf (as_int64 (val v))
      else if vtype v = EMS_TYPE_STRING then cstring m (val v)
      else if vtype v = EMS_TYPE_BOOLEAN then map_option bool_text (as_int64 (val v))
      else Some ''undefined'')"

definition faa_suffix_len :: "EMSvalueType \<Rightarrow> nat" where
  "faa_suffix_len v =
     (if vtype v = EMS_TYPE_INTEGER \<or> vtype v = EMS_TYPE_FLOAT then MAX_NUMBER2STR_LEN
      else if vtype v = EMS_TYPE_STRING then len v
      else if vtype v = EMS_TYPE_BOOLEAN then 5
      else 9)"

definition faa_string :: "nat \<Rightarrow> nat \<Rightarrow> EMSvalueType \<Rightarrow> world \<Rightarrow> (ems_type option \<times> world) option" where
  "faa_string fuel a v w =
     (if vtype v \<in> {EMS_TYPE_INTEGER, EMS_TYPE_FLOAT, EMS_TYPE_STRING, EMS_TYPE_BOOLEAN, EMS_TYPE_UNDEFINED} then do {
        old \<leftarrow> heapStr (mem w) (word (mem w) a);
        (textOffset, w) \<leftarrow> alloc_text fuel (length old + 1 + faa_suffix_len v)
          (\<lambda>m. do { s \<leftarrow> heapStr m (word m a); t \<leftarrow> faa_suffix v m; Some (s @ t) }) w;
        if textOffset < 0 then Some (None, w)
        else do {
          w \<leftarrow> emsMutexMem_free fuel (word (mem w) a) w;
          faa_set a EMS_TYPE_STRING textOffset w
        }
      } else Some (None, w))"

text \<open>Undefined + value; with a string the text is stored, but the type stays undefined.\<close>

definition faa_undef :: "nat \<Rightarrow> nat \<Rightarrow> EMSvalueType \<Rightarrow> world \<Rightarrow> (ems_type option \<times> world) option" where
  "faa_undef fuel a v w =
     (if vtype v \<in> {EMS_TYPE_INTEGER, EMS_TYPE_FLOAT, EMS_TYPE_BOOLEAN, EMS_TYPE_UNDEFINED}
      then faa_set a EMS_TYPE_FLOAT DBL_NAN w
      else if vtype v = EMS_TYPE_STRING then
        faa_text fuel a (len v + 1 + 3) EMS_TYPE_UNDEFINED
          (\<lambda>m. map_option (\<lambda>s. ''NaN'' @ s) (cstring m (val v))) w
      else Some (None, w))"

definition faa_update :: "nat \<Rightarrow> nat \<Rightarrow> ems_type \<Rightarrow> EMSvalueType \<Rightarrow> world \<Rightarrow> (ems_type option \<times> world) option" where
  "faa_update fuel a t v w =
     (if t = EMS_TYPE_BOOLEAN then faa_bool fuel a v w
      else if t = EMS_TYPE_INTEGER then faa_int fuel a v w
      else if t = EMS_TYPE_FLOAT then faa_float fuel a v w
      else if t = EMS_TYPE_STRING then faa_string fuel a v w
      else faa_undef fuel a v w)"

text \<open>Under the lock; \<open>oldTag\<close> is the tag the transition returned.\<close>

definition faa_locked ::
  "nat \<Rightarrow> int \<Rightarrow> EMStag_t \<Rightarrow> EMSvalueType \<Rightarrow> EMSvalueType \<Rightarrow> world \<Rightarrow> (bool \<times> EMSvalueType \<times> world) option" where
  "faa_locked fuel idx oldTag v ret w = do {
     (ok, ret) \<leftarrow> faa_read idx (ty oldTag) ret w;
     if \<not> ok then Some (False, ret, w)
     else do {
       (newType, w) \<leftarrow> faa_update fuel (dataIdx idx) (ty oldTag) v w;
       (case newType of
          None \<Rightarrow> Some (False, ret, w)
        | Some t \<Rightarrow> Some (True, ret, rmw_finish idx (oldTag\<lparr>fe := EMS_TAG_FULL, ty := t\<rparr>) w))
     }
   }"

definition faa_at ::
  "nat \<Rightarrow> int \<Rightarrow> EMSvalueType \<Rightarrow> EMSvalueType \<Rightarrow> world \<Rightarrow> (bool \<times> EMSvalueType \<times> world) option" where
  "faa_at fuel idx v ret w = do {
     (oldTag, w) \<leftarrow> EMStransitionFEtag fuel (dataIdx idx) (map_tag_of idx (mem w)) EMS_TAG_FULL EMS_TAG_BUSY EMS_TAG_ANY_code w;
     faa_locked fuel idx oldTag v ret w
   }"

definition EMSfaa ::
  "nat \<Rightarrow> EMSvalueType \<Rightarrow> EMSvalueType \<Rightarrow> EMSvalueType \<Rightarrow> world \<Rightarrow> (bool \<times> EMSvalueType \<times> world) option" where
  "EMSfaa fuel key v ret w = do {
     (idx, w) \<leftarrow> EMSwriteIndexMap fuel key w;
     if idx < 0 \<or> idx \<ge> nelem (mem w) then Some (False, ret, w)
     else faa_at fuel idx v ret w
   }"

end
