(* ===== verification/EmsContainer.thy ===== *)
theory EmsContainer
  imports EmsData "HOL-Library.Sublist"
begin

text \<open>
  What the stack and the queue have in common, as an interface: a buffer represents a list of
  data, putting a value appends its datum, getting one takes out the datum that the discipline
  selects. Proved once for every such container: any sequence of operations answers as the
  abstract list does.
\<close>

section \<open>Programs over a container\<close>

datatype container_op = Put EMSvalueType | Get

text \<open>The same program on the abstract list; a \<open>Get\<close> on the empty list answers undefined.\<close>

datatype abstract_op = APut datum | AGet

fun abstract_run :: "(datum list \<Rightarrow> datum \<times> datum list) \<Rightarrow> abstract_op list \<Rightarrow> datum list \<Rightarrow> datum list" where
  "abstract_run pick [] ds = []"
| "abstract_run pick (APut d # ops) ds = abstract_run pick ops (ds @ [d])"
| "abstract_run pick (AGet # ops) ds =
     (if ds = [] then DUndef # abstract_run pick ops []
      else fst (pick ds) # abstract_run pick ops (snd (pick ds)))"

text \<open>
  A client that performs the operations and keeps the data it gets. It stops when a put
  returns \<open>-1\<close>; the flag tells whether it performed them all.
\<close>

fun run_ops ::
  "(EMSvalueType \<Rightarrow> world \<Rightarrow> (int \<times> world) option) \<Rightarrow>
   (EMSvalueType \<Rightarrow> world \<Rightarrow> (bool \<times> EMSvalueType \<times> world) option) \<Rightarrow>
   container_op list \<Rightarrow> world \<Rightarrow> (bool \<times> datum option list \<times> world) option" where
  "run_ops put get [] w = Some (True, [], w)"
| "run_ops put get (Put v # ops) w = do {
     (r, w) \<leftarrow> put v w;
     if r < 0 then Some (False, [], w) else run_ops put get ops w
   }"
| "run_ops put get (Get # ops) w = do {
     (_, v, w) \<leftarrow> get \<lparr>len = 0, val = PInt 0, vtype = EMS_TYPE_INVALID\<rparr> w;
     (fin, outs, w') \<leftarrow> run_ops put get ops w;
     Some (fin, value_datum (mem w) v # outs, w')
   }"

text \<open>The values passed in stand for data whose texts can be requested from the allocator.\<close>

definition op_datum :: "container_op \<Rightarrow> abstract_op \<Rightarrow> bool" where
  "op_datum x y = (case x of
       Put v \<Rightarrow> (case y of
           APut d \<Rightarrow> (\<forall>m. value_datum m v = Some d) \<and> request_ok (datum_bytes d)
         | AGet \<Rightarrow> False)
     | Get \<Rightarrow> y = AGet)"

definition op_text :: "container_op \<Rightarrow> bool" where
  "op_text x = (case x of Put v \<Rightarrow> is_text (vtype v) | Get \<Rightarrow> False)"

definition op_copy_ok :: "world \<Rightarrow> bool" where
  "op_copy_ok w \<longleftrightarrow> (\<forall>n. libc_malloc w n)"

fun n_puts :: "container_op list \<Rightarrow> nat" where
  "n_puts [] = 0"
| "n_puts (Put v # ops) = Suc (n_puts ops)"
| "n_puts (Get # ops) = n_puts ops"

section \<open>The interface\<close>

text \<open>\<open>room m ds k\<close>: the container has room for \<open>k\<close> more puts.\<close>

locale container =
  fixes rep :: "ems \<Rightarrow> datum list \<Rightarrow> bool"
    and room :: "ems \<Rightarrow> datum list \<Rightarrow> nat \<Rightarrow> bool"
    and pick :: "datum list \<Rightarrow> datum \<times> datum list"
    and put :: "nat \<Rightarrow> EMSvalueType \<Rightarrow> world \<Rightarrow> (int \<times> world) option"
    and get :: "nat \<Rightarrow> EMSvalueType \<Rightarrow> world \<Rightarrow> (bool \<times> EMSvalueType \<times> world) option"
  assumes put_appends: "quiet w \<Longrightarrow> rep (mem w) ds \<Longrightarrow> room (mem w) ds (Suc k) \<Longrightarrow> 0 < fuel \<Longrightarrow>
        value_datum (mem w) v = Some d \<Longrightarrow> request_ok (datum_bytes d) \<Longrightarrow>
        \<exists>r w'. put fuel v w = Some (r, w') \<and> quiet w' \<and> libc_malloc w' = libc_malloc w \<and>
          (0 \<le> r \<and> rep (mem w') (ds @ [d]) \<and> room (mem w') (ds @ [d]) k \<or> r = - 1 \<and> is_text (vtype v))"
    and get_picks: "quiet w \<Longrightarrow> rep (mem w) ds \<Longrightarrow> ds \<noteq> [] \<Longrightarrow> room (mem w) ds k \<Longrightarrow> 0 < fuel \<Longrightarrow>
        op_copy_ok w \<Longrightarrow>
        \<exists>v w'. get fuel ret w = Some (True, v, w') \<and> quiet w' \<and> libc_malloc w' = libc_malloc w \<and>
          rep (mem w') (snd (pick ds)) \<and> room (mem w') (snd (pick ds)) k \<and>
          value_datum (mem w') v = Some (fst (pick ds))"
    and get_empty: "quiet w \<Longrightarrow> rep (mem w) [] \<Longrightarrow> 0 < fuel \<Longrightarrow>
        \<exists>v w'. get fuel ret w = Some (True, v, w') \<and> quiet w' \<and> libc_malloc w' = libc_malloc w \<and>
          mem w' = mem w \<and> value_datum (mem w') v = Some DUndef"
begin

text \<open>
  The client gets what the abstract list gives; it stops early only at a text that found no
  memory, and then what it got is a prefix.
\<close>

lemma run_refines:
  assumes "quiet w" "rep (mem w) ds" "room (mem w) ds (n_puts ops + k)" "0 < fuel" "op_copy_ok w"
    and "list_all2 op_datum ops aops"
  shows "\<exists>fin outs w'. run_ops (put fuel) (get fuel) ops w = Some (fin, outs, w') \<and>
    (if fin then outs = map Some (abstract_run pick aops ds)
     else list_ex op_text ops \<and> prefix outs (map Some (abstract_run pick aops ds)))"
  using assms
proof (induction ops arbitrary: aops ds w)
  case (Cons x ops)
  from Cons.prems(6) obtain y bops where aops: "aops = y # bops" "op_datum x y" "list_all2 op_datum ops bops"
    by (auto simp: list_all2_Cons1)
  show ?case
  proof (cases x)
    case (Put v)
    then obtain d where y: "y = APut d" "value_datum (mem w) v = Some d" "request_ok (datum_bytes d)"
      using aops(2) by (auto simp: op_datum_def split: abstract_op.splits)
    from Cons.prems Put have rm: "room (mem w) ds (Suc (n_puts ops + k))" by simp
    from put_appends [OF Cons.prems(1,2) rm Cons.prems(4) y(2,3)] obtain r w' where
      p: "put fuel v w = Some (r, w')" "quiet w'" "libc_malloc w' = libc_malloc w" and
      c: "0 \<le> r \<and> rep (mem w') (ds @ [d]) \<and> room (mem w') (ds @ [d]) (n_puts ops + k) \<or>
          r = - 1 \<and> is_text (vtype v)" by blast
    show ?thesis
    proof (cases "r < 0")
      case True
      then show ?thesis using p c Put by (intro exI [of _ False]) (simp add: op_text_def)
    next
      case False
      with c p Cons.prems(5) have "quiet w'" "rep (mem w') (ds @ [d])"
        "room (mem w') (ds @ [d]) (n_puts ops + k)" "op_copy_ok w'" by (auto simp: op_copy_ok_def)
      from Cons.IH [OF this(1-3) Cons.prems(4) this(4) aops(3)] obtain fin outs w'' where
        h: "run_ops (put fuel) (get fuel) ops w' = Some (fin, outs, w'')"
        "if fin then outs = map Some (abstract_run pick bops (ds @ [d]))
         else list_ex op_text ops \<and> prefix outs (map Some (abstract_run pick bops (ds @ [d])))" by blast
      then show ?thesis using p False Put y(1) aops(1) by (cases fin) auto
    qed
  next
    case Get
    then have y: "y = AGet" using aops(2) by (simp add: op_datum_def)
    let ?ret = "\<lparr>len = 0, val = PInt 0, vtype = EMS_TYPE_INVALID\<rparr>"
    define e es where "e = (if ds = [] then DUndef else fst (pick ds))"
      and "es = (if ds = [] then [] else snd (pick ds))"
    have rm: "room (mem w) ds (n_puts ops + k)" using Cons.prems(3) Get by simp
    have "\<exists>v w'. get fuel ?ret w = Some (True, v, w') \<and> quiet w' \<and> libc_malloc w' = libc_malloc w \<and>
        rep (mem w') es \<and> room (mem w') es (n_puts ops + k) \<and> value_datum (mem w') v = Some e"
    proof (cases "ds = []")
      case True
      then show ?thesis using get_empty [of w fuel ?ret] Cons.prems(1,2,4) rm
        by (fastforce simp: e_def es_def)
    next
      case False
      then show ?thesis using get_picks [OF Cons.prems(1,2) False rm Cons.prems(4,5), of ?ret]
        by (simp add: e_def es_def)
    qed
    then obtain v w' where g: "get fuel ?ret w = Some (True, v, w')" "quiet w'"
      "libc_malloc w' = libc_malloc w" "rep (mem w') es" "room (mem w') es (n_puts ops + k)"
      "value_datum (mem w') v = Some e" by blast
    then have "op_copy_ok w'" using Cons.prems(5) by (simp add: op_copy_ok_def)
    from Cons.IH [OF g(2,4,5) Cons.prems(4) this aops(3)] obtain fin outs w'' where
      h: "run_ops (put fuel) (get fuel) ops w' = Some (fin, outs, w'')"
      "if fin then outs = map Some (abstract_run pick bops es)
       else list_ex op_text ops \<and> prefix outs (map Some (abstract_run pick bops es))" by blast
    have "abstract_run pick aops ds = e # abstract_run pick bops es"
      using aops(1) y by (simp add: e_def es_def)
    then show ?thesis using g h Get by (cases fin) auto
  qed
qed auto

end

end
