(* ===== verification/EmsStack.thy ===== *)
theory EmsStack
  imports EmsContainer
begin

text \<open>
  An EMS array used as a stack: \<open>EMSpush\<close> and \<open>EMSpop\<close> of \<open>src/primitives.cc\<close>.
  The word \<open>EMS_ARR_STACKTOP\<close> counts the elements; its tag is the lock of the stack.
\<close>

section \<open>Push and pop\<close>

text \<open>
  The tag bytes are C bit fields: assigning a field keeps the others. The index is an
  \<open>int32_t\<close>, so the 64-bit top is truncated. The two \<open>return -1\<close> of the code leave the
  stack top incremented and its tag busy.
\<close>

definition EMSpush :: "nat \<Rightarrow> EMSvalueType \<Rightarrow> world \<Rightarrow> (int \<times> world) option" where
  "EMSpush fuel v w = do {
     (_, w) \<leftarrow> EMStransitionFEtag fuel EMS_ARR_STACKTOP None EMS_TAG_FULL EMS_TAG_BUSY EMS_TAG_ANY_code w;
     let idx = wrap32 (word (mem w) EMS_ARR_STACKTOP);
     let w = upd (\<lambda>m. set_word EMS_ARR_STACKTOP (wrap64 (word m EMS_ARR_STACKTOP + 1)) m) w;
     if idx = wrap64 (nelem (mem w) - 1) then Some (- 1, w)
     else do {
       (newTag, w) \<leftarrow> EMStransitionFEtag fuel (dataIdx idx) None EMS_TAG_EMPTY EMS_TAG_BUSY EMS_TAG_ANY_code w;
       let newTag = newTag\<lparr>rw := 0, ty := vtype v, fe := EMS_TAG_FULL\<rparr>;
       (stored, w) \<leftarrow> write_value fuel (dataIdx idx) v w;
       if \<not> stored then Some (- 1, w)
       else do {
         let w = upd (set_tag (dataIdx idx) newTag) w;
         let w = upd (set_fe EMS_ARR_STACKTOP EMS_TAG_FULL) w;
         Some (idx, w)
       }
     }
   }"

text \<open>
  \<open>EMSpop\<close> fills the fields \<open>type\<close> and \<open>value\<close> of the value it is passed; a string is
  copied to memory from the C library's \<open>malloc\<close>.
\<close>

definition EMSpop :: "nat \<Rightarrow> EMSvalueType \<Rightarrow> world \<Rightarrow> (bool \<times> EMSvalueType \<times> world) option" where
  "EMSpop fuel ret w = do {
     (_, w) \<leftarrow> EMStransitionFEtag fuel EMS_ARR_STACKTOP None EMS_TAG_FULL EMS_TAG_BUSY EMS_TAG_ANY_code w;
     let w = upd (\<lambda>m. set_word EMS_ARR_STACKTOP (wrap64 (word m EMS_ARR_STACKTOP - 1)) m) w;
     let idx = word (mem w) EMS_ARR_STACKTOP;
     if idx < 0 then do {
       let w = upd (set_word EMS_ARR_STACKTOP 0) w;
       let w = upd (set_fe EMS_ARR_STACKTOP EMS_TAG_FULL) w;
       Some (True, ret\<lparr>vtype := EMS_TYPE_UNDEFINED, val := PInt 0xf00dd00f\<rparr>, w)
     } else do {
       (dataTag, w) \<leftarrow> EMStransitionFEtag fuel (dataIdx idx) None EMS_TAG_FULL EMS_TAG_BUSY EMS_TAG_ANY_code w;
       let ret = ret\<lparr>vtype := ty dataTag\<rparr>;
       if ty dataTag \<in> {EMS_TYPE_BOOLEAN, EMS_TYPE_INTEGER, EMS_TYPE_FLOAT} then do {
         let ret = ret\<lparr>val := PInt (word (mem w) (dataIdx idx))\<rparr>;
         let w = upd (set_fe (dataIdx idx) EMS_TAG_EMPTY) w;
         let w = upd (set_fe EMS_ARR_STACKTOP EMS_TAG_FULL) w;
         Some (True, ret, w)
       } else if ty dataTag \<in> {EMS_TYPE_JSON, EMS_TYPE_STRING} then do {
         s \<leftarrow> heapStr (mem w) (word (mem w) (dataIdx idx));
         if \<not> libc_malloc w (length s + 1) then Some (False, ret\<lparr>val := PInt 0\<rparr>, w)
         else do {
           w \<leftarrow> emsMutexMem_free fuel (word (mem w) (dataIdx idx)) w;
           let w = upd (set_fe (dataIdx idx) EMS_TAG_EMPTY) w;
           let w = upd (set_fe EMS_ARR_STACKTOP EMS_TAG_FULL) w;
           Some (True, ret\<lparr>val := PStr s\<rparr>, w)
         }
       } else if ty dataTag = EMS_TYPE_UNDEFINED then do {
         let w = upd (set_fe (dataIdx idx) EMS_TAG_EMPTY) w;
         let w = upd (set_fe EMS_ARR_STACKTOP EMS_TAG_FULL) w;
         Some (True, ret\<lparr>val := PInt 0xdeadbeef\<rparr>, w)
       } else Some (False, ret, w)
     }
   }"

section \<open>The abstract stack\<close>

text \<open>
  \<open>stack_rep m ds\<close>: the buffer \<open>m\<close> holds the stack \<open>ds\<close> (top last) and nobody is
  using it: the elements below the top are full, the others empty.
\<close>

definition stack_slot :: "nat \<Rightarrow> nat" where
  "stack_slot i = dataIdx (int i)"

definition stack_rep :: "ems \<Rightarrow> datum list \<Rightarrow> bool" where
  "stack_rep m ds \<longleftrightarrow>
     word m EMS_ARR_STACKTOP = int (length ds) \<and> fe (tag m EMS_ARR_STACKTOP) = EMS_TAG_FULL \<and>
     int (length ds) < nelem m \<and> nelem m < 2 ^ 31 \<and>
     slots_rep m stack_slot ds \<and> owned m (texts m (slots stack_slot (length ds))) \<and>
     (\<forall>i. length ds \<le> i \<and> int i < nelem m \<longrightarrow> fe (tag m (stack_slot i)) = EMS_TAG_EMPTY)"

lemma stack_slot_eq [simp]: "stack_slot i = stack_slot j \<longleftrightarrow> i = j"
  by (simp add: stack_slot_def)

lemma stack_slot_cb [simp]:
  "stack_slot i \<noteq> EMS_ARR_NELEM" "stack_slot i \<noteq> EMS_ARR_STACKTOP" "stack_slot i \<noteq> EMS_ARR_MEM_MUTEX"
  "EMS_ARR_NELEM \<noteq> stack_slot i" "EMS_ARR_STACKTOP \<noteq> stack_slot i" "EMS_ARR_MEM_MUTEX \<noteq> stack_slot i"
  by (simp_all add: stack_slot_def)

lemma stack_top_fresh: "stack_slot n \<notin> slots stack_slot n"
  by (auto simp: slots_iff)

lemma stack_texts_cb:
  "b \<in> texts m (slots stack_slot n) \<Longrightarrow> b \<noteq> EMS_ARR_STACKTOP \<and> b \<noteq> EMS_ARR_MEM_MUTEX \<and> b \<noteq> stack_slot n"
  by (auto simp: texts_def slots_iff)

section \<open>Push\<close>

lemma stack_rep_snoc:
  assumes rep: "stack_rep m ds" and room: "int (length ds) + 1 < nelem m"
    and a: "a = stack_slot (length ds)"
    and top: "word m' EMS_ARR_STACKTOP = int (length ds) + 1" "fe (tag m' EMS_ARR_STACKTOP) = EMS_TAG_FULL"
    and n: "nelem m' = nelem m"
    and t: "fe (tag m' a) = EMS_TAG_FULL" "slot_datum m' a = Some d"
    and frame: "\<And>i. stack_slot i \<noteq> a \<Longrightarrow>
        tag m' (stack_slot i) = tag m (stack_slot i) \<and> word m' (stack_slot i) = word m (stack_slot i)"
    and str: "\<And>b. b \<in> texts m (slots stack_slot (length ds)) \<Longrightarrow> heapStr m' (word m b) = heapStr m (word m b)"
    and own: "owned m' (if is_text (ty (tag m' a)) then insert a (texts m (slots stack_slot (length ds)))
                        else texts m (slots stack_slot (length ds)))"
  shows "stack_rep m' (ds @ [d])"
proof -
  let ?S = "slots stack_slot (length ds)"
  have fr: "tag m' b = tag m b \<and> word m' b = word m b" if "b \<in> ?S" for b
  proof -
    from that obtain i where "i < length ds" "b = stack_slot i" by (auto simp: slots_iff)
    then show ?thesis using frame [of i] a by simp
  qed
  have "slots_rep m' stack_slot ds"
    by (rule slots_frame [OF _ fr str]) (use rep in \<open>simp_all add: stack_rep_def\<close>)
  then have "slots_rep m' stack_slot (ds @ [d])"
    using t a stack_top_fresh by (simp add: slots_snoc)
  moreover have "texts m' ?S = texts m ?S" using fr by (intro texts_cong) simp
  then have "owned m' (texts m' (slots stack_slot (length (ds @ [d]))))"
    using own unfolding a by (simp add: slots_Suc texts_insert split: if_splits)
  moreover have "fe (tag m' (stack_slot i)) = EMS_TAG_EMPTY" if "length (ds @ [d]) \<le> i" "int i < nelem m'" for i
  proof -
    from that a have "stack_slot i \<noteq> a" by simp
    moreover from that rep n have "fe (tag m (stack_slot i)) = EMS_TAG_EMPTY" by (simp add: stack_rep_def)
    ultimately show ?thesis using frame by simp
  qed
  ultimately show ?thesis
    using rep room top n by (simp add: stack_rep_def)
qed

lemma EMSpush_spec:
  assumes q: "quiet w" and rep: "stack_rep (mem w) ds" and room: "int (length ds) + 1 < nelem (mem w)"
    and fuel: "0 < fuel" and d: "value_datum (mem w) v = Some d" and n: "request_ok (datum_bytes d)"
  shows "\<exists>r w'. EMSpush fuel v w = Some (r, w') \<and> quiet w' \<and> libc_malloc w' = libc_malloc w \<and>
    nelem (mem w') = nelem (mem w) \<and>
    (r = int (length ds) \<and> stack_rep (mem w') (ds @ [d]) \<or>
     r = - 1 \<and> is_text (vtype v) \<and>
       emsMem_alloc (malloc (mem w)) (datum_bytes d) = Some (- 1, malloc (mem w)))"
proof -
  let ?a = "stack_slot (length ds)" and ?T = "texts (mem w) (slots stack_slot (length ds))"
  let ?n = "int (length ds)"
  define nt where "nt = (tag (mem w) ?a)\<lparr>fe := EMS_TAG_BUSY, rw := 0, ty := vtype v, fe := EMS_TAG_FULL\<rparr>"
  define w1 where "w1 = upd (\<lambda>m. set_word EMS_ARR_STACKTOP (wrap64 (word m EMS_ARR_STACKTOP + 1)) m)
                          (upd (set_fe EMS_ARR_STACKTOP EMS_TAG_BUSY) (yield w))"
  define w2 where "w2 = upd (set_fe ?a EMS_TAG_BUSY) (yield w1)"
  have top: "word (mem w) EMS_ARR_STACKTOP = ?n" "fe (tag (mem w) EMS_ARR_STACKTOP) = EMS_TAG_FULL"
    and bnd: "nelem (mem w) < 2 ^ 31" and empty: "fe (tag (mem w) ?a) = EMS_TAG_EMPTY"
    and own: "owned (mem w) ?T"
    using rep room by (auto simp: stack_rep_def)
  have w1: "quiet w1" "libc_malloc w1 = libc_malloc w"
    "mem w1 = set_word EMS_ARR_STACKTOP (?n + 1) (set_fe EMS_ARR_STACKTOP EMS_TAG_BUSY (mem w))"
    using q top(1) bnd room by (simp_all add: w1_def)
  have w2: "quiet w2" "libc_malloc w2 = libc_malloc w" "mem w2 = set_fe ?a EMS_TAG_BUSY (mem w1)"
    using w1 by (simp_all add: w2_def)
  have tr1: "EMStransitionFEtag fuel EMS_ARR_STACKTOP None EMS_TAG_FULL EMS_TAG_BUSY EMS_TAG_ANY_code w
     = Some ((tag (mem w) EMS_ARR_STACKTOP)\<lparr>fe := EMS_TAG_BUSY\<rparr>, upd (set_fe EMS_ARR_STACKTOP EMS_TAG_BUSY) (yield w))"
    using q top(2) fuel by (rule transition_quiet)
  have tr2: "EMStransitionFEtag fuel ?a None EMS_TAG_EMPTY EMS_TAG_BUSY EMS_TAG_ANY_code w1
     = Some ((tag (mem w) ?a)\<lparr>fe := EMS_TAG_BUSY\<rparr>, w2)"
    using transition_quiet [of w1 ?a EMS_TAG_EMPTY fuel None EMS_TAG_BUSY] w1 empty fuel
    by (simp add: w2_def)
  have idx: "wrap32 (word (mem (upd (set_fe EMS_ARR_STACKTOP EMS_TAG_BUSY) (yield w))) EMS_ARR_STACKTOP) = ?n"
    "?n \<noteq> wrap64 (nelem (mem w1) - 1)" "nelem (mem w1) = nelem (mem w)"
    using q top(1) bnd room w1(3) by simp_all
  have step: "EMSpush fuel v w = (do {
       (stored, w) \<leftarrow> write_value fuel ?a v w2;
       if \<not> stored then Some (- 1, w)
       else Some (?n, upd (set_fe EMS_ARR_STACKTOP EMS_TAG_FULL) (upd (set_tag ?a nt) w))
     })"
    unfolding EMSpush_def tr1 Option.bind.simps prod.case Let_def idx(1) w1_def [symmetric]
    by (simp add: stack_slot_def [symmetric] idx(2) tr2 nt_def cong: if_cong)
  have own2: "owned (mem w2) ?T"
    using own w2(3) w1(3) by (auto simp: owned_set_word texts_def slots_iff)
  have dv: "value_datum (mem w2) v = Some d" using d w2(3) w1(3) by simp
  have al: "malloc (mem w2) = malloc (mem w)" using w2(3) w1(3) by simp
  have a: "?a \<notin> ?T" "?a \<noteq> EMS_ARR_MEM_MUTEX" by (auto simp: texts_def slots_iff)
  from own2 a fuel dv n show ?thesis
  proof (cases rule: write_value_quiet)
    case 1
    then show ?thesis using step al w2 w1 idx(3) by simp
  next
    case (2 m')
    let ?m' = "set_fe EMS_ARR_STACKTOP EMS_TAG_FULL (set_tag ?a nt m')"
    have m: "word m' = (word (mem w2))(?a := word m' ?a)" "tag m' = tag (mem w2)" using 2 by simp_all
    have nel: "nelem ?m' = nelem (mem w)"
      using idx(3) w2(3) by (simp add: nelem_def) (subst m(1), simp)
    have "stack_rep ?m' (ds @ [d])"
    proof (rule stack_rep_snoc [OF rep room refl])
      show "word ?m' EMS_ARR_STACKTOP = ?n + 1"
        using w2(3) w1(3) by simp (subst m(1), simp)
      show "nelem ?m' = nelem (mem w)" by (rule nel)
    next
      show "tag ?m' (stack_slot i) = tag (mem w) (stack_slot i) \<and> word ?m' (stack_slot i) = word (mem w) (stack_slot i)"
        if "stack_slot i \<noteq> ?a" for i
        using that w2(3) w1(3) m(2) by simp (subst m(1), simp)
    next
      show "heapStr ?m' (word (mem w) b) = heapStr (mem w) (word (mem w) b)"
        if "b \<in> ?T" for b
      proof -
        have "word (mem w2) b = word (mem w) b" "heapStr (mem w2) x = heapStr (mem w) x" for x
          using that w2(3) w1(3) by (auto simp: texts_def slots_iff)
        then show ?thesis using 2(6) [OF that] by simp
      qed
    qed (use 2 w2(3) w1(3) in \<open>simp_all add: nt_def slot_datum_def\<close>)
    moreover have "EMSpush fuel v w = Some (?n, upd (\<lambda>_. ?m') w2)"
      using step 2(1) by (simp add: upd_def)
    ultimately show ?thesis
      using w2 w1 nel by (intro exI [of _ ?n] exI [of _ "upd (\<lambda>_. ?m') w2"]) simp
  qed
qed

section \<open>Pop\<close>

lemma stack_rep_butlast:
  assumes rep: "stack_rep m (ds @ [d])" and a: "a = stack_slot (length ds)"
    and top: "word m' EMS_ARR_STACKTOP = int (length ds)" "fe (tag m' EMS_ARR_STACKTOP) = EMS_TAG_FULL"
    and n: "nelem m' = nelem m" and t: "fe (tag m' a) = EMS_TAG_EMPTY"
    and frame: "\<And>i. stack_slot i \<noteq> a \<Longrightarrow>
        tag m' (stack_slot i) = tag m (stack_slot i) \<and> word m' (stack_slot i) = word m (stack_slot i)"
    and str: "\<And>b. b \<in> texts m (slots stack_slot (length ds)) \<Longrightarrow> heapStr m' (word m b) = heapStr m (word m b)"
    and own: "owned m' (texts m (slots stack_slot (length ds)))"
  shows "stack_rep m' ds"
proof -
  let ?S = "slots stack_slot (length ds)"
  have fr: "tag m' b = tag m b \<and> word m' b = word m b" if "b \<in> ?S" for b
  proof -
    from that obtain i where "i < length ds" "b = stack_slot i" by (auto simp: slots_iff)
    then show ?thesis using frame [of i] a by simp
  qed
  have "slots_rep m' stack_slot ds"
    by (rule slots_frame [OF _ fr str]) (use rep in \<open>simp_all add: stack_rep_def slots_snoc\<close>)
  moreover have "texts m' ?S = texts m ?S" using fr by (intro texts_cong) simp
  moreover have "fe (tag m' (stack_slot i)) = EMS_TAG_EMPTY" if "length ds \<le> i" "int i < nelem m'" for i
  proof (cases "i = length ds")
    case False
    with a have "stack_slot i \<noteq> a" by simp
    moreover from False that rep n have "fe (tag m (stack_slot i)) = EMS_TAG_EMPTY" by (simp add: stack_rep_def)
    ultimately show ?thesis using frame by simp
  qed (use t a in simp)
  ultimately show ?thesis
    using rep own top n by (simp add: stack_rep_def)
qed

text \<open>The bytes \<open>EMSpop\<close> asks of the C library's \<open>malloc\<close>.\<close>

definition copy_ok :: "world \<Rightarrow> datum \<Rightarrow> bool" where
  "copy_ok w d \<longleftrightarrow> libc_malloc w (datum_bytes d)"

lemma EMSpop_spec:
  assumes q: "quiet w" and rep: "stack_rep (mem w) (ds @ [d])" and fuel: "0 < fuel" and cp: "copy_ok w d"
  shows "\<exists>v w'. EMSpop fuel ret w = Some (True, v, w') \<and> quiet w' \<and> libc_malloc w' = libc_malloc w \<and>
    nelem (mem w') = nelem (mem w) \<and> stack_rep (mem w') ds \<and> value_datum (mem w') v = Some d"
proof -
  let ?a = "stack_slot (length ds)" and ?T = "texts (mem w) (slots stack_slot (length (ds @ [d])))"
  let ?n = "int (length ds)" and ?T' = "texts (mem w) (slots stack_slot (length ds))"
  define w1 where "w1 = upd (\<lambda>m. set_word EMS_ARR_STACKTOP (wrap64 (word m EMS_ARR_STACKTOP - 1)) m)
                          (upd (set_fe EMS_ARR_STACKTOP EMS_TAG_BUSY) (yield w))"
  define w2 where "w2 = upd (set_fe ?a EMS_TAG_BUSY) (yield w1)"
  have top: "word (mem w) EMS_ARR_STACKTOP = ?n + 1" "fe (tag (mem w) EMS_ARR_STACKTOP) = EMS_TAG_FULL"
    and bnd: "?n + 1 < nelem (mem w)" "nelem (mem w) < 2 ^ 31"
    and full: "fe (tag (mem w) ?a) = EMS_TAG_FULL" "slot_datum (mem w) ?a = Some d"
    and own: "owned (mem w) ?T"
    using rep by (auto simp: stack_rep_def slots_snoc)
  have w1: "quiet w1" "libc_malloc w1 = libc_malloc w"
    "mem w1 = set_word EMS_ARR_STACKTOP ?n (set_fe EMS_ARR_STACKTOP EMS_TAG_BUSY (mem w))"
    using q top(1) bnd by (simp_all add: w1_def)
  have w2: "quiet w2" "libc_malloc w2 = libc_malloc w" "mem w2 = set_fe ?a EMS_TAG_BUSY (mem w1)"
    using w1 by (simp_all add: w2_def)
  have tr1: "EMStransitionFEtag fuel EMS_ARR_STACKTOP None EMS_TAG_FULL EMS_TAG_BUSY EMS_TAG_ANY_code w
     = Some ((tag (mem w) EMS_ARR_STACKTOP)\<lparr>fe := EMS_TAG_BUSY\<rparr>, upd (set_fe EMS_ARR_STACKTOP EMS_TAG_BUSY) (yield w))"
    using q top(2) fuel by (rule transition_quiet)
  have tr2: "EMStransitionFEtag fuel ?a None EMS_TAG_FULL EMS_TAG_BUSY EMS_TAG_ANY_code w1
     = Some ((tag (mem w) ?a)\<lparr>fe := EMS_TAG_BUSY\<rparr>, w2)"
    using transition_quiet [of w1 ?a EMS_TAG_FULL fuel None EMS_TAG_BUSY] w1 full fuel
    by (simp add: w2_def)
  define fin where "fin w = upd (set_fe EMS_ARR_STACKTOP EMS_TAG_FULL) (upd (set_fe ?a EMS_TAG_EMPTY) w)" for w
  let ?t = "ty (tag (mem w) ?a)" and ?x = "word (mem w) ?a"
  have x: "word (mem w1) EMS_ARR_STACKTOP = ?n" "word (mem w2) ?a = ?x" using w1 w2 by simp_all
  have own2: "owned (mem w2) ?T" "owned (mem w2) ?T'"
    and hs: "\<And>b. heapStr (mem w2) b = heapStr (mem w) b"
    using own w2(3) w1(3) owned_subset [of "mem w" ?T ?T']
    by (auto simp: owned_set_word texts_def slots_iff slots_Suc)
  have finish: "stack_rep (mem (fin (upd (\<lambda>_. m') w2))) ds \<and> nelem (mem (fin (upd (\<lambda>_. m') w2))) = nelem (mem w)"
    if m': "word m' = word (mem w2)" "tag m' = tag (mem w2)" "owned m' ?T'"
      "\<And>b. b \<in> ?T' \<Longrightarrow> heapStr m' (word (mem w) b) = heapStr (mem w) (word (mem w) b)" for m'
  proof -
    have n: "nelem (mem (fin (upd (\<lambda>_. m') w2))) = nelem (mem w)"
      using w2(3) w1(3) by (simp add: fin_def nelem_def m'(1))
    moreover have "stack_rep (mem (fin (upd (\<lambda>_. m') w2))) ds"
      by (rule stack_rep_butlast [OF rep refl]) (use n w2(3) w1(3) m' in \<open>simp_all add: fin_def\<close>)
    ultimately show ?thesis by blast
  qed
  show ?thesis
  proof (cases "is_text ?t")
    case False
    define v where "v = ret\<lparr>vtype := ?t, val := PInt (if ?t = EMS_TYPE_UNDEFINED then 0xdeadbeef else ?x)\<rparr>"
    have "?t \<in> {EMS_TYPE_BOOLEAN, EMS_TYPE_INTEGER, EMS_TYPE_FLOAT} \<or> ?t = EMS_TYPE_UNDEFINED"
      using False full(2) by (cases ?t) (auto simp: slot_datum_def is_text_def)
    then have "EMSpop fuel ret w = Some (True, v, fin w2)"
      unfolding EMSpop_def tr1 Option.bind.simps prod.case Let_def w1_def [symmetric] x(1)
      using x by (auto simp: stack_slot_def [symmetric] tr2 fin_def v_def)
    moreover have "value_datum m v = Some d" for m
      using False full(2) by (cases ?t) (auto simp: v_def slot_datum_def is_text_def value_datum_def)
    moreover have "upd (\<lambda>_. mem w2) w2 = w2" by (simp add: upd_def)
    ultimately show ?thesis
      using finish [of "mem w2"] own2 hs w2 by (intro exI [of _ v] exI [of _ "fin w2"]) (simp add: fin_def)
  next
    case True
    then obtain s where s: "heapStr (mem w) ?x = Some s" "datum_bytes d = length s + 1"
      "\<And>m v. vtype v = ?t \<Longrightarrow> val v = PStr s \<Longrightarrow> NUL \<notin> set s \<Longrightarrow> value_datum m v = Some d"
      using full(2) by (cases ?t) (auto simp: slot_datum_def is_text_def value_datum_def c_str_id)
    have nul: "NUL \<notin> set s" using cstring_no_NUL [of "mem w" "PHeap ?x"] s(1) by simp
    have aT: "?a \<in> ?T" "?T - {?a} = ?T'"
      using True stack_top_fresh [of "length ds"] by (auto simp: texts_def slots_Suc)
    obtain malloc' where f: "emsMutexMem_free fuel ?x w2 = Some (upd (malloc_update (\<lambda>_. malloc')) w2)"
      "owned (malloc_update (\<lambda>_. malloc') (mem w2)) ?T'"
      "\<And>b. b \<in> ?T' \<Longrightarrow> heapStr (malloc_update (\<lambda>_. malloc') (mem w2)) (word (mem w2) b) = heapStr (mem w2) (word (mem w2) b)"
      using free_text_quiet [OF own2(1) aT(1) fuel, unfolded aT(2) x(2)] by auto
    define v where "v = ret\<lparr>vtype := ?t, val := PStr s\<rparr>"
    let ?m' = "malloc_update (\<lambda>_. malloc') (mem w2)"
    have wb: "word (mem w2) b = word (mem w) b" if "b \<in> ?T'" for b
      using that w2(3) w1(3) by (auto simp: texts_def slots_iff)
    have "libc_malloc w2 (length s + 1)" using cp s(2) w2(2) by (simp add: copy_ok_def)
    then have "EMSpop fuel ret w = Some (True, v, fin (upd (\<lambda>_. ?m') w2))"
      unfolding EMSpop_def tr1 Option.bind.simps prod.case Let_def w1_def [symmetric] x(1)
      using x True s(1) f(1) hs by (auto simp: stack_slot_def [symmetric] tr2 fin_def v_def is_text_def upd_def)
    moreover have "value_datum m v = Some d" for m using s(3) nul by (simp add: v_def)
    moreover have "stack_rep (mem (fin (upd (\<lambda>_. ?m') w2))) ds \<and> nelem (mem (fin (upd (\<lambda>_. ?m') w2))) = nelem (mem w)"
      by (rule finish) (use f wb hs in simp_all)
    ultimately show ?thesis
      using w2 by (intro exI [of _ v] exI [of _ "fin (upd (\<lambda>_. ?m') w2)"]) (simp add: fin_def)
  qed
qed

lemma EMSpop_empty_spec:
  assumes q: "quiet w" and rep: "stack_rep (mem w) []" and fuel: "0 < fuel"
  shows "\<exists>w'. EMSpop fuel ret w = Some (True, ret\<lparr>vtype := EMS_TYPE_UNDEFINED, val := PInt 0xf00dd00f\<rparr>, w') \<and>
     quiet w' \<and> libc_malloc w' = libc_malloc w \<and> mem w' = mem w"
proof -
  have top: "word (mem w) EMS_ARR_STACKTOP = 0" "fe (tag (mem w) EMS_ARR_STACKTOP) = EMS_TAG_FULL"
    using rep by (simp_all add: stack_rep_def)
  have tr: "EMStransitionFEtag fuel EMS_ARR_STACKTOP None EMS_TAG_FULL EMS_TAG_BUSY EMS_TAG_ANY_code w
     = Some ((tag (mem w) EMS_ARR_STACKTOP)\<lparr>fe := EMS_TAG_BUSY\<rparr>, upd (set_fe EMS_ARR_STACKTOP EMS_TAG_BUSY) (yield w))"
    using q top(2) fuel by (rule transition_quiet)
  have "(tag (mem w))(EMS_ARR_STACKTOP := (tag (mem w) EMS_ARR_STACKTOP)\<lparr>fe := EMS_TAG_FULL\<rparr>) = tag (mem w)"
    "(word (mem w))(EMS_ARR_STACKTOP := 0) = word (mem w)"
    using top by (simp_all add: fun_upd_idem)
  then show ?thesis
    unfolding EMSpop_def tr
    using q top(1) by (auto simp: Let_def intro!: ems_eqI)
qed

section \<open>A full stack\<close>

lemma EMSpush_full_spec:
  assumes q: "quiet w" and rep: "stack_rep (mem w) ds" and full: "int (length ds) + 1 = nelem (mem w)"
    and fuel: "0 < fuel"
  shows "\<exists>w'. EMSpush fuel v w = Some (- 1, w') \<and> quiet w' \<and>
     word (mem w') EMS_ARR_STACKTOP = int (length ds) + 1 \<and> fe (tag (mem w') EMS_ARR_STACKTOP) = EMS_TAG_BUSY"
proof -
  have top: "word (mem w) EMS_ARR_STACKTOP = int (length ds)" "fe (tag (mem w) EMS_ARR_STACKTOP) = EMS_TAG_FULL"
    "nelem (mem w) < 2 ^ 31"
    using rep by (simp_all add: stack_rep_def)
  have tr: "EMStransitionFEtag fuel EMS_ARR_STACKTOP None EMS_TAG_FULL EMS_TAG_BUSY EMS_TAG_ANY_code w
     = Some ((tag (mem w) EMS_ARR_STACKTOP)\<lparr>fe := EMS_TAG_BUSY\<rparr>, upd (set_fe EMS_ARR_STACKTOP EMS_TAG_BUSY) (yield w))"
    using q top(2) fuel by (rule transition_quiet)
  show ?thesis
    unfolding EMSpush_def tr
    using q top full by (simp add: Let_def)
qed

lemma stack_locked:
  assumes "quiet w" "fe (tag (mem w) EMS_ARR_STACKTOP) \<noteq> EMS_TAG_FULL"
  shows "EMSpush fuel v w = None" "EMSpop fuel ret w = None"
  using transition_blocked [OF assms] by (simp_all add: EMSpush_def EMSpop_def)

lemma blank_stack: "0 < n \<Longrightarrow> n < 2 ^ 31 \<Longrightarrow> level < 59 \<Longrightarrow> stack_rep (blank_ems n level) []"
  using blank_owned by (simp add: stack_rep_def slots_rep_def stack_slot_def)

section \<open>The stack is a last-in first-out container\<close>

definition lifo :: "datum list \<Rightarrow> datum \<times> datum list" where
  "lifo ds = (last ds, butlast ds)"

definition stack_room :: "ems \<Rightarrow> datum list \<Rightarrow> nat \<Rightarrow> bool" where
  "stack_room m ds k \<longleftrightarrow> int (length ds + k) < nelem m"

interpretation stack: container stack_rep stack_room lifo EMSpush EMSpop
proof
  fix w :: world and ds k v d and fuel :: nat
  assume a: "quiet w" "stack_rep (mem w) ds" "stack_room (mem w) ds (Suc k)" "0 < fuel"
    "value_datum (mem w) v = Some d" "request_ok (datum_bytes d)"
  then have "int (length ds) + 1 < nelem (mem w)" by (simp add: stack_room_def)
  from EMSpush_spec [OF a(1,2) this a(4-6)] show "\<exists>r w'. EMSpush fuel v w = Some (r, w') \<and> quiet w' \<and>
      libc_malloc w' = libc_malloc w \<and> (0 \<le> r \<and> stack_rep (mem w') (ds @ [d]) \<and>
      stack_room (mem w') (ds @ [d]) k \<or> r = - 1 \<and> is_text (vtype v))"
    using a(3) by (fastforce simp: stack_room_def)
next
  fix w :: world and ds :: "datum list" and ret k and fuel :: nat
  assume a: "quiet w" "stack_rep (mem w) ds" "ds \<noteq> []" "stack_room (mem w) ds k" "0 < fuel" "op_copy_ok w"
  then have "stack_rep (mem w) (butlast ds @ [last ds])" "copy_ok w (last ds)"
    by (simp_all add: op_copy_ok_def copy_ok_def)
  from EMSpop_spec [OF a(1) this(1) a(5) this(2), of ret]
  show "\<exists>v w'. EMSpop fuel ret w = Some (True, v, w') \<and> quiet w' \<and> libc_malloc w' = libc_malloc w \<and>
      stack_rep (mem w') (snd (lifo ds)) \<and> stack_room (mem w') (snd (lifo ds)) k \<and>
      value_datum (mem w') v = Some (fst (lifo ds))"
    using a(3,4) by (fastforce simp: lifo_def stack_room_def)
next
  fix w :: world and ret and fuel :: nat
  assume "quiet w" "stack_rep (mem w) []" "0 < fuel"
  from EMSpop_empty_spec [OF this, of ret]
  show "\<exists>v w'. EMSpop fuel ret w = Some (True, v, w') \<and> quiet w' \<and> libc_malloc w' = libc_malloc w \<and>
      mem w' = mem w \<and> value_datum (mem w') v = Some DUndef"
    by (fastforce simp: value_datum_def)
qed

section \<open>Properties\<close>

text \<open>
  C31: a stack of \<open>n\<close> elements holds at most \<open>n - 1\<close>: the push after that returns \<open>-1\<close>, but
  leaves the top incremented and its tag busy, so from then on no push and no pop of any process
  returns, however long it waits.
\<close>

theorem EMSpush_full_blocks:
  assumes "quiet w" "stack_rep (mem w) ds" "int (length ds) + 1 = nelem (mem w)" "0 < fuel"
  shows "\<exists>w'. EMSpush fuel v w = Some (- 1, w') \<and>
     word (mem w') EMS_ARR_STACKTOP = int (length ds) + 1 \<and>
     (\<forall>fuel' v' ret. EMSpush fuel' v' w' = None \<and> EMSpop fuel' ret w' = None)"
proof -
  from EMSpush_full_spec [OF assms] obtain w' where w': "EMSpush fuel v w = Some (- 1, w')" "quiet w'"
    "word (mem w') EMS_ARR_STACKTOP = int (length ds) + 1" "fe (tag (mem w') EMS_ARR_STACKTOP) = EMS_TAG_BUSY"
    by blast
  then have "fe (tag (mem w') EMS_ARR_STACKTOP) \<noteq> EMS_TAG_FULL" by simp
  with w' show ?thesis using stack_locked by blast
qed

theorem EMSpush_full_blocks_witness:
  "\<exists>w'. EMSpush 1 (int_value 7) (alone (blank_ems 1 2)) = Some (- 1, w') \<and> (\<forall>ret. EMSpop 1000 ret w' = None)"
  using EMSpush_full_blocks [of "alone (blank_ems 1 2)" "[]" 1 "int_value 7"] blank_stack [of 1 2] by auto

text \<open>
  C15: a stack is last-in first-out: any sequence of pushes (that fit) and pops gives exactly the
  data the abstract list gives when pops take from its end; a pop of the empty stack gives
  undefined. Only a text that finds no memory stops the sequence early, and what was popped
  until then agrees.
\<close>

theorem EMS_stack_is_lifo:
  assumes "quiet w" "stack_rep (mem w) ds" "stack_room (mem w) ds (n_puts ops)" "0 < fuel" "op_copy_ok w"
    and "list_all2 op_datum ops aops"
  shows "\<exists>fin outs w'. run_ops (EMSpush fuel) (EMSpop fuel) ops w = Some (fin, outs, w') \<and>
    (if fin then outs = map Some (abstract_run lifo aops ds)
     else list_ex op_text ops \<and> prefix outs (map Some (abstract_run lifo aops ds)))"
  using stack.run_refines [of w ds ops 0 fuel aops] assms by simp

theorem EMS_stack_is_lifo_witness:
  "\<exists>w'. run_ops (EMSpush 1) (EMSpop 1) [Put (int_value 5), Put (int_value 6), Get, Get, Get]
     (alone (blank_ems 4 2)) = Some (True, [Some (DInt 6), Some (DInt 5), Some DUndef], w')"
proof -
  let ?ops = "[Put (int_value 5), Put (int_value 6), Get, Get, Get]"
  have "list_all2 op_datum ?ops [APut (DInt 5), APut (DInt 6), AGet, AGet, AGet]"
    by (simp add: op_datum_def int_value_def value_datum_def request_ok_def)
  from EMS_stack_is_lifo [OF _ _ _ _ _ this, of "alone (blank_ems 4 2)" "[]" 1]
  obtain fin outs w' where r: "run_ops (EMSpush 1) (EMSpop 1) ?ops (alone (blank_ems 4 2)) = Some (fin, outs, w')"
    "if fin then outs = map Some (abstract_run lifo [APut (DInt 5), APut (DInt 6), AGet, AGet, AGet] [])
     else list_ex op_text ?ops \<and> prefix outs (map Some (abstract_run lifo [APut (DInt 5), APut (DInt 6), AGet, AGet, AGet] []))"
    using blank_stack [of 4 2] by (auto simp: stack_room_def op_copy_ok_def)
  moreover have "\<not> list_ex op_text ?ops" by (simp add: op_text_def int_value_def is_text_def)
  ultimately have "fin" "outs = [Some (DInt 6), Some (DInt 5), Some DUndef]"
    by (auto simp: lifo_def split: if_splits)
  with r(1) show ?thesis by simp
qed

end
