(* ===== verification/EmsQueue.thy ===== *)
theory EmsQueue
  imports EmsContainer
begin

text \<open>
  An EMS array used as a queue: \<open>EMSenqueue\<close> and \<open>EMSdequeue\<close> of
  \<open>src/primitives.cc\<close>. The words \<open>EMS_ARR_Q_BOTTOM\<close> and \<open>EMS_ARR_STACKTOP\<close> only
  grow; taken modulo the number of elements they are the ends of a ring. Enqueuers hold the tag
  of the top, dequeuers the tag of the bottom.
\<close>

section \<open>Enqueue and dequeue\<close>

text \<open>
  C's \<open>%\<close> is \<open>smod\<close>; the index is an \<open>int32_t\<close>. The code does not wait for the element
  to be empty.
\<close>

definition EMSenqueue :: "nat \<Rightarrow> EMSvalueType \<Rightarrow> world \<Rightarrow> (int \<times> world) option" where
  "EMSenqueue fuel v w = do {
     (_, w) \<leftarrow> EMStransitionFEtag fuel EMS_ARR_STACKTOP None EMS_TAG_FULL EMS_TAG_BUSY EMS_TAG_ANY_code w;
     let idx = wrap32 (word (mem w) EMS_ARR_STACKTOP smod nelem (mem w));
     let w = upd (\<lambda>m. set_word EMS_ARR_STACKTOP (wrap64 (word m EMS_ARR_STACKTOP + 1)) m) w;
     if wrap64 (word (mem w) EMS_ARR_STACKTOP - word (mem w) EMS_ARR_Q_BOTTOM) > nelem (mem w)
     then Some (- 1, w)
     else do {
       let w = upd (\<lambda>m. set_tag (dataIdx idx) ((tag m (dataIdx idx))\<lparr>rw := 0, ty := vtype v\<rparr>) m) w;
       (stored, w) \<leftarrow> write_value fuel (dataIdx idx) v w;
       if \<not> stored then Some (- 1, w)
       else do {
         let w = upd (set_fe (dataIdx idx) EMS_TAG_FULL) w;
         let w = upd (set_fe EMS_ARR_STACKTOP EMS_TAG_FULL) w;
         Some (idx, w)
       }
     }
   }"

text \<open>A string is copied and its block freed after both tags are released.\<close>

definition EMSdequeue :: "nat \<Rightarrow> EMSvalueType \<Rightarrow> world \<Rightarrow> (bool \<times> EMSvalueType \<times> world) option" where
  "EMSdequeue fuel ret w = do {
     (_, w) \<leftarrow> EMStransitionFEtag fuel EMS_ARR_Q_BOTTOM None EMS_TAG_FULL EMS_TAG_BUSY EMS_TAG_ANY_code w;
     let idx = word (mem w) EMS_ARR_Q_BOTTOM smod nelem (mem w);
     if word (mem w) EMS_ARR_Q_BOTTOM \<ge> word (mem w) EMS_ARR_STACKTOP then do {
       let w = upd (\<lambda>m. set_word EMS_ARR_Q_BOTTOM (word m EMS_ARR_STACKTOP) m) w;
       let w = upd (set_fe EMS_ARR_Q_BOTTOM EMS_TAG_FULL) w;
       Some (True, ret\<lparr>vtype := EMS_TYPE_UNDEFINED, val := PInt 0xf00dd00f\<rparr>, w)
     } else do {
       let w = upd (\<lambda>m. set_word EMS_ARR_Q_BOTTOM (wrap64 (word m EMS_ARR_Q_BOTTOM + 1)) m) w;
       (dataTag, w) \<leftarrow> EMStransitionFEtag fuel (dataIdx idx) None EMS_TAG_FULL EMS_TAG_BUSY EMS_TAG_ANY_code w;
       let dataTag = dataTag\<lparr>fe := EMS_TAG_EMPTY\<rparr>;
       let ret = ret\<lparr>vtype := ty dataTag\<rparr>;
       if ty dataTag \<in> {EMS_TYPE_BOOLEAN, EMS_TYPE_INTEGER, EMS_TYPE_FLOAT} then do {
         let ret = ret\<lparr>val := PInt (word (mem w) (dataIdx idx))\<rparr>;
         let w = upd (set_tag (dataIdx idx) dataTag) w;
         let w = upd (set_fe EMS_ARR_Q_BOTTOM EMS_TAG_FULL) w;
         Some (True, ret, w)
       } else if ty dataTag \<in> {EMS_TYPE_JSON, EMS_TYPE_STRING} then do {
         let w = upd (set_tag (dataIdx idx) dataTag) w;
         let w = upd (set_fe EMS_ARR_Q_BOTTOM EMS_TAG_FULL) w;
         s \<leftarrow> heapStr (mem w) (word (mem w) (dataIdx idx));
         if \<not> libc_malloc w (length s + 1) then Some (False, ret\<lparr>val := PInt 0\<rparr>, w)
         else do {
           w \<leftarrow> emsMutexMem_free fuel (word (mem w) (dataIdx idx)) w;
           Some (True, ret\<lparr>val := PStr s\<rparr>, w)
         }
       } else if ty dataTag = EMS_TYPE_UNDEFINED then do {
         let w = upd (set_tag (dataIdx idx) dataTag) w;
         let w = upd (set_fe EMS_ARR_Q_BOTTOM EMS_TAG_FULL) w;
         Some (True, ret\<lparr>val := PInt 0xdeadbeef\<rparr>, w)
       } else Some (False, ret, w)
     }
   }"

section \<open>The abstract queue\<close>

text \<open>
  \<open>queue_rep m ds\<close>: the buffer \<open>m\<close> holds the queue \<open>ds\<close> (next to leave first) in the ring
  positions from the bottom on, and nobody is using it.
\<close>

definition queue_slot :: "int \<Rightarrow> int \<Rightarrow> nat \<Rightarrow> nat" where
  "queue_slot n b i = dataIdx ((b + int i) mod n)"

definition queue_rep :: "ems \<Rightarrow> datum list \<Rightarrow> bool" where
  "queue_rep m ds \<longleftrightarrow>
     (let b = word m EMS_ARR_Q_BOTTOM; n = nelem m in
      0 < n \<and> n < 2 ^ 31 \<and> 0 \<le> b \<and> word m EMS_ARR_STACKTOP = b + int (length ds) \<and>
      word m EMS_ARR_STACKTOP < 2 ^ 63 \<and> int (length ds) \<le> n \<and>
      fe (tag m EMS_ARR_STACKTOP) = EMS_TAG_FULL \<and> fe (tag m EMS_ARR_Q_BOTTOM) = EMS_TAG_FULL \<and>
      slots_rep m (queue_slot n b) ds \<and> owned m (texts m (slots (queue_slot n b) (length ds))))"

lemma queue_slot_cb [simp]:
  assumes "0 < n"
  shows "queue_slot n b i \<noteq> EMS_ARR_NELEM" "queue_slot n b i \<noteq> EMS_ARR_STACKTOP"
    "queue_slot n b i \<noteq> EMS_ARR_MEM_MUTEX" "queue_slot n b i \<noteq> EMS_ARR_Q_BOTTOM"
    "EMS_ARR_NELEM \<noteq> queue_slot n b i" "EMS_ARR_STACKTOP \<noteq> queue_slot n b i"
    "EMS_ARR_MEM_MUTEX \<noteq> queue_slot n b i" "EMS_ARR_Q_BOTTOM \<noteq> queue_slot n b i"
  using assms by (simp_all add: queue_slot_def)

lemma queue_slot_Suc: "queue_slot n b \<circ> Suc = queue_slot n (b + 1)"
  by (rule ext) (simp add: queue_slot_def algebra_simps)

lemma queue_slot_eq:
  assumes "0 < n" "int i < n" "int j < n"
  shows "queue_slot n b i = queue_slot n b j \<longleftrightarrow> i = j"
proof
  assume "queue_slot n b i = queue_slot n b j"
  then have "(b + int i) mod n = (b + int j) mod n" using assms(1) by (simp add: queue_slot_def)
  then have "(int i) mod n = (int j) mod n"
    by (metis add_diff_cancel_left' mod_diff_left_eq)
  then show "i = j" using assms by simp
qed simp

lemma queue_end_fresh: "0 < n \<Longrightarrow> int k < n \<Longrightarrow> queue_slot n b k \<notin> slots (queue_slot n b) k"
  by (auto simp: slots_iff queue_slot_eq)

lemma queue_texts_cb:
  "0 < n \<Longrightarrow> b' \<in> texts m (slots (queue_slot n b) k) \<Longrightarrow>
    b' \<noteq> EMS_ARR_STACKTOP \<and> b' \<noteq> EMS_ARR_MEM_MUTEX \<and> b' \<noteq> EMS_ARR_Q_BOTTOM"
  by (auto simp: texts_def slots_iff)

section \<open>Enqueue\<close>

lemma queue_rep_snoc:
  assumes rep: "queue_rep m ds" and room: "int (length ds) < nelem m" "word m EMS_ARR_STACKTOP + 1 < 2 ^ 63"
    and S: "S = slots (queue_slot (nelem m) (word m EMS_ARR_Q_BOTTOM)) (length ds)"
    and a: "a = queue_slot (nelem m) (word m EMS_ARR_Q_BOTTOM) (length ds)"
    and top: "word m' EMS_ARR_STACKTOP = word m EMS_ARR_STACKTOP + 1" "fe (tag m' EMS_ARR_STACKTOP) = EMS_TAG_FULL"
    and bot: "word m' EMS_ARR_Q_BOTTOM = word m EMS_ARR_Q_BOTTOM" "fe (tag m' EMS_ARR_Q_BOTTOM) = EMS_TAG_FULL"
    and n: "nelem m' = nelem m"
    and t: "fe (tag m' a) = EMS_TAG_FULL" "slot_datum m' a = Some d"
    and fr: "\<And>b. b \<in> S \<Longrightarrow> tag m' b = tag m b \<and> word m' b = word m b"
    and str: "\<And>b. b \<in> texts m S \<Longrightarrow> heapStr m' (word m b) = heapStr m (word m b)"
    and own: "owned m' (if is_text (ty (tag m' a)) then insert a (texts m S) else texts m S)"
  shows "queue_rep m' (ds @ [d])"
proof -
  let ?f = "queue_slot (nelem m) (word m EMS_ARR_Q_BOTTOM)"
  have pos: "0 < nelem m" using rep by (simp add: queue_rep_def Let_def)
  have "slots_rep m' ?f ds"
    by (rule slots_frame [OF _ fr [unfolded S] str [unfolded S]])
      (use rep in \<open>simp_all add: queue_rep_def Let_def\<close>)
  then have "slots_rep m' ?f (ds @ [d])"
    using t a queue_end_fresh [OF pos room(1)] by (simp add: slots_snoc)
  moreover have "texts m' S = texts m S" using fr by (intro texts_cong) simp
  then have "owned m' (texts m' (slots ?f (length (ds @ [d]))))"
    using own unfolding a S by (simp add: slots_Suc texts_insert split: if_splits)
  ultimately show ?thesis
    using rep room top bot n by (simp add: queue_rep_def Let_def)
qed

lemma EMSenqueue_spec:
  assumes q: "quiet w" and rep: "queue_rep (mem w) ds" and fuel: "0 < fuel"
    and room: "int (length ds) < nelem (mem w)" "word (mem w) EMS_ARR_STACKTOP + 1 < 2 ^ 63"
    and d: "value_datum (mem w) v = Some d" and rq: "request_ok (datum_bytes d)"
  shows "\<exists>r w'. EMSenqueue fuel v w = Some (r, w') \<and> quiet w' \<and> libc_malloc w' = libc_malloc w \<and>
    nelem (mem w') = nelem (mem w) \<and>
    (r = word (mem w) EMS_ARR_STACKTOP mod nelem (mem w) \<and> queue_rep (mem w') (ds @ [d]) \<and>
       word (mem w') EMS_ARR_STACKTOP = word (mem w) EMS_ARR_STACKTOP + 1 \<or>
     r = - 1 \<and> is_text (vtype v) \<and>
       emsMem_alloc (malloc (mem w)) (datum_bytes d) = Some (- 1, malloc (mem w)))"
proof -
  let ?n = "nelem (mem w)" and ?b = "word (mem w) EMS_ARR_Q_BOTTOM" and ?k = "length ds"
  let ?top = "word (mem w) EMS_ARR_STACKTOP"
  let ?f = "queue_slot ?n ?b" let ?a = "?f ?k" and ?S = "slots ?f ?k"
  let ?i = "?top mod ?n"
  have pos: "0 < ?n" "?n < 2 ^ 31" "0 \<le> ?b" "?top = ?b + int ?k"
    and full: "fe (tag (mem w) EMS_ARR_STACKTOP) = EMS_TAG_FULL" "fe (tag (mem w) EMS_ARR_Q_BOTTOM) = EMS_TAG_FULL"
    and own: "owned (mem w) (texts (mem w) ?S)"
    using rep by (simp_all add: queue_rep_def Let_def)
  have i: "wrap32 (?top smod ?n) = ?i" "dataIdx ?i = ?a"
  proof -
    have "0 \<le> ?i" "?i < ?n" using pos(1) by simp_all
    then have "wrap32 ?i = ?i" using pos(2) by (intro wrap32_id) simp_all
    moreover have "?top smod ?n = ?i" using pos by (intro smod_nonneg) simp_all
    ultimately show "wrap32 (?top smod ?n) = ?i" by (simp only:)
    show "dataIdx ?i = ?a" using pos(4) by (simp add: queue_slot_def)
  qed
  define tg where "tg = (tag (mem w) ?a)\<lparr>rw := 0, ty := vtype v\<rparr>"
  define w1 where "w1 = upd (\<lambda>m. set_word EMS_ARR_STACKTOP (wrap64 (word m EMS_ARR_STACKTOP + 1)) m)
                          (upd (set_fe EMS_ARR_STACKTOP EMS_TAG_BUSY) (yield w))"
  define w2 where "w2 = upd (\<lambda>m. set_tag ?a ((tag m ?a)\<lparr>rw := 0, ty := vtype v\<rparr>) m) w1"
  have w1: "quiet w1" "libc_malloc w1 = libc_malloc w"
    "mem w1 = set_word EMS_ARR_STACKTOP (?top + 1) (set_fe EMS_ARR_STACKTOP EMS_TAG_BUSY (mem w))"
    using q pos room by (simp_all add: w1_def)
  have w2: "quiet w2" "libc_malloc w2 = libc_malloc w" "mem w2 = set_tag ?a tg (mem w1)"
    using w1 pos by (simp_all add: w2_def tg_def)
  have tr: "EMStransitionFEtag fuel EMS_ARR_STACKTOP None EMS_TAG_FULL EMS_TAG_BUSY EMS_TAG_ANY_code w
     = Some ((tag (mem w) EMS_ARR_STACKTOP)\<lparr>fe := EMS_TAG_BUSY\<rparr>, upd (set_fe EMS_ARR_STACKTOP EMS_TAG_BUSY) (yield w))"
    using q full(1) fuel by (rule transition_quiet)
  have nel: "nelem (mem w1) = ?n" using w1(3) by simp
  have "\<not> wrap64 (word (mem w1) EMS_ARR_STACKTOP - word (mem w1) EMS_ARR_Q_BOTTOM) > nelem (mem w1)"
    using w1(3) pos room by simp
  moreover have "wrap32 (word (mem (upd (set_fe EMS_ARR_STACKTOP EMS_TAG_BUSY) (yield w))) EMS_ARR_STACKTOP
      smod nelem (mem (upd (set_fe EMS_ARR_STACKTOP EMS_TAG_BUSY) (yield w)))) = ?i"
    using q i(1) by simp
  ultimately have step: "EMSenqueue fuel v w = (do {
       (stored, w) \<leftarrow> write_value fuel ?a v w2;
       if \<not> stored then Some (- 1, w)
       else Some (?i, upd (set_fe EMS_ARR_STACKTOP EMS_TAG_FULL) (upd (set_fe ?a EMS_TAG_FULL) w))
     })"
    unfolding EMSenqueue_def tr Option.bind.simps prod.case Let_def w1_def [symmetric]
    by (simp add: i(2) w2_def cong: if_cong)
  have "EMS_ARR_STACKTOP \<notin> texts (mem w) ?S" using queue_texts_cb [OF pos(1)] by blast
  then have own2: "owned (mem w2) (texts (mem w) ?S)"
    using own w2(3) w1(3) by (simp add: owned_set_word)
  have dv: "value_datum (mem w2) v = Some d" using d w2(3) w1(3) by simp
  have al: "malloc (mem w2) = malloc (mem w)" using w2(3) w1(3) by simp
  have fresh: "?a \<notin> ?S" using queue_end_fresh [OF pos(1) room(1)] .
  have a: "?a \<notin> texts (mem w) ?S" "?a \<noteq> EMS_ARR_MEM_MUTEX" using fresh pos(1) by (auto simp: texts_def)
  from own2 a fuel dv rq show ?thesis
  proof (cases rule: write_value_quiet)
    case 1
    then show ?thesis using step al w2 w1 nel by simp
  next
    case (2 m')
    let ?m' = "set_fe EMS_ARR_STACKTOP EMS_TAG_FULL (set_fe ?a EMS_TAG_FULL m')"
    have m: "word m' = (word (mem w))(EMS_ARR_STACKTOP := ?top + 1, ?a := word m' ?a)"
      "tag m' = (tag (mem w))(EMS_ARR_STACKTOP := (tag (mem w) EMS_ARR_STACKTOP)\<lparr>fe := EMS_TAG_BUSY\<rparr>, ?a := tg)"
      using 2(4,5) w2(3) w1(3) by simp_all
    have word: "word m' c = word (mem w) c" if "c \<noteq> EMS_ARR_STACKTOP" "c \<noteq> ?a" for c
      using that by (subst m(1)) simp
    have wtop: "word m' EMS_ARR_STACKTOP = ?top + 1" using pos(1) by (subst m(1)) simp
    have nel': "nelem ?m' = ?n" using word pos(1) by (simp add: nelem_def)
    have S: "c \<noteq> EMS_ARR_STACKTOP" "c \<noteq> ?a" if "c \<in> ?S" for c
      using that fresh pos(1) by (auto simp: slots_iff)
    have "queue_rep ?m' (ds @ [d])"
    proof (rule queue_rep_snoc [OF rep room refl refl])
      show "heapStr ?m' (word (mem w) c) = heapStr (mem w) (word (mem w) c)"
        if c: "c \<in> texts (mem w) ?S" for c
      proof -
        have "word (mem w2) c = word (mem w) c" "heapStr (mem w2) x = heapStr (mem w) x" for x
          using w2(3) w1(3) S [OF texts_sub [OF c]] by simp_all
        then show ?thesis using 2(6) [OF c] by simp
      qed
    qed (use 2(2,3) nel' wtop word pos(1) full S in \<open>simp_all add: m(2) tg_def slot_datum_def\<close>)
    moreover have "EMSenqueue fuel v w = Some (?i, upd (\<lambda>_. ?m') w2)"
      using step 2(1) by (simp add: upd_def)
    ultimately show ?thesis
      using w2(1,2) w1(2) nel' wtop by (intro exI [of _ ?i] exI [of _ "upd (\<lambda>_. ?m') w2"]) simp
  qed
qed

section \<open>Dequeue\<close>

lemma queue_rep_tail:
  assumes rep: "queue_rep m (d # ds)"
    and S: "S = slots (queue_slot (nelem m) (word m EMS_ARR_Q_BOTTOM + 1)) (length ds)"
    and top: "word m' EMS_ARR_STACKTOP = word m EMS_ARR_STACKTOP" "fe (tag m' EMS_ARR_STACKTOP) = EMS_TAG_FULL"
    and bot: "word m' EMS_ARR_Q_BOTTOM = word m EMS_ARR_Q_BOTTOM + 1" "fe (tag m' EMS_ARR_Q_BOTTOM) = EMS_TAG_FULL"
    and n: "nelem m' = nelem m"
    and fr: "\<And>b. b \<in> S \<Longrightarrow> tag m' b = tag m b \<and> word m' b = word m b"
    and str: "\<And>b. b \<in> texts m S \<Longrightarrow> heapStr m' (word m b) = heapStr m (word m b)"
    and own: "owned m' (texts m S)"
  shows "queue_rep m' ds"
proof -
  have "slots_rep m' (queue_slot (nelem m) (word m EMS_ARR_Q_BOTTOM + 1)) ds"
    by (rule slots_frame [OF _ fr [unfolded S] str [unfolded S]])
      (use rep in \<open>simp_all add: queue_rep_def Let_def slots_cons queue_slot_Suc\<close>)
  moreover have "texts m' S = texts m S" using fr by (intro texts_cong) simp
  ultimately show ?thesis
    using rep own top bot n by (simp add: queue_rep_def Let_def S)
qed

definition dequeue_copy_ok :: "world \<Rightarrow> datum \<Rightarrow> bool" where
  "dequeue_copy_ok w d \<longleftrightarrow> libc_malloc w (datum_bytes d)"

lemma EMSdequeue_spec:
  assumes q: "quiet w" and rep: "queue_rep (mem w) (d # ds)" and fuel: "0 < fuel" and cp: "dequeue_copy_ok w d"
  shows "\<exists>v w'. EMSdequeue fuel ret w = Some (True, v, w') \<and> quiet w' \<and> libc_malloc w' = libc_malloc w \<and>
    nelem (mem w') = nelem (mem w) \<and> word (mem w') EMS_ARR_STACKTOP = word (mem w) EMS_ARR_STACKTOP \<and>
    queue_rep (mem w') ds \<and> value_datum (mem w') v = Some d"
proof -
  let ?n = "nelem (mem w)" and ?b = "word (mem w) EMS_ARR_Q_BOTTOM"
  let ?a = "queue_slot ?n ?b 0" and ?i = "?b mod ?n"
  let ?S = "slots (queue_slot ?n (?b + 1)) (length ds)"
  let ?A = "insert ?a ?S"
  have pos: "0 < ?n" "?n < 2 ^ 31" "0 \<le> ?b" "word (mem w) EMS_ARR_STACKTOP = ?b + 1 + int (length ds)"
      "word (mem w) EMS_ARR_STACKTOP < 2 ^ 63"
    and full: "fe (tag (mem w) EMS_ARR_STACKTOP) = EMS_TAG_FULL" "fe (tag (mem w) EMS_ARR_Q_BOTTOM) = EMS_TAG_FULL"
    and own: "owned (mem w) (texts (mem w) ?A)" and fresh: "?a \<notin> ?S"
    and t: "fe (tag (mem w) ?a) = EMS_TAG_FULL" "slot_datum (mem w) ?a = Some d"
    using rep by (simp_all add: queue_rep_def Let_def slots_cons queue_slot_Suc slots_Suc_0)
  have i: "?b smod ?n = ?i" "dataIdx ?i = ?a"
    using pos by (simp_all add: smod_nonneg queue_slot_def)
  define w0 where "w0 = upd (set_fe EMS_ARR_Q_BOTTOM EMS_TAG_BUSY) (yield w)"
  define w1 where "w1 = upd (\<lambda>m. set_word EMS_ARR_Q_BOTTOM (wrap64 (word m EMS_ARR_Q_BOTTOM + 1)) m) w0"
  define w2 where "w2 = upd (set_fe ?a EMS_TAG_BUSY) (yield w1)"
  have w0: "mem w0 = set_fe EMS_ARR_Q_BOTTOM EMS_TAG_BUSY (mem w)" using q by (simp add: w0_def)
  have w1: "quiet w1" "libc_malloc w1 = libc_malloc w"
    "mem w1 = set_word EMS_ARR_Q_BOTTOM (?b + 1) (set_fe EMS_ARR_Q_BOTTOM EMS_TAG_BUSY (mem w))"
    using q pos w0 by (simp_all add: w1_def) (simp_all add: w0_def)
  have w2: "quiet w2" "libc_malloc w2 = libc_malloc w" "mem w2 = set_fe ?a EMS_TAG_BUSY (mem w1)"
    using w1 by (simp_all add: w2_def)
  have tr1: "EMStransitionFEtag fuel EMS_ARR_Q_BOTTOM None EMS_TAG_FULL EMS_TAG_BUSY EMS_TAG_ANY_code w
     = Some ((tag (mem w) EMS_ARR_Q_BOTTOM)\<lparr>fe := EMS_TAG_BUSY\<rparr>, w0)"
    unfolding w0_def using q full(2) fuel by (rule transition_quiet)
  have tr2: "EMStransitionFEtag fuel ?a None EMS_TAG_FULL EMS_TAG_BUSY EMS_TAG_ANY_code w1
     = Some ((tag (mem w) ?a)\<lparr>fe := EMS_TAG_BUSY\<rparr>, w2)"
    using transition_quiet [of w1 ?a EMS_TAG_FULL fuel None EMS_TAG_BUSY] w1 t pos(1) fuel
    by (simp add: w2_def)
  let ?t = "ty (tag (mem w) ?a)" and ?x = "word (mem w) ?a"
  define tg where "tg = (tag (mem w) ?a)\<lparr>fe := EMS_TAG_EMPTY\<rparr>"
  define w3 where "w3 = upd (set_fe EMS_ARR_Q_BOTTOM EMS_TAG_FULL) (upd (set_tag ?a tg) w2)"
  have x0: "word (mem w0) EMS_ARR_Q_BOTTOM smod nelem (mem w0) = ?i"
    "\<not> word (mem w0) EMS_ARR_Q_BOTTOM \<ge> word (mem w0) EMS_ARR_STACKTOP"
    using pos w0 i(1) by simp_all
  have x: "word (mem w2) ?a = ?x" using w1 w2 pos(1) by simp
  have w3: "quiet w3" "libc_malloc w3 = libc_malloc w" "word (mem w3) = (word (mem w))(EMS_ARR_Q_BOTTOM := ?b + 1)"
    "tag (mem w3) = (tag (mem w))(?a := tg)"
    "malloc (mem w3) = malloc (mem w)" "heap (mem w3) = heap (mem w)" "word (mem w3) ?a = ?x"
    using w2 w1 pos(1) fe_update_same [OF full(2)] by (simp_all add: w3_def fun_upd_twist)
  have hs: "heapStr (mem w3) y = heapStr (mem w) y" for y using w3 by (intro heapStr_cong) simp_all
  have cb: "EMS_ARR_Q_BOTTOM \<notin> texts (mem w) ?A" "EMS_ARR_STACKTOP \<notin> texts (mem w) ?A"
    using pos(1) by (auto simp: texts_def slots_iff)
  have own3: "owned (mem w3) (texts (mem w) ?A)"
    using own cb w2(3) w1(3) by (simp add: w3_def owned_set_word)
  have S: "c \<noteq> EMS_ARR_STACKTOP" "c \<noteq> EMS_ARR_Q_BOTTOM" "c \<noteq> ?a" if "c \<in> ?S" for c
    using that fresh pos(1) by (auto simp: slots_iff)
  have finish: "queue_rep m' ds \<and> nelem m' = ?n \<and> word m' EMS_ARR_STACKTOP = word (mem w) EMS_ARR_STACKTOP"
    if m': "word m' = word (mem w3)" "tag m' = tag (mem w3)" "owned m' (texts (mem w) ?S)"
      "\<And>c. c \<in> texts (mem w) ?S \<Longrightarrow> heapStr m' (word (mem w) c) = heapStr (mem w) (word (mem w) c)" for m'
  proof -
    have n: "nelem m' = ?n" using w3 by (simp add: nelem_def m'(1))
    moreover have "queue_rep m' ds"
      by (rule queue_rep_tail [OF rep refl])
        (use n m' w3(3,4) full pos(1) S in \<open>simp_all add: queue_slot_def [of _ _ 0]\<close>)
    moreover have "word m' EMS_ARR_STACKTOP = word (mem w) EMS_ARR_STACKTOP" using m'(1) w3(3) by simp
    ultimately show ?thesis by blast
  qed
  show ?thesis
  proof (cases "is_text ?t")
    case False
    define v where "v = ret\<lparr>vtype := ?t, val := PInt (if ?t = EMS_TYPE_UNDEFINED then 0xdeadbeef else ?x)\<rparr>"
    have "?t \<in> {EMS_TYPE_BOOLEAN, EMS_TYPE_INTEGER, EMS_TYPE_FLOAT} \<or> ?t = EMS_TYPE_UNDEFINED"
      using False t(2) by (cases ?t) (auto simp: slot_datum_def is_text_def)
    then have "EMSdequeue fuel ret w = Some (True, v, w3)"
      unfolding EMSdequeue_def tr1 Option.bind.simps prod.case Let_def x0(1) w1_def [symmetric] i(2)
      using x x0(2) by (auto simp: tr2 v_def w3_def tg_def)
    moreover have "value_datum m v = Some d" for m
      using False t(2) by (cases ?t) (auto simp: v_def slot_datum_def is_text_def value_datum_def)
    moreover have "owned (mem w3) (texts (mem w) ?S)"
      by (rule owned_subset [OF own3]) (auto simp: texts_def)
    ultimately show ?thesis
      using finish [of "mem w3"] hs w3(1,2) by (intro exI [of _ v] exI [of _ w3]) simp
  next
    case True
    then obtain s where s: "heapStr (mem w) ?x = Some s" "datum_bytes d = length s + 1"
      "\<And>m v. vtype v = ?t \<Longrightarrow> val v = PStr s \<Longrightarrow> NUL \<notin> set s \<Longrightarrow> value_datum m v = Some d"
      using t(2) by (cases ?t) (auto simp: slot_datum_def is_text_def value_datum_def c_str_id)
    have nul: "NUL \<notin> set s" using cstring_no_NUL [of "mem w" "PHeap ?x"] s(1) by simp
    have aT: "?a \<in> texts (mem w) ?A" "texts (mem w) ?A - {?a} = texts (mem w) ?S"
      using True fresh by (auto simp: texts_def)
    obtain malloc' where f: "emsMutexMem_free fuel ?x w3 = Some (upd (malloc_update (\<lambda>_. malloc')) w3)"
      "owned (malloc_update (\<lambda>_. malloc') (mem w3)) (texts (mem w) ?S)"
      "\<And>c. c \<in> texts (mem w) ?S \<Longrightarrow>
        heapStr (malloc_update (\<lambda>_. malloc') (mem w3)) (word (mem w3) c) = heapStr (mem w3) (word (mem w3) c)"
      using free_text_quiet [OF own3 aT(1) fuel, unfolded aT(2) w3(7)] by auto
    define v where "v = ret\<lparr>vtype := ?t, val := PStr s\<rparr>"
    let ?m' = "malloc_update (\<lambda>_. malloc') (mem w3)"
    have wc: "word (mem w3) c = word (mem w) c" if "c \<in> texts (mem w) ?S" for c
      using w3(3) S(2) [OF texts_sub [OF that]] by simp
    have tt: "ty tg = ?t" by (simp add: tg_def)
    have eq: "upd (\<lambda>_. ?m') w3 = upd (malloc_update (\<lambda>_. malloc')) w3" by (simp add: upd_def)
    have "libc_malloc w3 (length s + 1)" using cp s(2) w3(2) by (simp add: dequeue_copy_ok_def)
    then have "EMSdequeue fuel ret w = Some (True, v, upd (\<lambda>_. ?m') w3)"
      unfolding EMSdequeue_def tr1 Option.bind.simps prod.case Let_def x0(1) w1_def [symmetric] i(2)
      using x0(2) True s(1) f(1) hs w3(7)
      unfolding eq by (auto simp: tr2 v_def w3_def [symmetric] tg_def [symmetric] tt is_text_def)
    moreover have "value_datum m v = Some d" for m using s(3) nul by (simp add: v_def)
    moreover have "queue_rep ?m' ds \<and> nelem ?m' = ?n \<and> word ?m' EMS_ARR_STACKTOP = word (mem w) EMS_ARR_STACKTOP"
      by (rule finish) (use f wc hs in simp_all)
    ultimately show ?thesis
      using w3(1,2) by (intro exI [of _ v] exI [of _ "upd (\<lambda>_. ?m') w3"]) simp
  qed
qed

lemma EMSdequeue_empty_spec:
  assumes q: "quiet w" and rep: "queue_rep (mem w) []" and fuel: "0 < fuel"
  shows "\<exists>w'. EMSdequeue fuel ret w = Some (True, ret\<lparr>vtype := EMS_TYPE_UNDEFINED, val := PInt 0xf00dd00f\<rparr>, w') \<and>
     quiet w' \<and> libc_malloc w' = libc_malloc w \<and> mem w' = mem w"
proof -
  let ?b = "word (mem w) EMS_ARR_Q_BOTTOM"
  have top: "word (mem w) EMS_ARR_STACKTOP = ?b" "fe (tag (mem w) EMS_ARR_Q_BOTTOM) = EMS_TAG_FULL"
    using rep by (simp_all add: queue_rep_def Let_def)
  have tr: "EMStransitionFEtag fuel EMS_ARR_Q_BOTTOM None EMS_TAG_FULL EMS_TAG_BUSY EMS_TAG_ANY_code w
     = Some ((tag (mem w) EMS_ARR_Q_BOTTOM)\<lparr>fe := EMS_TAG_BUSY\<rparr>, upd (set_fe EMS_ARR_Q_BOTTOM EMS_TAG_BUSY) (yield w))"
    using q top(2) fuel by (rule transition_quiet)
  have "(tag (mem w))(EMS_ARR_Q_BOTTOM := (tag (mem w) EMS_ARR_Q_BOTTOM)\<lparr>fe := EMS_TAG_FULL\<rparr>) = tag (mem w)"
    "(word (mem w))(EMS_ARR_Q_BOTTOM := ?b) = word (mem w)"
    using top by (simp_all add: fun_upd_idem)
  then show ?thesis
    unfolding EMSdequeue_def tr
    using q top(1) by (auto simp: Let_def intro!: ems_eqI)
qed

section \<open>A full queue\<close>

lemma EMSenqueue_full_spec:
  assumes q: "quiet w" and rep: "queue_rep (mem w) ds" and full: "int (length ds) = nelem (mem w)"
    and fuel: "0 < fuel" and top: "word (mem w) EMS_ARR_STACKTOP + 1 < 2 ^ 63"
  shows "\<exists>w'. EMSenqueue fuel v w = Some (- 1, w') \<and> quiet w' \<and>
     word (mem w') EMS_ARR_STACKTOP = word (mem w) EMS_ARR_STACKTOP + 1 \<and>
     fe (tag (mem w') EMS_ARR_STACKTOP) = EMS_TAG_BUSY"
proof -
  have r: "fe (tag (mem w) EMS_ARR_STACKTOP) = EMS_TAG_FULL" "nelem (mem w) < 2 ^ 31" "0 < nelem (mem w)"
    "word (mem w) EMS_ARR_STACKTOP = word (mem w) EMS_ARR_Q_BOTTOM + nelem (mem w)"
    "0 \<le> word (mem w) EMS_ARR_Q_BOTTOM"
    using rep full by (simp_all add: queue_rep_def Let_def)
  have tr: "EMStransitionFEtag fuel EMS_ARR_STACKTOP None EMS_TAG_FULL EMS_TAG_BUSY EMS_TAG_ANY_code w
     = Some ((tag (mem w) EMS_ARR_STACKTOP)\<lparr>fe := EMS_TAG_BUSY\<rparr>, upd (set_fe EMS_ARR_STACKTOP EMS_TAG_BUSY) (yield w))"
    using q r(1) fuel by (rule transition_quiet)
  show ?thesis
    unfolding EMSenqueue_def tr
    using q r top by (simp add: Let_def)
qed

lemma queue_locked:
  assumes "quiet w" "fe (tag (mem w) EMS_ARR_STACKTOP) \<noteq> EMS_TAG_FULL"
  shows "EMSenqueue fuel v w = None"
  using transition_blocked [OF assms] by (simp add: EMSenqueue_def)

lemma blank_queue: "0 < n \<Longrightarrow> n < 2 ^ 31 \<Longrightarrow> level < 59 \<Longrightarrow> queue_rep (blank_ems n level) []"
  using blank_owned by (simp add: queue_rep_def slots_rep_def Let_def)

section \<open>The queue is a first-in first-out container\<close>

definition fifo :: "datum list \<Rightarrow> datum \<times> datum list" where
  "fifo ds = (hd ds, tl ds)"

definition queue_room :: "ems \<Rightarrow> datum list \<Rightarrow> nat \<Rightarrow> bool" where
  "queue_room m ds k \<longleftrightarrow> int (length ds + k) \<le> nelem m \<and> word m EMS_ARR_STACKTOP + int k < 2 ^ 63"

interpretation queue: container queue_rep queue_room fifo EMSenqueue EMSdequeue
proof
  fix w :: world and ds k v d and fuel :: nat
  assume a: "quiet w" "queue_rep (mem w) ds" "queue_room (mem w) ds (Suc k)" "0 < fuel"
    "value_datum (mem w) v = Some d" "request_ok (datum_bytes d)"
  then have r: "int (length ds) < nelem (mem w)" "word (mem w) EMS_ARR_STACKTOP + 1 < 2 ^ 63"
    by (simp_all add: queue_room_def)
  have "0 \<le> word (mem w) EMS_ARR_STACKTOP mod nelem (mem w)" using r(1) by simp
  with EMSenqueue_spec [OF a(1,2,4) r a(5,6)] show "\<exists>r w'. EMSenqueue fuel v w = Some (r, w') \<and> quiet w' \<and>
      libc_malloc w' = libc_malloc w \<and> (0 \<le> r \<and> queue_rep (mem w') (ds @ [d]) \<and>
      queue_room (mem w') (ds @ [d]) k \<or> r = - 1 \<and> is_text (vtype v))"
    using a(3) by (fastforce simp: queue_room_def)
next
  fix w :: world and ds :: "datum list" and ret k and fuel :: nat
  assume a: "quiet w" "queue_rep (mem w) ds" "ds \<noteq> []" "queue_room (mem w) ds k" "0 < fuel" "op_copy_ok w"
  then have "queue_rep (mem w) (hd ds # tl ds)" "dequeue_copy_ok w (hd ds)"
    by (simp_all add: op_copy_ok_def dequeue_copy_ok_def)
  from EMSdequeue_spec [OF a(1) this(1) a(5) this(2), of ret]
  show "\<exists>v w'. EMSdequeue fuel ret w = Some (True, v, w') \<and> quiet w' \<and> libc_malloc w' = libc_malloc w \<and>
      queue_rep (mem w') (snd (fifo ds)) \<and> queue_room (mem w') (snd (fifo ds)) k \<and>
      value_datum (mem w') v = Some (fst (fifo ds))"
    using a(3,4) by (fastforce simp: fifo_def queue_room_def)
next
  fix w :: world and ret and fuel :: nat
  assume "quiet w" "queue_rep (mem w) []" "0 < fuel"
  from EMSdequeue_empty_spec [OF this, of ret]
  show "\<exists>v w'. EMSdequeue fuel ret w = Some (True, v, w') \<and> quiet w' \<and> libc_malloc w' = libc_malloc w \<and>
      mem w' = mem w \<and> value_datum (mem w') v = Some DUndef"
    by (fastforce simp: value_datum_def)
qed

section \<open>Properties\<close>

lemma queue_enqueue_int:
  "\<exists>r w'. EMSenqueue 1 (int_value 7) (alone (blank_ems 1 2)) = Some (r, w') \<and>
     quiet w' \<and> libc_malloc w' = (\<lambda>_. True) \<and> nelem (mem w') = 1 \<and> queue_rep (mem w') [DInt 7] \<and>
     word (mem w') EMS_ARR_STACKTOP = 1"
  using EMSenqueue_spec [of "alone (blank_ems 1 2)" "[]" 1 "int_value 7" "DInt 7"] blank_queue [of 1 2]
  by (auto simp: int_value_def value_datum_def request_ok_def is_text_def)

text \<open>
  C32: a queue of \<open>n\<close> elements does hold \<open>n\<close>; enqueuing into a full one returns \<open>-1\<close>, but leaves
  the top incremented and its tag busy, so from then on no enqueue returns, however long it waits.
\<close>

theorem EMSenqueue_full_blocks:
  assumes "quiet w" "queue_rep (mem w) ds" "int (length ds) = nelem (mem w)" "0 < fuel"
    and "word (mem w) EMS_ARR_STACKTOP + 1 < 2 ^ 63"
  shows "\<exists>w'. EMSenqueue fuel v w = Some (- 1, w') \<and>
     word (mem w') EMS_ARR_STACKTOP = word (mem w) EMS_ARR_STACKTOP + 1 \<and>
     (\<forall>fuel' v'. EMSenqueue fuel' v' w' = None)"
proof -
  from EMSenqueue_full_spec [OF assms] obtain w' where w': "EMSenqueue fuel v w = Some (- 1, w')" "quiet w'"
    "word (mem w') EMS_ARR_STACKTOP = word (mem w) EMS_ARR_STACKTOP + 1"
    "fe (tag (mem w') EMS_ARR_STACKTOP) = EMS_TAG_BUSY" by blast
  then have "fe (tag (mem w') EMS_ARR_STACKTOP) \<noteq> EMS_TAG_FULL" by simp
  with w' show ?thesis using queue_locked by blast
qed

theorem EMSenqueue_full_blocks_witness:
  "\<exists>w w'. EMSenqueue 1 (int_value 0) w = Some (- 1, w') \<and> EMSenqueue 1000 (int_value 0) w' = None"
proof -
  obtain w where "quiet w" "queue_rep (mem w) [DInt 7]" "nelem (mem w) = 1" "word (mem w) EMS_ARR_STACKTOP = 1"
    using queue_enqueue_int by auto
  then show ?thesis using EMSenqueue_full_blocks [of w "[DInt 7]" 1 "int_value 0"] by auto
qed

text \<open>
  C5: a queue is first-in first-out: any sequence of enqueues (that fit) and dequeues gives exactly
  the data the abstract list gives when dequeues take from its front, the wrap around the ring
  included; a dequeue of the empty queue gives undefined.
\<close>

theorem EMS_queue_is_fifo:
  assumes "quiet w" "queue_rep (mem w) ds" "queue_room (mem w) ds (n_puts ops)" "0 < fuel" "op_copy_ok w"
    and "list_all2 op_datum ops aops"
  shows "\<exists>fin outs w'. run_ops (EMSenqueue fuel) (EMSdequeue fuel) ops w = Some (fin, outs, w') \<and>
    (if fin then outs = map Some (abstract_run fifo aops ds)
     else list_ex op_text ops \<and> prefix outs (map Some (abstract_run fifo aops ds)))"
  using queue.run_refines [of w ds ops 0 fuel aops] assms by simp

theorem EMS_queue_is_fifo_witness:
  "\<exists>w'. run_ops (EMSenqueue 1) (EMSdequeue 1) [Put (int_value 5), Put (int_value 6), Get, Get, Get]
     (alone (blank_ems 2 2)) = Some (True, [Some (DInt 5), Some (DInt 6), Some DUndef], w')"
proof -
  let ?ops = "[Put (int_value 5), Put (int_value 6), Get, Get, Get]"
  let ?aops = "[APut (DInt 5), APut (DInt 6), AGet, AGet, AGet]"
  have "list_all2 op_datum ?ops ?aops"
    by (simp add: op_datum_def int_value_def value_datum_def request_ok_def)
  from EMS_queue_is_fifo [OF _ _ _ _ _ this, of "alone (blank_ems 2 2)" "[]" 1]
  obtain fin outs w' where r: "run_ops (EMSenqueue 1) (EMSdequeue 1) ?ops (alone (blank_ems 2 2)) = Some (fin, outs, w')"
    "if fin then outs = map Some (abstract_run fifo ?aops [])
     else list_ex op_text ?ops \<and> prefix outs (map Some (abstract_run fifo ?aops []))"
    using blank_queue [of 2 2] by (auto simp: queue_room_def op_copy_ok_def)
  moreover have "\<not> list_ex op_text ?ops" by (simp add: op_text_def int_value_def is_text_def)
  ultimately have "fin" "outs = [Some (DInt 5), Some (DInt 6), Some DUndef]"
    by (auto simp: fifo_def split: if_splits)
  with r(1) show ?thesis by simp
qed

end
