(* ===== verification/EmsLoops.thy ===== *)
theory EmsLoops
  imports EmsPrelude
begin

text \<open>
  The control block shared by all processes (an array of 32-bit words, \<open>src/ems.h\<close>) and the
  parallel loops scheduled through it (\<open>src/loops.cc\<close>). A loop hands out chunks of
  iterations; the processes that ask for chunks interleave at the atomic fetch-and-add.
\<close>

section \<open>The control block\<close>

type_synonym ctl = "nat \<Rightarrow> int"

definition EMS_CB_NTHREADS :: nat where "EMS_CB_NTHREADS = 0"
definition EMS_CB_NBAR0 :: nat where "EMS_CB_NBAR0 = 1"
definition EMS_CB_NBAR1 :: nat where "EMS_CB_NBAR1 = 2"
definition EMS_CB_BARPHASE :: nat where "EMS_CB_BARPHASE = 3"
definition EMS_CB_CRITICAL :: nat where "EMS_CB_CRITICAL = 4"
definition EMS_CB_SINGLE :: nat where "EMS_CB_SINGLE = 5"
definition EMS_LOOP_IDX :: nat where "EMS_LOOP_IDX = 6"
definition EMS_LOOP_START :: nat where "EMS_LOOP_START = 7"
definition EMS_LOOP_END :: nat where "EMS_LOOP_END = 8"
definition EMS_LOOP_CHUNKSZ :: nat where "EMS_LOOP_CHUNKSZ = 9"
definition EMS_LOOP_MINCHUNK :: nat where "EMS_LOOP_MINCHUNK = 10"
definition EMS_LOOP_SCHED :: nat where "EMS_LOOP_SCHED = 11"
definition EMS_CB_LOCKS :: nat where "EMS_CB_LOCKS = 12"

definition EMS_SCHED_GUIDED :: int where "EMS_SCHED_GUIDED = 1200"
definition EMS_SCHED_DYNAMIC :: int where "EMS_SCHED_DYNAMIC = 1201"
definition EMS_SCHED_STATIC :: int where "EMS_SCHED_STATIC = 1202"

lemmas ems_ctl_defs =
  EMS_CB_NTHREADS_def EMS_CB_NBAR0_def EMS_CB_NBAR1_def EMS_CB_BARPHASE_def EMS_CB_CRITICAL_def
  EMS_CB_SINGLE_def EMS_LOOP_IDX_def EMS_LOOP_START_def EMS_LOOP_END_def EMS_LOOP_CHUNKSZ_def
  EMS_LOOP_MINCHUNK_def EMS_LOOP_SCHED_def EMS_CB_LOCKS_def EMS_SCHED_GUIDED_def EMS_SCHED_DYNAMIC_def
  EMS_SCHED_STATIC_def

section \<open>Loop initialisation\<close>

text \<open>Signed overflow is written as wrap-around; the properties assume there is none.\<close>

definition EMSloopInit :: "int \<Rightarrow> int \<Rightarrow> int \<Rightarrow> int \<Rightarrow> ctl \<Rightarrow> bool \<times> ctl" where
  "EMSloopInit start stop minChunk schedule_mode cb =
     (let cb = cb(EMS_LOOP_IDX := start, EMS_LOOP_START := start, EMS_LOOP_END := stop) in
      if schedule_mode = EMS_SCHED_GUIDED then
        (let sz = wrap32 (stop - start) sdiv 2 sdiv cb EMS_CB_NTHREADS;
             sz = (if sz < minChunk then minChunk else sz) in
         (True, cb(EMS_LOOP_CHUNKSZ := sz, EMS_LOOP_MINCHUNK := minChunk,
                   EMS_LOOP_SCHED := EMS_SCHED_GUIDED)))
      else if schedule_mode = EMS_SCHED_DYNAMIC then
        (True, cb(EMS_LOOP_CHUNKSZ := 1, EMS_LOOP_MINCHUNK := 1, EMS_LOOP_SCHED := EMS_SCHED_DYNAMIC))
      else (False, cb))"

section \<open>Asking for a chunk\<close>

text \<open>
  \<open>EMSloopChunk\<close> is split at its shared accesses: it reads the chunk size, fetches and adds it to
  the loop index, then computes the end of its chunk and the size of the next one.
\<close>

definition chunk_fetch_add :: "int \<Rightarrow> ctl \<Rightarrow> int \<times> ctl" where
  "chunk_fetch_add chunkSize cb =
     (cb EMS_LOOP_IDX, cb(EMS_LOOP_IDX := wrap32 (cb EMS_LOOP_IDX + chunkSize)))"

definition chunk_end :: "int \<Rightarrow> int \<Rightarrow> int \<Rightarrow> int" where
  "chunk_end hi start chunkSize =
     (let e = wrap32 (start + chunkSize);
          e = (if start > hi then 0 else e) in
      if e > hi then hi else e)"

definition chunk_resize :: "int \<Rightarrow> ctl \<Rightarrow> ctl" where
  "chunk_resize start cb =
     (if cb EMS_LOOP_SCHED = EMS_SCHED_GUIDED then
        (let newSz = wrap32 (cb EMS_LOOP_END - start) sdiv 2 sdiv cb EMS_CB_NTHREADS;
             newSz = (if newSz < cb EMS_LOOP_MINCHUNK then cb EMS_LOOP_MINCHUNK else newSz) in
         cb(EMS_LOOP_CHUNKSZ := newSz))
      else cb)"

text \<open>Without interleaving: the result, the two output arguments, the control block.\<close>

definition EMSloopChunk :: "ctl \<Rightarrow> bool \<times> int \<times> int \<times> ctl" where
  "EMSloopChunk cb =
     (let chunkSize = cb EMS_LOOP_CHUNKSZ;
          (start, cb) = chunk_fetch_add chunkSize cb;
          stop = chunk_end (cb EMS_LOOP_END) start chunkSize in
      (True, start, stop, chunk_resize start cb))"

section \<open>Processes working on a loop\<close>

text \<open>
  Each process asks for chunks until it gets an empty one, as the client loop does. Its program
  counter is between calls, after reading the size, after the fetch-and-add, or out of the loop.
  \<open>claims\<close> records every fetch-and-add, in order.
\<close>

datatype loop_pc = LReady | LSized int | LClaimed int int | LDone

record loop_state =
  block :: ctl
  pcs :: "nat \<Rightarrow> loop_pc"
  claims :: "(int \<times> int) list"

text \<open>The side condition of \<open>ls_claim\<close> restricts to executions whose index does not overflow.\<close>

inductive loop_step :: "loop_state \<Rightarrow> loop_state \<Rightarrow> bool" where
  ls_size: "pcs s t = LReady \<Longrightarrow>
     loop_step s (s\<lparr>pcs := (pcs s)(t := LSized (block s EMS_LOOP_CHUNKSZ))\<rparr>)"
| ls_claim: "pcs s t = LSized c \<Longrightarrow> chunk_fetch_add c (block s) = (start, cb') \<Longrightarrow> start + c < 2 ^ 31 \<Longrightarrow>
     loop_step s (s\<lparr>block := cb', pcs := (pcs s)(t := LClaimed start c), claims := claims s @ [(start, c)]\<rparr>)"
| ls_return: "pcs s t = LClaimed start c \<Longrightarrow>
     loop_step s (s\<lparr>block := chunk_resize start (block s),
       pcs := (pcs s)(t := (if chunk_end (block s EMS_LOOP_END) start c - start > 0 then LReady else LDone))\<rparr>)"

definition loop_start :: "ctl \<Rightarrow> loop_state" where
  "loop_start c = \<lparr>block = c, pcs = (\<lambda>_. LReady), claims = []\<rparr>"

inductive loop_reach :: "ctl \<Rightarrow> loop_state \<Rightarrow> bool" for c where
  loop_reach_start: "loop_reach c (loop_start c)"
| loop_reach_step: "loop_reach c s \<Longrightarrow> loop_step s s' \<Longrightarrow> loop_reach c s'"

text \<open>The chunk the caller gets for a claim, and how many chunks contain an iteration.\<close>

definition chunks :: "loop_state \<Rightarrow> (int \<times> int) list" where
  "chunks s = map (\<lambda>(start, c). (start, chunk_end (block s EMS_LOOP_END) start c)) (claims s)"

definition times_scheduled :: "(int \<times> int) list \<Rightarrow> int \<Rightarrow> nat" where
  "times_scheduled cs i = length (filter (\<lambda>(a, b). a \<le> i \<and> i < b) cs)"

section \<open>The invariant\<close>

text \<open>
  The claims tile the range from the first iteration to the loop index; sizes are positive; the
  bounds of the loop do not change.
\<close>

definition loop_inv :: "int \<Rightarrow> int \<Rightarrow> int \<Rightarrow> loop_state \<Rightarrow> bool" where
  "loop_inv lo hi n s \<longleftrightarrow>
     block s EMS_LOOP_END = hi \<and> lo \<le> block s EMS_LOOP_IDX \<and> block s EMS_LOOP_IDX < 2 ^ 31 \<and>
     0 < block s EMS_LOOP_CHUNKSZ \<and> 0 < block s EMS_LOOP_MINCHUNK \<and> block s EMS_CB_NTHREADS = n \<and>
     (\<forall>i. times_scheduled (map (\<lambda>(a, c). (a, a + c)) (claims s)) i =
            (if lo \<le> i \<and> i < block s EMS_LOOP_IDX then 1 else 0)) \<and>
     (\<forall>(a, c) \<in> set (claims s). lo \<le> a \<and> 0 < c \<and> a + c \<le> block s EMS_LOOP_IDX) \<and>
     (\<forall>t c. pcs s t = LSized c \<longrightarrow> 0 < c) \<and>
     (\<forall>t a c. pcs s t = LClaimed a c \<longrightarrow> (a, c) \<in> set (claims s)) \<and>
     (\<forall>t. pcs s t = LDone \<longrightarrow> hi \<le> block s EMS_LOOP_IDX)"

lemma loop_idx_distinct [simp]:
  "EMS_LOOP_END \<noteq> EMS_LOOP_IDX" "EMS_LOOP_CHUNKSZ \<noteq> EMS_LOOP_IDX" "EMS_LOOP_MINCHUNK \<noteq> EMS_LOOP_IDX"
  "EMS_CB_NTHREADS \<noteq> EMS_LOOP_IDX" "EMS_LOOP_END \<noteq> EMS_LOOP_CHUNKSZ" "EMS_LOOP_IDX \<noteq> EMS_LOOP_CHUNKSZ"
  "EMS_LOOP_MINCHUNK \<noteq> EMS_LOOP_CHUNKSZ" "EMS_CB_NTHREADS \<noteq> EMS_LOOP_CHUNKSZ"
  "EMS_LOOP_IDX \<noteq> EMS_LOOP_START" "EMS_LOOP_IDX \<noteq> EMS_LOOP_END" "EMS_LOOP_IDX \<noteq> EMS_LOOP_MINCHUNK"
  "EMS_LOOP_IDX \<noteq> EMS_LOOP_SCHED" "EMS_LOOP_END \<noteq> EMS_LOOP_MINCHUNK" "EMS_LOOP_END \<noteq> EMS_LOOP_SCHED"
  "EMS_LOOP_CHUNKSZ \<noteq> EMS_LOOP_MINCHUNK" "EMS_LOOP_CHUNKSZ \<noteq> EMS_LOOP_SCHED" "EMS_LOOP_MINCHUNK \<noteq> EMS_LOOP_SCHED"
  "EMS_CB_NTHREADS \<noteq> EMS_LOOP_START" "EMS_CB_NTHREADS \<noteq> EMS_LOOP_END" "EMS_CB_NTHREADS \<noteq> EMS_LOOP_MINCHUNK"
  "EMS_CB_NTHREADS \<noteq> EMS_LOOP_SCHED" "EMS_LOOP_END \<noteq> EMS_LOOP_START"
  by (simp_all add: ems_ctl_defs)

lemma chunk_resize_sel [simp]:
  "k \<noteq> EMS_LOOP_CHUNKSZ \<Longrightarrow> chunk_resize a c k = c k"
  by (simp add: chunk_resize_def Let_def)

lemma chunk_resize_pos:
  "0 < c EMS_LOOP_CHUNKSZ \<Longrightarrow> 0 < c EMS_LOOP_MINCHUNK \<Longrightarrow> 0 < chunk_resize a c EMS_LOOP_CHUNKSZ"
  by (simp add: chunk_resize_def Let_def)

lemma times_scheduled_snoc:
  "times_scheduled (cs @ [(a, b)]) i = times_scheduled cs i + (if a \<le> i \<and> i < b then 1 else 0)"
  by (simp add: times_scheduled_def)

text \<open>A chunk is its claim cut at the end of the loop; the chunk of a late claim is empty.\<close>

lemma chunk_end_cut:
  assumes "- (2 ^ 31) \<le> a" "0 < c" "a + c < 2 ^ 31" "- (2 ^ 31) \<le> hi"
  shows "a \<le> i \<and> i < chunk_end hi a c \<longleftrightarrow> a \<le> i \<and> i < a + c \<and> i < hi"
  using assms by (auto simp: chunk_end_def Let_def)

lemma loop_inv_step:
  assumes inv: "loop_inv lo hi n s" and lo: "- (2 ^ 31) \<le> lo" "- (2 ^ 31) \<le> hi" and step: "loop_step s s'"
  shows "loop_inv lo hi n s'"
  using step
proof cases
  case (ls_size t)
  then show ?thesis using inv by (auto simp: loop_inv_def)
next
  case (ls_claim t c start cb')
  have c0: "start = block s EMS_LOOP_IDX" "0 < c" "lo \<le> start"
    using ls_claim inv by (auto simp: loop_inv_def chunk_fetch_add_def)
  then have "wrap32 (start + c) = start + c" using lo ls_claim(4) by (intro wrap32_id) simp_all
  then have c: "start = block s EMS_LOOP_IDX" "cb' = (block s)(EMS_LOOP_IDX := start + c)" "0 < c" "lo \<le> start"
    using c0 ls_claim(3) by (auto simp: chunk_fetch_add_def)
  have cl: "claims s' = claims s @ [(start, c)]" "block s' = cb'" "pcs s' = (pcs s)(t := LClaimed start c)"
    using ls_claim(1) by simp_all
  have "times_scheduled (map (\<lambda>(a, c). (a, a + c)) (claims s')) i =
      (if lo \<le> i \<and> i < block s' EMS_LOOP_IDX then 1 else 0)" for i
    using inv c by (auto simp: loop_inv_def cl times_scheduled_snoc)
  moreover have "\<forall>(a, c) \<in> set (claims s'). lo \<le> a \<and> 0 < c \<and> a + c \<le> block s' EMS_LOOP_IDX"
    using inv c by (auto simp: loop_inv_def cl)
  ultimately show ?thesis
    using inv c ls_claim(4) unfolding loop_inv_def cl by auto
next
  case (ls_return t start c)
  have cl: "(start, c) \<in> set (claims s)" using inv ls_return(2) by (auto simp: loop_inv_def)
  then have cc: "lo \<le> start" "0 < c" "start + c \<le> block s EMS_LOOP_IDX" "block s EMS_LOOP_IDX < 2 ^ 31"
    using inv by (auto simp: loop_inv_def)
  have "hi \<le> block s EMS_LOOP_IDX" if "\<not> chunk_end hi start c - start > 0"
    using chunk_end_cut [of start c hi start] cc lo that by linarith
  moreover have "0 < chunk_resize start (block s) EMS_LOOP_CHUNKSZ"
    using inv by (intro chunk_resize_pos) (auto simp: loop_inv_def)
  ultimately show ?thesis
    using inv ls_return(1) by (auto simp: loop_inv_def)
qed

lemma loop_inv_reach:
  assumes "loop_inv lo hi n (loop_start c)" "- (2 ^ 31) \<le> lo" "- (2 ^ 31) \<le> hi" "loop_reach c s"
  shows "loop_inv lo hi n s"
  using assms(4)
proof induction
  case loop_reach_start show ?case by (rule assms(1))
next
  case (loop_reach_step s s') then show ?case using loop_inv_step assms(2,3) by blast
qed

lemma loop_inv_start:
  assumes "EMSloopInit lo hi minChunk mode c = (True, c')" "0 < minChunk" "lo < 2 ^ 31"
  shows "loop_inv lo hi (c EMS_CB_NTHREADS) (loop_start c')"
proof -
  have "c' EMS_LOOP_END = hi" "c' EMS_LOOP_IDX = lo" "0 < c' EMS_LOOP_CHUNKSZ" "0 < c' EMS_LOOP_MINCHUNK"
    "c' EMS_CB_NTHREADS = c EMS_CB_NTHREADS"
    using assms(1,2) by (auto simp: EMSloopInit_def Let_def split: if_splits)
  then show ?thesis
    using assms(3) by (simp add: loop_inv_def loop_start_def times_scheduled_def)
qed

lemma times_chunks:
  assumes "\<forall>(a, c) \<in> set cs. - (2 ^ 31) \<le> a \<and> 0 < c \<and> a + c < 2 ^ 31" "- (2 ^ 31) \<le> hi"
  shows "times_scheduled (map (\<lambda>(a, c). (a, chunk_end hi a c)) cs) i =
     (if i < hi then times_scheduled (map (\<lambda>(a, c). (a, a + c)) cs) i else 0)"
  using assms(1)
proof (induction cs)
  case (Cons p cs)
  obtain a c where p: "p = (a, c)" by fastforce
  have cons: "times_scheduled ((x, y) # ps) i = (if x \<le> i \<and> i < y then 1 else 0) + times_scheduled ps i"
    for x y ps by (simp add: times_scheduled_def)
  have "(a \<le> i \<and> i < chunk_end hi a c) = (a \<le> i \<and> i < a + c \<and> i < hi)"
    using Cons.prems assms(2) p by (intro chunk_end_cut) auto
  moreover have "\<forall>(a, c) \<in> set cs. - (2 ^ 31) \<le> a \<and> 0 < c \<and> a + c < 2 ^ 31"
    using Cons.prems by simp
  note Cons.IH [OF this]
  ultimately show ?case by (simp add: p cons)
qed (simp add: times_scheduled_def)

lemma loop_inv_chunks:
  assumes "loop_inv lo hi n s" "- (2 ^ 31) \<le> lo" "- (2 ^ 31) \<le> hi"
  shows "times_scheduled (chunks s) i = (if lo \<le> i \<and> i < hi \<and> i < block s EMS_LOOP_IDX then 1 else 0)"
proof -
  have "\<forall>(a, c) \<in> set (claims s). - (2 ^ 31) \<le> a \<and> 0 < c \<and> a + c < 2 ^ 31"
    using assms by (fastforce simp: loop_inv_def)
  from times_chunks [OF this assms(3)] show ?thesis
    using assms(1) by (auto simp: chunks_def loop_inv_def)
qed

section \<open>Properties\<close>

text \<open>
  C6: however the processes interleave, no iteration is handed out twice and none outside the
  loop; and once any process has left the loop, every iteration has been handed out exactly once.
\<close>

theorem EMSloop_exactly_once:
  assumes "EMSloopInit lo hi minChunk mode c = (True, c')" "0 < minChunk"
    and "- (2 ^ 31) \<le> lo" "lo < 2 ^ 31" "- (2 ^ 31) \<le> hi" "loop_reach c' s"
  shows "times_scheduled (chunks s) i \<le> (if lo \<le> i \<and> i < hi then 1 else 0) \<and>
     (pcs s t = LDone \<longrightarrow> times_scheduled (chunks s) i = (if lo \<le> i \<and> i < hi then 1 else 0))"
proof -
  have inv: "loop_inv lo hi (c EMS_CB_NTHREADS) s"
    using loop_inv_reach [OF loop_inv_start [OF assms(1,2,4)] assms(3,5,6)] .
  have "pcs s t = LDone \<Longrightarrow> hi \<le> block s EMS_LOOP_IDX" using inv by (auto simp: loop_inv_def)
  then show ?thesis using loop_inv_chunks [OF inv assms(3,5)] by auto
qed

text \<open>A process alone in the loop over \<open>0\<close>: it gets the chunk of one iteration, then an empty one.\<close>

definition one_loop :: ctl where
  "one_loop = snd (EMSloopInit 0 1 1 EMS_SCHED_DYNAMIC ((\<lambda>_. 0)(EMS_CB_NTHREADS := 1)))"

lemma one_loop_reach: "\<exists>s. loop_reach one_loop s \<and> pcs s 0 = LDone"
proof -
  have cbs: "one_loop EMS_LOOP_IDX = 0" "one_loop EMS_LOOP_CHUNKSZ = 1" "one_loop EMS_LOOP_END = 1"
    "one_loop EMS_LOOP_SCHED = EMS_SCHED_DYNAMIC"
    by (simp_all add: one_loop_def EMSloopInit_def ems_ctl_defs)
  have res: "chunk_resize a c = c" if "c EMS_LOOP_SCHED = EMS_SCHED_DYNAMIC" for a c
    using that by (simp add: chunk_resize_def ems_ctl_defs)
  define s where "s i c p = \<lparr>block = one_loop(EMS_LOOP_IDX := i), pcs = (\<lambda>_. LReady)(0 := p), claims = c\<rparr>" for i c p
  have sched: "(one_loop(EMS_LOOP_IDX := i)) EMS_LOOP_SCHED = EMS_SCHED_DYNAMIC" for i
    using cbs by (simp add: ems_ctl_defs)
  have 0: "loop_reach one_loop (s 0 [] LReady)"
    using loop_reach_start [of one_loop] cbs(1) by (simp add: s_def loop_start_def fun_upd_idem)
  have size: "loop_step (s i c LReady) (s i c (LSized 1))" for i c
    using ls_size [of "s i c LReady" 0] cbs by (simp add: s_def)
  have claim: "loop_step (s i c (LSized 1)) (s (i + 1) (c @ [(i, 1)]) (LClaimed i 1))" if "i \<in> {0, 1}" for i c
    using ls_claim [of "s i c (LSized 1)" 0 1 i "one_loop(EMS_LOOP_IDX := i + 1)"] that
    by (auto simp: s_def chunk_fetch_add_def)
  have ret: "loop_step (s i c (LClaimed a 1)) (s i c (if chunk_end 1 a 1 - a > 0 then LReady else LDone))" for i c a
    using ls_return [of "s i c (LClaimed a 1)" 0 a 1] cbs(3) res [of "one_loop(EMS_LOOP_IDX := i)" a, OF sched]
    by (simp add: s_def)
  have 1: "loop_reach one_loop (s (0 + 1) [(0, 1)] LReady)"
    using loop_reach_step [OF loop_reach_step [OF loop_reach_step [OF 0 size] claim] ret]
    by (simp add: chunk_end_def)
  have "loop_reach one_loop (s (1 + 1) [(0, 1), (1, 1)] LDone)"
    using loop_reach_step [OF loop_reach_step [OF loop_reach_step [OF 1 [simplified] size] claim] ret]
    by (simp add: chunk_end_def)
  then show ?thesis by (auto simp: s_def)
qed

theorem EMSloop_exactly_once_witness:
  "\<exists>s. loop_reach one_loop s \<and> times_scheduled (chunks s) 0 = 1 \<and> times_scheduled (chunks s) 1 = 0"
proof -
  from one_loop_reach obtain s where s: "loop_reach one_loop s" "pcs s 0 = LDone" by blast
  have "EMSloopInit 0 1 1 EMS_SCHED_DYNAMIC ((\<lambda>_. 0)(EMS_CB_NTHREADS := 1)) = (True, one_loop)"
    by (simp add: one_loop_def EMSloopInit_def ems_ctl_defs)
  from EMSloop_exactly_once [OF this _ _ _ _ s(1), of _ 0] s(2)
  have "times_scheduled (chunks s) i = (if 0 \<le> i \<and> i < 1 then 1 else 0)" for i by auto
  with s(1) show ?thesis by auto
qed

end
