(* ===== verification/EmsCollectives.thy ===== *)
theory EmsCollectives
  imports EmsLoops
begin

text \<open>
  The collective operations on the shared control block, \<open>src/collectives.cc\<close>: single
  execution, critical regions and the phased barrier. Each operation is given as a function of
  what the other processes do at its naps, and its atomic accesses as the steps of a system of
  many processes.
\<close>

section \<open>Single execution\<close>

definition EMSsingleTask :: "ctl \<Rightarrow> bool \<times> ctl" where
  "EMSsingleTask cb =
     (let retval = cb EMS_CB_SINGLE;
          cb = cb(EMS_CB_SINGLE := wrap32 (retval + 1));
          cb = (if retval = wrap32 (cb EMS_CB_NTHREADS - 1) then cb(EMS_CB_SINGLE := 0) else cb) in
      (retval = 0, cb))"

text \<open>\<open>n\<close> calls, one after the other, and their results.\<close>

fun single_calls :: "nat \<Rightarrow> ctl \<Rightarrow> bool list \<times> ctl" where
  "single_calls 0 cb = ([], cb)"
| "single_calls (Suc n) cb =
     (let (r, cb) = EMSsingleTask cb; (rs, cb) = single_calls n cb in (r # rs, cb))"

section \<open>Critical regions\<close>

definition critical_cas :: "ctl \<Rightarrow> bool \<times> ctl" where
  "critical_cas cb =
     (if cb EMS_CB_CRITICAL = 0 then (True, cb(EMS_CB_CRITICAL := 1)) else (False, cb))"

text \<open>
  \<open>EMS_TAG_FULL\<close> (0) is the free lock, \<open>EMS_TAG_EMPTY\<close> (1) the taken one. \<open>env k\<close> is what the
  other processes do during the \<open>k\<close>th nap.
\<close>

function EMScriticalEnter :: "(nat \<Rightarrow> ctl \<Rightarrow> ctl) \<Rightarrow> nat \<Rightarrow> int \<Rightarrow> ctl \<Rightarrow> int \<times> ctl" where
  "EMScriticalEnter env k timeout cb =
     (let (ok, cb) = critical_cas cb in
      if \<not> ok \<and> timeout > 0 then EMScriticalEnter env (Suc k) (timeout - 1) (env k cb)
      else (timeout, cb))"
  by pat_completeness auto
termination
  by (relation "measure (\<lambda>(env, k, timeout, cb). nat timeout)") auto

declare EMScriticalEnter.simps [simp del]

definition EMScriticalExit :: "ctl \<Rightarrow> bool \<times> ctl" where
  "EMScriticalExit cb =
     (if cb EMS_CB_CRITICAL \<noteq> 1 then (False, cb) else (True, cb(EMS_CB_CRITICAL := 0)))"

section \<open>The barrier\<close>

definition barrier_arrive :: "int \<Rightarrow> ctl \<Rightarrow> int \<times> ctl" where
  "barrier_arrive barPhase cb =
     (let a = nat (int EMS_CB_NBAR0 + barPhase) in (cb a, cb(a := wrap32 (cb a - 1))))"

definition barrier_reset :: "int \<Rightarrow> ctl \<Rightarrow> ctl" where
  "barrier_reset barPhase cb = cb(nat (int EMS_CB_NBAR0 + barPhase) := cb EMS_CB_NTHREADS)"

definition barrier_flip :: "int \<Rightarrow> ctl \<Rightarrow> ctl" where
  "barrier_flip barPhase cb = cb(EMS_CB_BARPHASE := (if barPhase = 0 then 1 else 0))"

function barrier_wait :: "(nat \<Rightarrow> ctl \<Rightarrow> ctl) \<Rightarrow> nat \<Rightarrow> int \<Rightarrow> int \<Rightarrow> ctl \<Rightarrow> int \<times> ctl" where
  "barrier_wait env k barPhase timeout cb =
     (if timeout > 0 \<and> barPhase = cb EMS_CB_BARPHASE
      then barrier_wait env (Suc k) barPhase (timeout - 1) (env k cb)
      else (timeout, cb))"
  by pat_completeness auto
termination
  by (relation "measure (\<lambda>(env, k, p, timeout, cb). nat timeout)") auto

declare barrier_wait.simps [simp del]

text \<open>The race of the code's error message returns \<open>false\<close>, that is 0.\<close>

definition EMSbarrier :: "(nat \<Rightarrow> ctl \<Rightarrow> ctl) \<Rightarrow> int \<Rightarrow> ctl \<Rightarrow> int \<times> ctl" where
  "EMSbarrier env timeout cb =
     (let barPhase = cb EMS_CB_BARPHASE;
          (retval, cb) = barrier_arrive barPhase cb in
      if retval < 0 then (0, cb)
      else if retval = 1 then (timeout, barrier_flip barPhase (barrier_reset barPhase cb))
      else barrier_wait env 0 barPhase timeout cb)"

section \<open>Single execution: one true result in a round\<close>

lemma ctl_distinct [simp]:
  "EMS_CB_NTHREADS \<noteq> EMS_CB_SINGLE" "EMS_CB_SINGLE \<noteq> EMS_CB_NTHREADS"
  "EMS_CB_BARPHASE \<noteq> EMS_CB_NTHREADS" "EMS_CB_NTHREADS \<noteq> EMS_CB_BARPHASE"
  by (simp_all add: ems_ctl_defs)

lemma single_calls_from:
  assumes "cb EMS_CB_NTHREADS = int n" "cb EMS_CB_SINGLE = int j" "j < n" "int n < 2 ^ 31"
  shows "single_calls (n - j) cb = ((j = 0) # replicate (n - j - 1) False, cb(EMS_CB_SINGLE := 0))"
  using assms(2,3) assms(1)
proof (induction "n - j" arbitrary: j cb)
  case (Suc k)
  have w: "wrap32 (int n - 1) = int n - 1" "wrap32 (int j + 1) = int j + 1"
    using Suc.prems(2) assms(4) by (simp_all)
  show ?case
  proof (cases "Suc j = n")
    case True
    then have "n - j = Suc 0" by simp
    then show ?thesis
      using Suc.prems w True by (auto simp: EMSsingleTask_def Let_def)
  next
    case False
    let ?cb = "cb(EMS_CB_SINGLE := int j + 1)"
    have k: "n - j = Suc (n - Suc j)" "k = n - Suc j" "Suc j < n"
      using Suc.hyps(2) Suc.prems(2) False by simp_all
    have "single_calls (n - Suc j) ?cb = ((Suc j = 0) # replicate (n - Suc j - 1) False, ?cb(EMS_CB_SINGLE := 0))"
      by (rule Suc.hyps(1)) (use k Suc.prems in simp_all)
    moreover have "EMSsingleTask cb = (j = 0, ?cb)"
      using Suc.prems w False by (auto simp: EMSsingleTask_def Let_def)
    moreover obtain r where "n - Suc j = Suc r" using k(3) by (cases "n - Suc j") simp_all
    ultimately show ?thesis unfolding k(1) by simp
  qed
qed simp

text \<open>
  When the processes of a program pass a single-execution point one after the other, exactly
  the first is told to execute, and the counter is ready for the next point.
\<close>

lemma EMSsingleTask_once:
  assumes "cb EMS_CB_NTHREADS = int n" "0 < n" "int n < 2 ^ 31" "cb EMS_CB_SINGLE = 0"
  shows "single_calls n cb = (True # replicate (n - 1) False, cb)"
  using single_calls_from [of cb n 0] assms by (simp add: fun_upd_idem)

section \<open>Critical regions exclude each other\<close>

text \<open>The processes that are inside; entering is one successful attempt of the waiting loop.\<close>

inductive critical_step :: "ctl \<times> nat set \<Rightarrow> ctl \<times> nat set \<Rightarrow> bool" where
  cs_enter: "t \<notin> I \<Longrightarrow> critical_cas c = (True, c') \<Longrightarrow> critical_step (c, I) (c', insert t I)"
| cs_fail: "t \<notin> I \<Longrightarrow> critical_cas c = (False, c') \<Longrightarrow> critical_step (c, I) (c', I)"
| cs_exit: "t \<in> I \<Longrightarrow> EMScriticalExit c = (ok, c') \<Longrightarrow> critical_step (c, I) (c', I - {t})"

inductive critical_reach :: "ctl \<times> nat set \<Rightarrow> bool" where
  "c EMS_CB_CRITICAL = 0 \<Longrightarrow> critical_reach (c, {})"
| "critical_reach s \<Longrightarrow> critical_step s s' \<Longrightarrow> critical_reach s'"

inductive_cases critical_stepE: "critical_step (c, I) s"

definition critical_inv :: "ctl \<times> nat set \<Rightarrow> bool" where
  "critical_inv s \<longleftrightarrow> (\<exists>t. snd s = {t} \<and> fst s EMS_CB_CRITICAL = 1) \<or> snd s = {} \<and> fst s EMS_CB_CRITICAL = 0"

lemma critical_inv_step: "critical_step s s' \<Longrightarrow> critical_inv s \<Longrightarrow> critical_inv s'"
  by (induction rule: critical_step.induct)
    (auto simp: critical_inv_def critical_cas_def EMScriticalExit_def split: if_splits)

lemma critical_reach_inv: "critical_reach s \<Longrightarrow> critical_inv s"
proof (induction rule: critical_reach.induct)
  case (2 s s') then show ?case using critical_inv_step by blast
qed (simp add: critical_inv_def)

text \<open>
  C17: at most one process is inside a critical region, and the exit of the process inside
  succeeds and frees the lock.
\<close>

theorem EMScritical_mutual_exclusion:
  assumes "critical_reach (c, I)" "t \<in> I"
  shows "I = {t} \<and> EMScriticalExit c = (True, c(EMS_CB_CRITICAL := 0))"
  using critical_reach_inv [OF assms(1)] assms(2) by (auto simp: critical_inv_def EMScriticalExit_def)

theorem EMScritical_mutual_exclusion_witness:
  "EMScriticalExit ((\<lambda>_. 0)(EMS_CB_CRITICAL := 1)) = (True, (\<lambda>_. 0)(EMS_CB_CRITICAL := 0))"
proof -
  have "critical_reach ((\<lambda>_. 0)(EMS_CB_CRITICAL := 1), insert 4 {})"
    using critical_reach.intros(2) [OF critical_reach.intros(1) cs_enter, of "\<lambda>_. 0" 4]
    by (simp add: critical_cas_def)
  from EMScritical_mutual_exclusion [OF this, of 4] show ?thesis by simp
qed

text \<open>
  The control block at the \<open>j\<close>th attempt of a call that has not got the lock before: the attempts
  leave it alone, and the others act between them.
\<close>

fun critical_at :: "(nat \<Rightarrow> ctl \<Rightarrow> ctl) \<Rightarrow> nat \<Rightarrow> ctl \<Rightarrow> nat \<Rightarrow> ctl" where
  "critical_at env k cb 0 = cb"
| "critical_at env k cb (Suc j) = env (k + j) (critical_at env k cb j)"

lemma critical_at_shift: "critical_at env (Suc k) (env k cb) j = critical_at env k cb (Suc j)"
  by (induction j) simp_all

lemma critical_enter_free:
  "cb EMS_CB_CRITICAL = 0 \<Longrightarrow> EMScriticalEnter env k timeout cb = (timeout, cb(EMS_CB_CRITICAL := 1))"
  by (simp add: EMScriticalEnter.simps [of _ _ _ cb] critical_cas_def fun_upd_def)

lemma critical_enter_taken:
  "cb EMS_CB_CRITICAL \<noteq> 0 \<Longrightarrow> EMScriticalEnter env k timeout cb =
    (if 0 < timeout then EMScriticalEnter env (Suc k) (timeout - 1) (env k cb) else (timeout, cb))"
  by (simp add: EMScriticalEnter.simps [of _ _ _ cb] critical_cas_def)

lemma critical_enter_gets:
  assumes "int j \<le> max 0 timeout" "critical_at env k cb j EMS_CB_CRITICAL = 0"
    and "\<forall>i < j. critical_at env k cb i EMS_CB_CRITICAL \<noteq> 0"
  shows "EMScriticalEnter env k timeout cb = (timeout - int j, (critical_at env k cb j)(EMS_CB_CRITICAL := 1))"
  using assms
proof (induction j arbitrary: k timeout cb)
  case 0
  then show ?case using critical_enter_free [of cb env k timeout] by (auto simp: fun_eq_iff)
next
  case (Suc j)
  have "cb EMS_CB_CRITICAL \<noteq> 0" "0 < timeout" using Suc.prems(1) Suc.prems(3) [rule_format, of 0] by auto
  moreover have left: "int j \<le> max 0 (timeout - 1)" using Suc.prems(1) by simp
  have "\<forall>i < j. critical_at env (Suc k) (env k cb) i EMS_CB_CRITICAL \<noteq> 0"
    using Suc.prems(3) unfolding critical_at_shift by blast
  from Suc.IH [OF left Suc.prems(2) [folded critical_at_shift] this] have "EMScriticalEnter env (Suc k) (timeout - 1) (env k cb) =
      (timeout - 1 - int j, (critical_at env (Suc k) (env k cb) j)(EMS_CB_CRITICAL := 1))" .
  ultimately show ?case by (auto simp: critical_enter_taken critical_at_shift fun_eq_iff)
qed

lemma critical_enter_gives_up:
  assumes "\<forall>j. int j \<le> max 0 timeout \<longrightarrow> critical_at env k cb j EMS_CB_CRITICAL \<noteq> 0"
  shows "EMScriticalEnter env k timeout cb = (min timeout 0, critical_at env k cb (nat timeout))"
  using assms
proof (induction "nat timeout" arbitrary: k timeout cb)
  case 0
  then show ?case using 0(2) [rule_format, of 0] by (simp add: critical_enter_taken)
next
  case (Suc j)
  have t: "0 < timeout" "nat timeout = Suc (nat (timeout - 1))" using Suc.hyps(2) by simp_all
  have "critical_at env (Suc k) (env k cb) i EMS_CB_CRITICAL \<noteq> 0" if "int i \<le> max 0 (timeout - 1)" for i
    using Suc.prems [rule_format, of "Suc i"] that t unfolding critical_at_shift by auto
  then have "EMScriticalEnter env (Suc k) (timeout - 1) (env k cb) =
      (min (timeout - 1) 0, critical_at env (Suc k) (env k cb) (nat (timeout - 1)))"
    using Suc.hyps(2) by (intro Suc.hyps(1)) auto
  then show ?case using t Suc.prems [rule_format, of 0] by (simp add: critical_enter_taken critical_at_shift)
qed

text \<open>
  C38: whatever the others do, \<open>EMScriticalEnter\<close> ends after at most \<open>timeout\<close> naps. It takes the lock
  at the first of its attempts that finds it free and returns the naps that were left; when none
  does, it returns zero (or the timeout, if that was negative) and the control block is as the others
  left it. So a positive result means that the lock is taken, but zero does not say: the call that
  takes the lock after its last nap and the one that never does both return it.
\<close>

theorem EMScriticalEnter_result:
  "(\<forall>j. int j \<le> max 0 timeout \<longrightarrow> critical_at env k cb j EMS_CB_CRITICAL = 0 \<longrightarrow>
      (\<forall>i < j. critical_at env k cb i EMS_CB_CRITICAL \<noteq> 0) \<longrightarrow>
      EMScriticalEnter env k timeout cb = (timeout - int j, (critical_at env k cb j)(EMS_CB_CRITICAL := 1))) \<and>
   ((\<forall>j. int j \<le> max 0 timeout \<longrightarrow> critical_at env k cb j EMS_CB_CRITICAL \<noteq> 0) \<longrightarrow>
      EMScriticalEnter env k timeout cb = (min timeout 0, critical_at env k cb (nat timeout)))"
  using critical_enter_gets [of _ timeout env k cb] critical_enter_gives_up [of timeout env k cb] by blast

text \<open>A lock that becomes free during the only nap, and one that does not.\<close>

theorem EMScriticalEnter_result_witness:
  "EMScriticalEnter (\<lambda>_ c. c(EMS_CB_CRITICAL := 0)) 0 1 (\<lambda>_. 1) = (0, (\<lambda>_. 1)) \<and>
   EMScriticalEnter (\<lambda>_ c. c) 0 1 (\<lambda>_. 1) = (0, (\<lambda>_. 1))"
proof
  show "EMScriticalEnter (\<lambda>_ c. c(EMS_CB_CRITICAL := 0)) 0 1 (\<lambda>_. 1) = (0, (\<lambda>_. 1))"
    using EMScriticalEnter_result [of 1 "\<lambda>_ c. c(EMS_CB_CRITICAL := 0)" 0 "\<lambda>_. 1", THEN conjunct1, rule_format, of 1]
    by (simp add: fun_eq_iff)
  have "critical_at (\<lambda>_ c. c) 0 (\<lambda>_. 1) j = (\<lambda>_. 1)" for j by (induction j) simp_all
  then show "EMScriticalEnter (\<lambda>_ c. c) 0 1 (\<lambda>_. 1) = (0, (\<lambda>_. 1))"
    using EMScriticalEnter_result [of 1 "\<lambda>_ c. c" 0 "\<lambda>_. 1"] by simp
qed

section \<open>The barrier of many processes\<close>

text \<open>
  Each of \<open>n\<close> processes calls the barrier again and again, with a timeout that does not run out.
  \<open>rounds\<close> counts the barriers a process has left.
\<close>

datatype barrier_pc = BOut | BRead int | BWait int | BReset int | BFlip int | BRace

record barrier_state =
  blk :: ctl
  bpc :: "nat \<Rightarrow> barrier_pc"
  rounds :: "nat \<Rightarrow> nat"

definition leave :: "nat \<Rightarrow> barrier_state \<Rightarrow> barrier_state" where
  "leave t s = s\<lparr>bpc := (bpc s)(t := BOut), rounds := (rounds s)(t := Suc (rounds s t))\<rparr>"

inductive barrier_step :: "nat \<Rightarrow> barrier_state \<Rightarrow> barrier_state \<Rightarrow> bool" for n where
  bs_read: "t < n \<Longrightarrow> bpc s t = BOut \<Longrightarrow>
     barrier_step n s (s\<lparr>bpc := (bpc s)(t := BRead (blk s EMS_CB_BARPHASE))\<rparr>)"
| bs_arrive: "t < n \<Longrightarrow> bpc s t = BRead p \<Longrightarrow> barrier_arrive p (blk s) = (r, c) \<Longrightarrow>
     barrier_step n s (s\<lparr>blk := c,
       bpc := (bpc s)(t := (if r < 0 then BRace else if r = 1 then BReset p else BWait p))\<rparr>)"
| bs_reset: "t < n \<Longrightarrow> bpc s t = BReset p \<Longrightarrow>
     barrier_step n s (s\<lparr>blk := barrier_reset p (blk s), bpc := (bpc s)(t := BFlip p)\<rparr>)"
| bs_flip: "t < n \<Longrightarrow> bpc s t = BFlip p \<Longrightarrow>
     barrier_step n s (leave t (s\<lparr>blk := barrier_flip p (blk s)\<rparr>))"
| bs_leave: "t < n \<Longrightarrow> bpc s t = BWait p \<Longrightarrow> blk s EMS_CB_BARPHASE \<noteq> p \<Longrightarrow>
     barrier_step n s (leave t s)"

definition barrier_start :: "nat \<Rightarrow> barrier_state \<Rightarrow> bool" where
  "barrier_start n s \<longleftrightarrow> blk s EMS_CB_NTHREADS = int n \<and> blk s EMS_CB_NBAR0 = int n \<and>
     blk s EMS_CB_NBAR1 = int n \<and> blk s EMS_CB_BARPHASE = 0 \<and>
     (\<forall>t. bpc s t = BOut) \<and> (\<forall>t. rounds s t = 0)"

inductive barrier_reach :: "nat \<Rightarrow> barrier_state \<Rightarrow> bool" for n where
  br_start: "barrier_start n s \<Longrightarrow> barrier_reach n s"
| br_step: "barrier_reach n s \<Longrightarrow> barrier_step n s s' \<Longrightarrow> barrier_reach n s'"

section \<open>The invariant of the barrier\<close>

text \<open>
  In round \<open>g\<close> the phase is \<open>g mod 2\<close>. A process that has left \<open>g\<close> barriers is out, about to
  arrive, or has arrived in this round; one that has left \<open>g - 1\<close> still waits but is released.
  The counter of the phase counts the processes that have not arrived, until the last one
  resets it.
\<close>

definition phase :: "nat \<Rightarrow> int" where
  "phase g = int (g mod 2)"

definition counter :: "int \<Rightarrow> nat" where
  "counter p = nat (int EMS_CB_NBAR0 + p)"

definition arrived :: "nat \<Rightarrow> nat \<Rightarrow> barrier_state \<Rightarrow> nat set" where
  "arrived n g s = {t. t < n \<and> rounds s t = g \<and>
     (bpc s t = BWait (phase g) \<or> bpc s t = BReset (phase g) \<or> bpc s t = BFlip (phase g))}"

definition last_in :: "nat \<Rightarrow> nat \<Rightarrow> barrier_state \<Rightarrow> barrier_pc \<Rightarrow> bool" where
  "last_in n g s x \<longleftrightarrow> arrived n g s = {..<n} \<and>
     (\<exists>t < n. bpc s t = x \<and> (\<forall>u < n. u \<noteq> t \<longrightarrow> bpc s u = BWait (phase g)))"

definition barrier_inv :: "nat \<Rightarrow> nat \<Rightarrow> barrier_state \<Rightarrow> bool" where
  "barrier_inv n g s \<longleftrightarrow>
     blk s EMS_CB_NTHREADS = int n \<and> blk s EMS_CB_BARPHASE = phase g \<and>
     blk s (counter (phase (Suc g))) = int n \<and>
     (\<forall>t < n. rounds s t = g \<and> bpc s t \<in> {BOut, BRead (phase g), BWait (phase g), BReset (phase g), BFlip (phase g)} \<or>
              Suc (rounds s t) = g \<and> bpc s t = BWait (phase (Suc g))) \<and>
     ((\<forall>t < n. bpc s t \<noteq> BReset (phase g) \<and> bpc s t \<noteq> BFlip (phase g)) \<and>
        card (arrived n g s) < n \<and> blk s (counter (phase g)) = int n - int (card (arrived n g s)) \<or>
      last_in n g s (BReset (phase g)) \<and> blk s (counter (phase g)) = 0 \<or>
      last_in n g s (BFlip (phase g)) \<and> blk s (counter (phase g)) = int n)"

lemma phase_cases: "phase g = 0 \<and> phase (Suc g) = 1 \<or> phase g = 1 \<and> phase (Suc g) = 0"
  unfolding phase_def by (cases "even g") (simp_all add: odd_iff_mod_2_eq_one mod_Suc)

lemma phase_Suc [simp]: "phase (Suc (Suc g)) = phase g" "phase (Suc g) \<noteq> phase g" "phase g \<noteq> phase (Suc g)"
  using phase_cases [of g] by (auto simp: phase_def)

lemma counter_distinct [simp]:
  "counter (phase g) \<noteq> EMS_CB_NTHREADS" "counter (phase g) \<noteq> EMS_CB_BARPHASE"
  "EMS_CB_NTHREADS \<noteq> counter (phase g)" "EMS_CB_BARPHASE \<noteq> counter (phase g)"
  "counter (phase (Suc g)) \<noteq> counter (phase g)" "counter (phase g) \<noteq> counter (phase (Suc g))"
  using phase_cases [of g] by (auto simp: counter_def ems_ctl_defs)

lemma finite_arrived [simp]: "finite (arrived n g s)"
  by (simp add: arrived_def)

lemma arrived_card: "card (arrived n g s) \<le> n"
  using card_mono [of "{..<n}" "arrived n g s"] by (auto simp: arrived_def)

lemma barrier_arrive_eq:
  "- (2 ^ 31) < c (counter p) \<Longrightarrow> c (counter p) < 2 ^ 31 \<Longrightarrow>
    barrier_arrive p c = (c (counter p), c(counter p := c (counter p) - 1))"
  by (simp add: barrier_arrive_def Let_def counter_def)

lemma inv_arrived_all:
  assumes "last_in n g s x" "t < n"
  shows "bpc s t = BWait (phase g) \<or> bpc s t = x"
  using assms by (auto simp: last_in_def)

lemma last_in_others:
  assumes "last_in n g s x" "x \<noteq> BWait (phase g)" "t < n" "bpc s t = x" "u < n" "u \<noteq> t"
  shows "bpc s u = BWait (phase g)"
proof -
  from assms(1) obtain v where v: "bpc s v = x" "\<forall>u < n. u \<noteq> v \<longrightarrow> bpc s u = BWait (phase g)"
    by (auto simp: last_in_def)
  with assms(2-4) have "v = t" by metis
  with v assms(5,6) show ?thesis by blast
qed

lemma inv_read:
  assumes inv: "barrier_inv n g s" and t: "t < n" "bpc s t = BOut"
  shows "barrier_inv n g (s\<lparr>bpc := (bpc s)(t := BRead (blk s EMS_CB_BARPHASE))\<rparr>)" (is "barrier_inv n g ?s")
proof -
  have r: "rounds s t = g" "blk s EMS_CB_BARPHASE = phase g"
    using inv t by (auto simp: barrier_inv_def)
  have a: "arrived n g ?s = arrived n g s" using t by (auto simp: arrived_def)
  have "\<not> last_in n g s x" if "x = BReset (phase g) \<or> x = BFlip (phase g)" for x
    using inv_arrived_all [of n g s x t] t that by auto
  then show ?thesis
    using inv r t unfolding barrier_inv_def a by auto
qed

lemma inv_leave:
  assumes inv: "barrier_inv n g s" and t: "t < n" "bpc s t = BWait p" "blk s EMS_CB_BARPHASE \<noteq> p"
  shows "barrier_inv n g (leave t s)"
proof -
  have r: "Suc (rounds s t) = g" using inv t by (auto simp: barrier_inv_def)
  have a: "arrived n g (leave t s) = arrived n g s" using r t by (auto simp: arrived_def leave_def)
  have "t \<notin> arrived n g s" using r by (auto simp: arrived_def)
  then have "\<not> last_in n g s x" for x using t(1) by (auto simp: last_in_def)
  then show ?thesis
    using inv r t unfolding barrier_inv_def a by (auto simp: leave_def)
qed

lemma inv_reset:
  assumes inv: "barrier_inv n g s" and t: "t < n" "bpc s t = BReset p"
  shows "barrier_inv n g (s\<lparr>blk := barrier_reset p (blk s), bpc := (bpc s)(t := BFlip p)\<rparr>)" (is "barrier_inv n g ?s")
proof -
  have p: "p = phase g" and li: "last_in n g s (BReset (phase g))"
    using inv t by (auto simp: barrier_inv_def dest!: inv_arrived_all [OF _ t(1)])
  then have a: "arrived n g ?s = arrived n g s" using t by (auto simp: arrived_def)
  have oth: "bpc s u = BWait (phase g)" if "u < n" "u \<noteq> t" for u
    using last_in_others [OF li _ t(1)] t(2) that p by simp
  have "last_in n g ?s (BFlip (phase g))"
    unfolding last_in_def
  proof (intro conjI exI [of _ t] allI impI)
    show "arrived n g ?s = {..<n}" using a li by (simp add: last_in_def)
  qed (use t p oth in simp_all)
  moreover have "barrier_reset p (blk s) = (blk s)(counter (phase g) := int n)"
    using inv p by (simp add: barrier_reset_def counter_def barrier_inv_def)
  moreover have "rounds s u = g" if "u < n" for u
    using inv that oth [of u] t p by (cases "u = t") (auto simp: barrier_inv_def)
  ultimately show ?thesis
    using inv t p oth by (auto simp: barrier_inv_def)
qed

lemma inv_flip:
  assumes inv: "barrier_inv n g s" and t: "t < n" "bpc s t = BFlip p"
  shows "barrier_inv n (Suc g) (leave t (s\<lparr>blk := barrier_flip p (blk s)\<rparr>))" (is "barrier_inv n _ ?s")
proof -
  have p: "p = phase g" and li: "last_in n g s (BFlip (phase g))" "blk s (counter (phase g)) = int n"
    using inv t by (auto simp: barrier_inv_def dest!: inv_arrived_all [OF _ t(1)])
  have oth: "bpc s u = BWait (phase g)" if "u < n" "u \<noteq> t" for u
    using last_in_others [OF li(1) _ t(1)] t(2) that p by simp
  have r: "rounds s u = g" if "u < n" for u
    using li(1) that by (auto simp: last_in_def arrived_def)
  have a: "arrived n (Suc g) ?s = {}"
    using r by (auto simp: arrived_def leave_def split: if_splits)
  have "barrier_flip p (blk s) = (blk s)(EMS_CB_BARPHASE := phase (Suc g))"
    using phase_cases [of g] p by (auto simp: barrier_flip_def)
  then have b: "blk ?s = (blk s)(EMS_CB_BARPHASE := phase (Suc g))" by (simp add: leave_def)
  have w: "rounds ?s u = Suc g \<and> bpc ?s u = BOut \<or> Suc (rounds ?s u) = Suc g \<and> bpc ?s u = BWait (phase g)"
    if "u < n" for u
    using r [OF that] oth [OF that] by (auto simp: leave_def)
  then have n: "bpc ?s u \<noteq> BReset (phase (Suc g)) \<and> bpc ?s u \<noteq> BFlip (phase (Suc g))" if "u < n" for u
    using that by fastforce
  have each: "\<forall>u < n. rounds ?s u = Suc g \<and> bpc ?s u \<in> {BOut, BRead (phase (Suc g)), BWait (phase (Suc g)),
          BReset (phase (Suc g)), BFlip (phase (Suc g))} \<or>
        Suc (rounds ?s u) = Suc g \<and> bpc ?s u = BWait (phase (Suc (Suc g)))"
    using w by auto
  have "card (arrived n (Suc g) ?s) < n" "blk ?s (counter (phase (Suc g))) = int n - int (card (arrived n (Suc g) ?s))"
    "blk ?s EMS_CB_NTHREADS = int n" "blk ?s EMS_CB_BARPHASE = phase (Suc g)"
    "blk ?s (counter (phase (Suc (Suc g)))) = int n"
    using inv li t unfolding a b by (simp_all add: barrier_inv_def)
  then show ?thesis unfolding barrier_inv_def using each n by blast
qed

lemma inv_arrive:
  assumes inv: "barrier_inv n g s" and t: "t < n" "bpc s t = BRead p" and n: "int n < 2 ^ 31"
    and r: "barrier_arrive p (blk s) = (r, c)"
  shows "barrier_inv n g (s\<lparr>blk := c, bpc := (bpc s)(t := (if r < 0 then BRace else if r = 1 then BReset p else BWait p))\<rparr>)"
    (is "barrier_inv n g ?s")
proof -
  have p: "p = phase g" "rounds s t = g" using inv t by (auto simp: barrier_inv_def)
  have nl: "\<not> last_in n g s x" if "x = BReset (phase g) \<or> x = BFlip (phase g)" for x
    using inv_arrived_all [of n g s x t] t that by auto
  let ?A = "arrived n g s"
  have norm: "\<forall>t < n. bpc s t \<noteq> BReset (phase g) \<and> bpc s t \<noteq> BFlip (phase g)" "card ?A < n"
    and cnt: "blk s (counter (phase g)) = int n - int (card ?A)"
    using inv nl by (auto simp: barrier_inv_def)
  have rc: "r = int n - int (card ?A)" "c = (blk s)(counter (phase g) := int n - int (card ?A) - 1)"
    using r barrier_arrive_eq [of "blk s" p] cnt norm(2) n p(1) by auto
  then have r1: "1 \<le> r" using norm(2) by simp
  have tA: "t \<notin> ?A" using t by (auto simp: arrived_def)
  have A: "arrived n g ?s = insert t ?A" using t p r1 by (auto simp: arrived_def)
  then have cA: "card (arrived n g ?s) = Suc (card ?A)" using tA by simp
  have sub: "arrived n g ?s \<subseteq> {..<n}" by (auto simp: arrived_def)
  have base: "blk ?s EMS_CB_NTHREADS = int n" "blk ?s EMS_CB_BARPHASE = phase g"
    "blk ?s (counter (phase (Suc g))) = int n" using inv rc by (simp_all add: barrier_inv_def)
  have each: "\<forall>u < n. rounds ?s u = g \<and> bpc ?s u \<in> {BOut, BRead (phase g), BWait (phase g), BReset (phase g), BFlip (phase g)} \<or>
      Suc (rounds ?s u) = g \<and> bpc ?s u = BWait (phase (Suc g))"
    using inv p r1 by (auto simp: barrier_inv_def)
  show ?thesis
  proof (cases "r = 1")
    case True
    then have "card (arrived n g ?s) = n" using rc cA by simp
    then have all: "arrived n g ?s = {..<n}" using sub by (intro card_subset_eq) simp_all
    have "bpc s u = BWait (phase g)" if "u < n" "u \<noteq> t" for u
      using all that norm(1) A by (auto simp: arrived_def set_eq_iff)
    then have "last_in n g ?s (BReset (phase g))"
      using all t True p by (auto simp: last_in_def intro!: exI [of _ t])
    then show ?thesis using base each rc True by (simp add: barrier_inv_def)
  next
    case False
    then have "card (arrived n g ?s) < n" using rc r1 cA by simp
    moreover have "\<forall>u < n. bpc ?s u \<noteq> BReset (phase g) \<and> bpc ?s u \<noteq> BFlip (phase g)"
      using norm(1) False r1 by auto
    moreover have "blk ?s (counter (phase g)) = int n - int (card (arrived n g ?s))" using rc cA by simp
    ultimately show ?thesis unfolding barrier_inv_def using base each by blast
  qed
qed

lemma barrier_inv_step:
  assumes "barrier_step n s s'" "barrier_inv n g s" "int n < 2 ^ 31"
  shows "\<exists>g'. barrier_inv n g' s'"
  using assms(1)
proof cases
  case (bs_read t) then show ?thesis using inv_read assms(2) by blast
next
  case (bs_arrive t p r c) then show ?thesis using inv_arrive assms(2,3) by blast
next
  case (bs_reset t p) then show ?thesis using inv_reset assms(2) by blast
next
  case (bs_flip t p) then show ?thesis using inv_flip assms(2) by blast
next
  case (bs_leave t p) then show ?thesis using inv_leave assms(2) by blast
qed

lemma barrier_inv_start:
  assumes "barrier_start n s" "0 < n"
  shows "barrier_inv n 0 s"
proof -
  have "phase 0 = 0" "phase (Suc 0) = 1" "counter 0 = EMS_CB_NBAR0" "counter 1 = EMS_CB_NBAR1"
    by (simp_all add: phase_def counter_def ems_ctl_defs)
  moreover have "arrived n 0 s = {}" using assms(1) by (simp add: arrived_def barrier_start_def)
  ultimately show ?thesis using assms by (simp add: barrier_inv_def barrier_start_def)
qed

lemma barrier_reach_inv:
  assumes "barrier_reach n s" "0 < n" "int n < 2 ^ 31"
  shows "\<exists>g. barrier_inv n g s"
  using assms(1)
proof induction
  case (br_start s) then show ?case using barrier_inv_start assms(2) by blast
next
  case (br_step s s') then show ?case using barrier_inv_step assms(3) by blast
qed

section \<open>Properties of the barrier\<close>

text \<open>
  C8: no process leaves a barrier before every process has arrived at it: two processes are never
  more than one barrier apart, and one that is behind has arrived and been released. The race the
  code tests for does not happen.
\<close>

theorem EMSbarrier_synchronises:
  assumes "barrier_reach n s" "0 < n" "int n < 2 ^ 31" "t < n" "u < n"
  shows "rounds s t \<le> Suc (rounds s u) \<and> bpc s t \<noteq> BRace \<and>
     (rounds s u < rounds s t \<longrightarrow> (\<exists>p. bpc s u = BWait p \<and> blk s EMS_CB_BARPHASE \<noteq> p))"
proof -
  obtain g where inv: "barrier_inv n g s" using barrier_reach_inv [OF assms(1-3)] by blast
  have c: "rounds s v = g \<and> bpc s v \<in> {BOut, BRead (phase g), BWait (phase g), BReset (phase g), BFlip (phase g)} \<or>
      Suc (rounds s v) = g \<and> bpc s v = BWait (phase (Suc g))" if "v < n" for v
    using inv that by (auto simp: barrier_inv_def)
  have "blk s EMS_CB_BARPHASE = phase g" using inv by (simp add: barrier_inv_def)
  then show ?thesis using c [OF assms(4)] c [OF assms(5)] by auto
qed

definition two_processes :: barrier_state where
  "two_processes = \<lparr>blk = (\<lambda>_. 0)(EMS_CB_NTHREADS := 2, EMS_CB_NBAR0 := 2, EMS_CB_NBAR1 := 2),
     bpc = (\<lambda>_. BOut), rounds = (\<lambda>_. 0)\<rparr>"

lemma two_processes_reach: "barrier_reach 2 two_processes"
  by (rule br_start) (simp add: barrier_start_def two_processes_def ems_ctl_defs)

theorem EMSbarrier_synchronises_witness: "bpc two_processes 0 \<noteq> BRace"
  using EMSbarrier_synchronises [OF two_processes_reach, of 0 1] by simp

text \<open>What is left of a round: the accesses until everybody has arrived and the phase changes.\<close>

inductive barrier_steps :: "nat \<Rightarrow> barrier_state \<Rightarrow> barrier_state \<Rightarrow> bool" for n where
  bss_none: "barrier_steps n s s"
| bss_step: "barrier_step n s s1 \<Longrightarrow> barrier_steps n s1 s' \<Longrightarrow> barrier_steps n s s'"

lemma barrier_steps_trans: "barrier_steps n s s1 \<Longrightarrow> barrier_steps n s1 s2 \<Longrightarrow> barrier_steps n s s2"
  by (induction rule: barrier_steps.induct) (auto intro: bss_step)

fun to_do :: "nat \<Rightarrow> barrier_pc \<Rightarrow> nat" where
  "to_do g (BWait p) = (if p = phase g then 0 else 5)"
| "to_do g BOut = 4"
| "to_do g (BRead p) = 3"
| "to_do g (BReset p) = 2"
| "to_do g (BFlip p) = 1"
| "to_do g BRace = 0"

definition round_left :: "nat \<Rightarrow> nat \<Rightarrow> barrier_state \<Rightarrow> nat" where
  "round_left n g s = (\<Sum>t < n. to_do g (bpc s t))"

lemma round_left_less:
  assumes "t < n" "bpc s' = (bpc s)(t := x)" "to_do g x < to_do g (bpc s t)"
  shows "round_left n g s' < round_left n g s"
  unfolding round_left_def using assms by (intro sum_strict_mono_ex1) auto

text \<open>
  Unless it is this round's last arrival that flips the phase, some process has a step that stays in
  the round and leaves less of it; nobody waits for a phase that everybody has reached.
\<close>

lemma barrier_round_step:
  assumes inv: "barrier_inv n g s" and n: "int n < 2 ^ 31"
  shows "(\<exists>s' t. barrier_step n s s' \<and> barrier_inv n g s' \<and> t < n \<and> bpc s' t \<noteq> bpc s t \<and> round_left n g s' < round_left n g s) \<or>
    (\<exists>s' t. barrier_step n s s' \<and> barrier_inv n (Suc g) s' \<and> t < n \<and> bpc s' t \<noteq> bpc s t)"
proof (cases "\<exists>x. last_in n g s x \<and> (x = BReset (phase g) \<or> x = BFlip (phase g))")
  case True
  then obtain t where t: "t < n" "bpc s t = BReset (phase g) \<or> bpc s t = BFlip (phase g)"
    by (auto simp: last_in_def)
  from t(2) show ?thesis
  proof
    assume b: "bpc s t = BReset (phase g)"
    have "round_left n g (s\<lparr>blk := barrier_reset (phase g) (blk s), bpc := (bpc s)(t := BFlip (phase g))\<rparr>) < round_left n g s"
      using t(1) b by (intro round_left_less [of t _ _ _ "BFlip (phase g)"]) simp_all
    then show ?thesis using bs_reset [OF t(1) b] inv_reset [OF inv t(1) b] t(1) b by fastforce
  next
    assume b: "bpc s t = BFlip (phase g)"
    have "bpc (leave t (s\<lparr>blk := barrier_flip (phase g) (blk s)\<rparr>)) t \<noteq> bpc s t" using b by (simp add: leave_def)
    then show ?thesis using bs_flip [OF t(1) b] inv_flip [OF inv t(1) b] t(1) by blast
  qed
next
  case False
  then have "card (arrived n g s) < card {..<n}" using inv by (auto simp: barrier_inv_def)
  then obtain t where t: "t < n" "t \<notin> arrived n g s"
    using card_mono [OF finite_arrived, of "{..<n}" n g s] by fastforce
  have ph: "blk s EMS_CB_BARPHASE = phase g" using inv by (simp add: barrier_inv_def)
  have "bpc s t = BOut \<or> bpc s t = BRead (phase g) \<or> bpc s t = BWait (phase (Suc g))"
    using inv t by (auto simp: barrier_inv_def arrived_def)
  then show ?thesis
  proof (elim disjE)
    assume b: "bpc s t = BOut"
    have "round_left n g (s\<lparr>bpc := (bpc s)(t := BRead (blk s EMS_CB_BARPHASE))\<rparr>) < round_left n g s"
      using t(1) b by (intro round_left_less [of t _ _ _ "BRead (blk s EMS_CB_BARPHASE)"]) simp_all
    then show ?thesis using bs_read [OF t(1) b] inv_read [OF inv t(1) b] t(1) b by fastforce
  next
    assume b: "bpc s t = BRead (phase g)"
    obtain r c where r: "barrier_arrive (phase g) (blk s) = (r, c)" by (cases "barrier_arrive (phase g) (blk s)")
    let ?s = "s\<lparr>blk := c, bpc := (bpc s)(t := (if r < 0 then BRace else if r = 1 then BReset (phase g) else BWait (phase g)))\<rparr>"
    have "round_left n g ?s < round_left n g s"
      using t(1) b by (intro round_left_less [of t _ _ _ "bpc ?s t"]) simp_all
    moreover have "bpc ?s t \<noteq> bpc s t" using b by simp
    ultimately show ?thesis using bs_arrive [OF t(1) b r] inv_arrive [OF inv t(1) b n r] t(1) by blast
  next
    assume b: "bpc s t = BWait (phase (Suc g))"
    have "round_left n g (leave t s) < round_left n g s"
      using t(1) b by (intro round_left_less [of t _ _ _ BOut]) (simp_all add: leave_def)
    moreover have "bpc (leave t s) t \<noteq> bpc s t" using b by (simp add: leave_def)
    ultimately show ?thesis using bs_leave [OF t(1) b] inv_leave [OF inv t(1) b] ph t(1) by auto
  qed
qed

lemma barrier_round_ends:
  assumes "barrier_inv n g s" "int n < 2 ^ 31"
  shows "\<exists>s'. barrier_steps n s s' \<and> barrier_inv n (Suc g) s'"
  using assms(1)
proof (induction "round_left n g s" arbitrary: s rule: less_induct)
  case less
  from barrier_round_step [OF less.prems assms(2)] show ?case
  proof (elim disjE exE conjE)
    fix s1 assume s1: "barrier_step n s s1" "barrier_inv n g s1" "round_left n g s1 < round_left n g s"
    from less.hyps [OF s1(3,2)] show ?thesis using bss_step [OF s1(1)] by blast
  next
    fix s1 assume "barrier_step n s s1" "barrier_inv n (Suc g) s1"
    then show ?thesis using bss_step bss_none by blast
  qed
qed

lemma barrier_round_leaves:
  assumes inv: "barrier_inv n g s" and t: "t < n"
  shows "\<exists>s'. barrier_steps n s s' \<and> rounds s' t = g"
proof (cases "rounds s t = g")
  case False
  then have b: "bpc s t = BWait (phase (Suc g))" "Suc (rounds s t) = g" "blk s EMS_CB_BARPHASE = phase g"
    using inv t by (auto simp: barrier_inv_def)
  then have "barrier_step n s (leave t s)" using bs_leave [OF t b(1)] by simp
  moreover have "rounds (leave t s) t = g" using b(2) by (simp add: leave_def)
  ultimately show ?thesis using bss_step bss_none by blast
qed (use bss_none in blast)

text \<open>
  C26: the barrier does not deadlock: in every reachable state some process can take a step that
  moves it on (a fruitless look at the phase is no step here), and no process is ever trapped: the
  processes can go on from there so that it has left one barrier more.
\<close>

theorem EMSbarrier_no_deadlock:
  assumes "barrier_reach n s" "0 < n" "int n < 2 ^ 31"
  shows "(\<exists>t < n. \<exists>s'. barrier_step n s s' \<and> bpc s' t \<noteq> bpc s t) \<and>
    (\<forall>t < n. \<exists>s'. barrier_steps n s s' \<and> rounds s t < rounds s' t)"
proof -
  obtain g where inv: "barrier_inv n g s" using barrier_reach_inv [OF assms] by blast
  have "\<exists>s'. barrier_steps n s s' \<and> rounds s t < rounds s' t" if t: "t < n" for t
  proof -
    from barrier_round_ends [OF inv assms(3)] obtain s1 where s1: "barrier_steps n s s1" "barrier_inv n (Suc g) s1" by blast
    from barrier_round_leaves [OF s1(2) t] obtain s2 where "barrier_steps n s1 s2" "rounds s2 t = Suc g" by blast
    moreover have "rounds s t \<le> g" using inv t by (auto simp: barrier_inv_def)
    ultimately show ?thesis using barrier_steps_trans [OF s1(1)] by (intro exI [of _ s2]) simp
  qed
  then show ?thesis using barrier_round_step [OF inv assms(3)] by blast
qed

theorem EMSbarrier_no_deadlock_witness:
  "\<exists>s'. barrier_steps 2 two_processes s' \<and> 0 < rounds s' 1"
  using EMSbarrier_no_deadlock [OF two_processes_reach] by (auto simp: two_processes_def)

lemma barrier_wait_result:
  "barrier_wait env k p timeout c = (r, c') \<Longrightarrow> 0 < r \<Longrightarrow> c' EMS_CB_BARPHASE \<noteq> p"
proof (induction env k p timeout c rule: barrier_wait.induct)
  case (1 env k p timeout c)
  show ?case
  proof (cases "timeout > 0 \<and> p = c EMS_CB_BARPHASE")
    case True
    with 1(2) have "barrier_wait env (Suc k) p (timeout - 1) (env k c) = (r, c')"
      by (simp add: barrier_wait.simps [of _ _ _ _ c])
    with 1(1) [OF True] 1(3) show ?thesis by blast
  next
    case False
    then show ?thesis using 1(2,3) by (auto simp: barrier_wait.simps [of _ _ _ _ c])
  qed
qed

lemma barrier_wait_alone:
  "0 \<le> timeout \<Longrightarrow> barrier_wait (\<lambda>_ c. c) k (c EMS_CB_BARPHASE) timeout c = (0, c)"
proof (induction "nat timeout" arbitrary: timeout k)
  case (Suc n)
  then show ?case by (simp add: barrier_wait.simps [of _ _ _ timeout])
qed (simp add: barrier_wait.simps)

text \<open>
  C39: a call of \<open>EMSbarrier\<close> with a positive result was released: the phase is no longer the one
  it arrived in. A call that times out returns 0 but does not take its arrival back: the counter
  stays decremented.
\<close>

theorem EMSbarrier_result:
  assumes "cb EMS_CB_BARPHASE = 0 \<or> cb EMS_CB_BARPHASE = 1"
  shows "(EMSbarrier env timeout cb = (r, cb') \<longrightarrow> 0 < r \<longrightarrow> cb' EMS_CB_BARPHASE \<noteq> cb EMS_CB_BARPHASE) \<and>
    (0 \<le> timeout \<longrightarrow> 1 < cb (counter (cb EMS_CB_BARPHASE)) \<longrightarrow> cb (counter (cb EMS_CB_BARPHASE)) < 2 ^ 31 \<longrightarrow>
       EMSbarrier (\<lambda>_ c. c) timeout cb =
         (0, cb(counter (cb EMS_CB_BARPHASE) := cb (counter (cb EMS_CB_BARPHASE)) - 1)))"
proof -
  let ?p = "cb EMS_CB_BARPHASE" and ?a = "counter (cb EMS_CB_BARPHASE)"
  have a: "?a \<noteq> EMS_CB_BARPHASE" using assms by (auto simp: counter_def ems_ctl_defs)
  have arr: "barrier_arrive ?p cb = (cb ?a, cb(?a := wrap32 (cb ?a - 1)))"
    by (simp add: barrier_arrive_def Let_def counter_def)
  have "cb' EMS_CB_BARPHASE \<noteq> ?p" if r: "EMSbarrier env timeout cb = (r, cb')" "0 < r"
  proof (cases "cb ?a = 1")
    case True
    then show ?thesis using r assms by (auto simp: EMSbarrier_def arr Let_def barrier_flip_def)
  next
    case False
    with r have "barrier_wait env 0 ?p timeout (cb(?a := wrap32 (cb ?a - 1))) = (r, cb')"
      by (auto simp: EMSbarrier_def arr Let_def split: if_splits)
    from barrier_wait_result [OF this r(2)] show ?thesis .
  qed
  moreover have "EMSbarrier (\<lambda>_ c. c) timeout cb = (0, cb(?a := cb ?a - 1))"
    if t: "0 \<le> timeout" "1 < cb ?a" "cb ?a < 2 ^ 31"
  proof -
    have "(cb(?a := cb ?a - 1)) EMS_CB_BARPHASE = ?p" using a by simp
    from barrier_wait_alone [OF t(1), of 0 "cb(?a := cb ?a - 1)", unfolded this] show ?thesis
      using t by (simp add: EMSbarrier_def arr Let_def)
  qed
  ultimately show ?thesis by blast
qed

theorem EMSbarrier_result_witness:
  "fst (EMSbarrier (\<lambda>_ c. c) 3 ((\<lambda>_. 0)(EMS_CB_NBAR0 := 2))) = 0"
  using EMSbarrier_result [of "(\<lambda>_. 0)(EMS_CB_NBAR0 := 2)" _ 3] by (simp add: counter_def ems_ctl_defs)

end
