(* ===== verification/EmsInit.thy ===== *)
theory EmsInit
  imports EmsAccess EmsLoops
begin

text \<open>
  Creation and destruction of buffers: \<open>EMSinitialize\<close>, \<open>EMSdestroy\<close> and the table of
  mapped buffers (\<open>src/ems.cc\<close>). Opening, sizing and mapping the file are the operating system's;
  what they return is an argument, and the mapped memory is the buffer of the world.
\<close>

section \<open>Arguments\<close>

record init_args =
  nElements :: int
  heapSize :: nat
  useMap :: bool
  useExisting :: bool
  doDataFill :: bool
  fillValue :: EMSvalueType
  doSetFEtags :: bool
  setFEtagsFull :: bool
  myID :: int
  nThreads :: int

text \<open>Which of the system calls succeed; a failure of \<open>ftruncate\<close> with \<open>EINVAL\<close> is ignored.\<close>

record os_calls =
  open_ok :: bool
  ftruncate_ok :: bool
  mmap_ok :: bool
  munmap_ok :: bool
  unlink_ok :: bool

section \<open>Sizes\<close>

text \<open>The heap's blocks, rounded up to a power of two; \<open>__builtin_ctzl\<close> gives its level.\<close>

definition nMemBlocks :: "nat \<Rightarrow> nat" where
  "nMemBlocks hs = hs div EMS_MEM_BLOCKSZ + 1"

fun ctzl :: "nat \<Rightarrow> nat" where
  "ctzl n = (if n = 0 \<or> odd n then 0 else Suc (ctzl (n div 2)))"

declare ctzl.simps [simp del]

text \<open>\<open>struct emsMem\<close> takes 8 bytes, its \<open>tree\<close> starts after the first 4.\<close>

definition sizeof_emsMem :: nat where "sizeof_emsMem = 8"

definition bottomOfHeap :: "nat \<Rightarrow> bool \<Rightarrow> nat \<Rightarrow> nat" where
  "bottomOfHeap n mapped nMemBlocksPow2 = bottomOfMalloc n mapped + sizeof_emsMem + (nMemBlocksPow2 * 2 - 2)"

definition filesize :: "nat \<Rightarrow> bool \<Rightarrow> nat \<Rightarrow> nat" where
  "filesize n mapped nMemBlocksPow2 = bottomOfHeap n mapped nMemBlocksPow2 + nMemBlocksPow2 * EMS_MEM_BLOCKSZ"

section \<open>The control blocks\<close>

text \<open>The shared control block of a program, written by the process with number 0.\<close>

definition init_control :: "int \<Rightarrow> ctl \<Rightarrow> ctl" where
  "init_control n cb =
     (\<lambda>i. if int EMS_CB_LOCKS \<le> int i \<and> int i < int EMS_CB_LOCKS + n then int (fe_code EMS_TAG_BUSY)
          else (cb(EMS_CB_NTHREADS := n, EMS_CB_NBAR0 := n, EMS_CB_NBAR1 := n, EMS_CB_BARPHASE := 0,
                   EMS_CB_CRITICAL := 0, EMS_CB_SINGLE := 0)) i)"

text \<open>
  The control block of a new array. Only the level of the allocator is written: its tree is what a
  new file holds, zeros, which is \<open>BUDDY_UNUSED\<close>.
\<close>

definition init_header :: "init_args \<Rightarrow> ems \<Rightarrow> ems option" where
  "init_header ar m = do {
     pow2 \<leftarrow> emsNextPow2 (nMemBlocks (heapSize ar));
     let n = nat (nElements ar);
     let full = \<lparr>fe = EMS_TAG_FULL, ty = EMS_TYPE_INTEGER, rw = 0\<rparr>;
     let m = set_word EMS_ARR_NELEM (nElements ar) m;
     let m = set_word EMS_ARR_HEAPSZ (int (heapSize ar)) m;
     let m = set_word EMS_ARR_MAPBOT (int (mapbot_word n)) m;
     let m = set_word EMS_ARR_MALLOCBOT (int (bottomOfMalloc n (useMap ar))) m;
     let m = set_word EMS_ARR_HEAPBOT (int (bottomOfHeap n (useMap ar) pow2)) m;
     let m = set_tag EMS_ARR_Q_BOTTOM full (set_word EMS_ARR_Q_BOTTOM 0 m);
     let m = set_tag EMS_ARR_STACKTOP full (set_word EMS_ARR_STACKTOP 0 m);
     let m = set_word EMS_ARR_MEM_MUTEX (int (fe_code EMS_TAG_EMPTY)) m;
     let m = set_word EMS_ARR_FILESZ (int (filesize n (useMap ar) pow2)) m;
     Some (m\<lparr>malloc := (malloc m)\<lparr>m_level := ctzl pow2\<rparr>\<rparr>)
   }"

section \<open>Filling the elements\<close>

text \<open>The elements a process fills.\<close>

definition iterPerThread :: "init_args \<Rightarrow> int" where
  "iterPerThread ar = nElements ar sdiv nThreads ar + 1"

definition startIter :: "init_args \<Rightarrow> int" where
  "startIter ar = iterPerThread ar * myID ar"

definition endIter :: "init_args \<Rightarrow> int" where
  "endIter ar =
     (let e = iterPerThread ar * (myID ar + 1) in if e > nElements ar then nElements ar else e)"

text \<open>
  Storing the fill value. A result \<open>Some r\<close> is an early \<open>return r\<close>; the \<open>false\<close> of a failed
  allocation is 0 here, since the function returns an \<open>int\<close>.
\<close>

definition fill_store :: "nat \<Rightarrow> nat \<Rightarrow> EMSvalueType \<Rightarrow> world \<Rightarrow> (int option \<times> world) option" where
  "fill_store fuel a v w =
     (if vtype v \<in> {EMS_TYPE_BOOLEAN, EMS_TYPE_INTEGER, EMS_TYPE_FLOAT} then do {
        i \<leftarrow> as_int64 (val v);
        Some (None, upd (set_word a i) w)
      } else if vtype v = EMS_TYPE_UNDEFINED then Some (None, upd (set_word a 0xdeadbeef) w)
      else if vtype v \<in> {EMS_TYPE_JSON, EMS_TYPE_STRING} then do {
        (stored, w) \<leftarrow> store_text fuel a (len v + 1) (val v) w;
        Some (if stored then None else Some 0, w)
      } else Some (Some (- 1), w))"

text \<open>One round of the loop; \<open>tg\<close> is the local tag, whose state may never have been set.\<close>

definition fill_tag :: "init_args \<Rightarrow> EMStag_t \<Rightarrow> EMStag_t" where
  "fill_tag ar tg =
     (let tg = tg\<lparr>rw := 0, ty := (if doDataFill ar then vtype (fillValue ar) else EMS_TYPE_UNDEFINED)\<rparr> in
      if doSetFEtags ar then tg\<lparr>fe := (if setFEtagsFull ar then EMS_TAG_FULL else EMS_TAG_EMPTY)\<rparr> else tg)"

definition fill_map :: "init_args \<Rightarrow> int \<Rightarrow> ems \<Rightarrow> ems" where
  "fill_map ar idx m =
     (if useMap ar then
        (let m = set_fe (mapIdx m idx) EMS_TAG_FULL m in
         if useExisting ar then m
         else set_tag (mapIdx m idx) ((tag m (mapIdx m idx))\<lparr>ty := EMS_TYPE_UNDEFINED\<rparr>) m)
      else m)"

definition fill_elem :: "nat \<Rightarrow> init_args \<Rightarrow> EMStag_t \<Rightarrow> int \<Rightarrow> world \<Rightarrow> (int option \<times> world) option" where
  "fill_elem fuel ar tg idx w = do {
     let a = dataIdx idx;
     (early, w) \<leftarrow> (if doDataFill ar then fill_store fuel a (fillValue ar) w else Some (None, w));
     if early \<noteq> None then Some (early, w)
     else do {
       let w = (if doSetFEtags ar \<or> doDataFill ar then upd (set_tag a (fill_tag ar tg)) w else w);
       Some (None, upd (fill_map ar idx) w)
     }
   }"

function fill_loop :: "nat \<Rightarrow> init_args \<Rightarrow> EMStag_t \<Rightarrow> int \<Rightarrow> int \<Rightarrow> world \<Rightarrow> (int option \<times> world) option" where
  "fill_loop fuel ar tg idx stop w =
     (if idx < stop then do {
        (early, w) \<leftarrow> fill_elem fuel ar tg idx w;
        if early \<noteq> None then Some (early, w) else fill_loop fuel ar (fill_tag ar tg) (idx + 1) stop w
      } else Some (None, w))"
  by pat_completeness auto
termination
  by (relation "measure (\<lambda>(fuel, ar, tg, idx, stop, w). nat (stop - idx))") auto

declare fill_loop.simps [simp del]

text \<open>What one process does to the memory of an array.\<close>

definition init_array :: "nat \<Rightarrow> init_args \<Rightarrow> EMStag_t \<Rightarrow> world \<Rightarrow> (int option \<times> world) option" where
  "init_array fuel ar tg w = do {
     m \<leftarrow> (if myID ar = 0 \<and> nElements ar > 0 \<and> \<not> useExisting ar then init_header ar (mem w) else Some (mem w));
     fill_loop fuel ar (tg\<lparr>rw := 0\<rparr>) (startIter ar) (endIter ar) (upd (\<lambda>_. m) w)
   }"

section \<open>The table of buffers\<close>

definition EMS_MAX_N_BUFS :: nat where "EMS_MAX_N_BUFS = 4096"
definition MAX_FNAME_LEN :: nat where "MAX_FNAME_LEN = 256"

text \<open>\<open>emsBufs\<close> holds addresses, \<open>None\<close> for \<open>NULL\<close>.\<close>

record buf_table =
  emsBufs :: "nat \<Rightarrow> int option"
  emsBufLengths :: "nat \<Rightarrow> nat"
  emsBufFilenames :: "nat \<Rightarrow> string"

function free_slot :: "(nat \<Rightarrow> int option) \<Rightarrow> nat \<Rightarrow> nat" where
  "free_slot bufs n = (if n < EMS_MAX_N_BUFS \<and> bufs n \<noteq> None then free_slot bufs (n + 1) else n)"
  by pat_completeness auto
termination
  by (relation "measure (\<lambda>(bufs, n). EMS_MAX_N_BUFS - n)") auto

declare free_slot.simps [simp del]

definition register_buf :: "int \<Rightarrow> nat \<Rightarrow> string \<Rightarrow> buf_table \<Rightarrow> int \<times> buf_table" where
  "register_buf addr fsize fname tab =
     (let n = free_slot (emsBufs tab) 0 in
      if n < EMS_MAX_N_BUFS then
        (int n, tab\<lparr>emsBufs := (emsBufs tab)(n := Some addr),
                    emsBufLengths := (emsBufLengths tab)(n := fsize),
                    emsBufFilenames := (emsBufFilenames tab)(n := take MAX_FNAME_LEN (c_str fname))\<rparr>)
      else (- 1, tab))"

text \<open>
  \<open>EMSinitialize\<close> for a file mapped at \<open>addr\<close>, a control block when \<open>nElements \<le> 0\<close> and else
  an array; \<open>cb\<close> and \<open>w\<close> are what the mapped memory holds. The result is the number of the
  buffer, or \<open>-1\<close>, or 0 when the heap has no room for the fill text. The division by
  \<open>nThreads\<close> traps at 0.
\<close>

definition bytes_to_map :: "init_args \<Rightarrow> nat \<Rightarrow> nat" where
  "bytes_to_map ar pow2 =
     (if nElements ar \<le> 0 then nat (int EMS_CB_LOCKS + nThreads ar) * 4
      else filesize (nat (nElements ar)) (useMap ar) pow2)"

definition EMSinitialize ::
  "nat \<Rightarrow> os_calls \<Rightarrow> int \<Rightarrow> string \<Rightarrow> init_args \<Rightarrow> EMStag_t \<Rightarrow> buf_table \<Rightarrow> ctl \<Rightarrow> world \<Rightarrow>
    (int \<times> buf_table \<times> ctl \<times> world) option" where
  "EMSinitialize fuel os addr fname ar tg tab cb w =
     (if \<not> open_ok os \<or> \<not> ftruncate_ok os \<or> \<not> mmap_ok os then Some (- 1, tab, cb, w)
      else if nThreads ar = 0 then None
      else do {
        pow2 \<leftarrow> emsNextPow2 (nMemBlocks (heapSize ar));
        let cb = (if myID ar = 0 \<and> nElements ar \<le> 0 then init_control (nThreads ar) cb else cb);
        (early, w) \<leftarrow> init_array fuel ar tg w;
        (case early of
           Some r \<Rightarrow> Some (r, tab, cb, w)
         | None \<Rightarrow>
             (let (n, tab) = register_buf addr (bytes_to_map ar pow2) fname tab in
              Some (n, tab, cb, w)))
      })"

text \<open>\<open>EMSdestroy\<close>; when \<open>unlink\<close> fails the entry of the unmapped buffer stays.\<close>

definition EMSdestroy :: "os_calls \<Rightarrow> nat \<Rightarrow> bool \<Rightarrow> buf_table \<Rightarrow> bool \<times> buf_table" where
  "EMSdestroy os mmapID do_unlink tab =
     (if \<not> munmap_ok os then (False, tab)
      else if do_unlink \<and> \<not> unlink_ok os then (False, tab)
      else (True, tab\<lparr>emsBufFilenames := (emsBufFilenames tab)(mmapID := []),
                      emsBufLengths := (emsBufLengths tab)(mmapID := 0),
                      emsBufs := (emsBufs tab)(mmapID := None)\<rparr>))"

end
