(* ===== verification/EmsNode.thy ===== *)
theory EmsNode
  imports EmsRmw EmsStack EmsQueue EmsCollectives EmsInit
begin

text \<open>
  The Node.js binding (\<open>src/nodejs/nodejs.cc\<close>, \<open>src/nodejs/nodejs.h\<close>): JavaScript values become
  EMS values and back, and every exported function checks its arguments, calls its operation and
  turns failure into an exception. The conversions of the N-API are not in the repository; they are
  the record \<open>napi\<close> that every function here takes.
\<close>

section \<open>JavaScript values\<close>

text \<open>A number is the bits of a double, a string its UTF-8 bytes.\<close>

datatype js =
    JSNumber int
  | JSString string
  | JSBool bool
  | JSUndefined
  | JSNull
  | JSObject "(string \<times> js) list"
  | JSFunction string

datatype js_error = JSError | JSTypeError

type_synonym js_result = "js_error + js"

text \<open>
  \<open>As<Napi::Number>\<close> converted to \<open>int64_t\<close> and to \<open>int32_t\<close>, \<open>As<Napi::Boolean>\<close>, and
  \<open>As<Napi::String>().Utf8Value()\<close>, of any value.
\<close>

record napi =
  to_int64 :: "js \<Rightarrow> int"
  to_int32 :: "js \<Rightarrow> int"
  to_bool :: "js \<Rightarrow> bool"
  to_utf8 :: "js \<Rightarrow> string"

text \<open>\<open>info[i]\<close>; an argument that was not passed is undefined.\<close>

definition info_arg :: "js list \<Rightarrow> nat \<Rightarrow> js" where
  "info_arg info i = (if i < length info then info ! i else JSUndefined)"

definition js_int :: "int \<Rightarrow> js" where
  "js_int i = JSNumber (dbl_of_int i)"

section \<open>From JavaScript to EMS\<close>

definition EMS_VALUE_TYPE_INITIALIZER :: EMSvalueType where
  "EMS_VALUE_TYPE_INITIALIZER = \<lparr>len = 0, val = PInt 0, vtype = EMS_TYPE_INVALID\<rparr>"

definition IS_INTEGER :: "napi \<Rightarrow> int \<Rightarrow> bool" where
  "IS_INTEGER api b \<longleftrightarrow> dbl_eq (dbl_of_int (to_int64 api (JSNumber b))) b"

fun NapiObjToEMStype :: "napi \<Rightarrow> js \<Rightarrow> bool \<Rightarrow> ems_type" where
  "NapiObjToEMStype api (JSNumber b) stringIsJSON = (if IS_INTEGER api b then EMS_TYPE_INTEGER else EMS_TYPE_FLOAT)"
| "NapiObjToEMStype api (JSString s) stringIsJSON = (if stringIsJSON then EMS_TYPE_JSON else EMS_TYPE_STRING)"
| "NapiObjToEMStype api (JSBool x) stringIsJSON = EMS_TYPE_BOOLEAN"
| "NapiObjToEMStype api JSUndefined stringIsJSON = EMS_TYPE_UNDEFINED"
| "NapiObjToEMStype api _ stringIsJSON = EMS_TYPE_INVALID"

text \<open>The length of a text counts its NUL. (\<open>alloca\<close> does not return NULL.)\<close>

fun NAPI_OBJ_2_EMS_OBJ :: "napi \<Rightarrow> js \<Rightarrow> bool \<Rightarrow> js_error + EMSvalueType" where
  "NAPI_OBJ_2_EMS_OBJ api (JSNumber b) stringIsJSON =
     Inr (EMS_VALUE_TYPE_INITIALIZER
       \<lparr>vtype := NapiObjToEMStype api (JSNumber b) stringIsJSON,
        val := PInt (if IS_INTEGER api b then to_int64 api (JSNumber b) else b)\<rparr>)"
| "NAPI_OBJ_2_EMS_OBJ api (JSString s) stringIsJSON =
     Inr \<lparr>len = length s + 1, val = PStr s, vtype = NapiObjToEMStype api (JSString s) stringIsJSON\<rparr>"
| "NAPI_OBJ_2_EMS_OBJ api (JSBool x) stringIsJSON =
     Inr (EMS_VALUE_TYPE_INITIALIZER\<lparr>vtype := EMS_TYPE_BOOLEAN, val := PInt (if x then 1 else 0)\<rparr>)"
| "NAPI_OBJ_2_EMS_OBJ api JSUndefined stringIsJSON =
     Inr (EMS_VALUE_TYPE_INITIALIZER\<lparr>vtype := EMS_TYPE_UNDEFINED, val := PInt 0xbeeff00d\<rparr>)"
| "NAPI_OBJ_2_EMS_OBJ api _ stringIsJSON = Inl JSTypeError"

text \<open>
  The macros that check the arguments. A missing argument raises an exception but does not return:
  the function goes on with a value of type invalid, and the exception stays pending.
\<close>

definition key_arg :: "napi \<Rightarrow> js list \<Rightarrow> bool \<times> (js_error + EMSvalueType)" where
  "key_arg api info =
     (if length info < 1 then (True, Inr EMS_VALUE_TYPE_INITIALIZER)
      else (False, NAPI_OBJ_2_EMS_OBJ api (info_arg info 0) False))"

definition value_arg :: "napi \<Rightarrow> js list \<Rightarrow> nat \<Rightarrow> bool \<times> (js_error + EMSvalueType)" where
  "value_arg api info argNum =
     (let stringIsJSON = (length info = argNum + 2 \<and> to_bool api (info_arg info (argNum + 1))) in
      if length info < argNum + 1 then (True, Inr EMS_VALUE_TYPE_INITIALIZER)
      else (False, NAPI_OBJ_2_EMS_OBJ api (info_arg info argNum) stringIsJSON))"

definition pending :: "bool \<Rightarrow> js_result \<Rightarrow> js_result" where
  "pending thrown r = (if thrown then Inl JSError else r)"

fun with_arg ::
  "bool \<times> (js_error + EMSvalueType) \<Rightarrow> (EMSvalueType \<Rightarrow> world \<Rightarrow> (js_result \<times> world) option) \<Rightarrow>
    world \<Rightarrow> (js_result \<times> world) option" where
  "with_arg (thrown, Inl e) body w = Some (Inl e, w)"
| "with_arg (thrown, Inr v) body w = map_option (\<lambda>(r, w). (pending thrown r, w)) (body v w)"

section \<open>From EMS to JavaScript\<close>

text \<open>Only the low 32 bits of an integer are returned.\<close>

definition ems2napiReturnValue :: "ems \<Rightarrow> EMSvalueType \<Rightarrow> js_result option" where
  "ems2napiReturnValue m v =
     (case vtype v of
        EMS_TYPE_BOOLEAN \<Rightarrow> map_option (\<lambda>i. Inr (JSBool (i \<noteq> 0))) (as_int64 (val v))
      | EMS_TYPE_INTEGER \<Rightarrow> map_option (\<lambda>i. Inr (js_int (wrap32 i))) (as_int64 (val v))
      | EMS_TYPE_FLOAT \<Rightarrow> map_option (\<lambda>i. Inr (JSNumber i)) (as_int64 (val v))
      | EMS_TYPE_JSON \<Rightarrow> map_option (\<lambda>s. Inr (JSObject [(''data'', JSString s)])) (cstring m (val v))
      | EMS_TYPE_STRING \<Rightarrow> map_option (\<lambda>s. Inr (JSString s)) (cstring m (val v))
      | EMS_TYPE_UNDEFINED \<Rightarrow> Some (Inr JSUndefined)
      | _ \<Rightarrow> Some (Inl JSTypeError))"

text \<open>What an operation that returns a flag and a value gives JavaScript.\<close>

definition node_value :: "(bool \<times> EMSvalueType \<times> world) option \<Rightarrow> (js_result \<times> world) option" where
  "node_value res = do {
     (success, v, w) \<leftarrow> res;
     r \<leftarrow> (if success then ems2napiReturnValue (mem w) v else Some (Inl JSError));
     Some (r, w)
   }"

definition node_flag :: "(bool \<times> world) option \<Rightarrow> (js_result \<times> world) option" where
  "node_flag res = map_option (\<lambda>(r, w). (Inr (JSBool r), w)) res"

section \<open>Reads and writes\<close>

text \<open>\<open>fuel\<close> and \<open>newTag\<close> are those of the operations.\<close>

definition NodeJSread :: "napi \<Rightarrow> nat \<Rightarrow> EMStag_t \<Rightarrow> js list \<Rightarrow> world \<Rightarrow> (js_result \<times> world) option" where
  "NodeJSread api fuel newTag info =
     with_arg (key_arg api info) (\<lambda>key w. node_value (EMSread fuel newTag key EMS_VALUE_TYPE_INITIALIZER w))"

definition NodeJSreadFE :: "napi \<Rightarrow> nat \<Rightarrow> EMStag_t \<Rightarrow> js list \<Rightarrow> world \<Rightarrow> (js_result \<times> world) option" where
  "NodeJSreadFE api fuel newTag info =
     with_arg (key_arg api info) (\<lambda>key w. node_value (EMSreadFE fuel newTag key EMS_VALUE_TYPE_INITIALIZER w))"

definition NodeJSreadFF :: "napi \<Rightarrow> nat \<Rightarrow> EMStag_t \<Rightarrow> js list \<Rightarrow> world \<Rightarrow> (js_result \<times> world) option" where
  "NodeJSreadFF api fuel newTag info =
     with_arg (key_arg api info) (\<lambda>key w. node_value (EMSreadFF fuel newTag key EMS_VALUE_TYPE_INITIALIZER w))"

definition NodeJSreadRW :: "napi \<Rightarrow> nat \<Rightarrow> EMStag_t \<Rightarrow> js list \<Rightarrow> world \<Rightarrow> (js_result \<times> world) option" where
  "NodeJSreadRW api fuel newTag info =
     with_arg (key_arg api info) (\<lambda>key w. node_value (EMSreadRW fuel newTag key EMS_VALUE_TYPE_INITIALIZER w))"

definition NodeJSreleaseRW :: "napi \<Rightarrow> nat \<Rightarrow> js list \<Rightarrow> world \<Rightarrow> (js_result \<times> world) option" where
  "NodeJSreleaseRW api fuel info =
     with_arg (key_arg api info) (\<lambda>key w. do {
       (nReadersActive, w) \<leftarrow> EMSreleaseRW fuel key w;
       Some (if nReadersActive < 0 then Inl JSError else Inr (js_int nReadersActive), w)
     })"

definition NodeJSwrite :: "napi \<Rightarrow> nat \<Rightarrow> js list \<Rightarrow> world \<Rightarrow> (js_result \<times> world) option" where
  "NodeJSwrite api fuel info =
     with_arg (key_arg api info) (\<lambda>key. with_arg (value_arg api info 1) (\<lambda>v w. node_flag (EMSwrite fuel key v w)))"

definition NodeJSwriteEF :: "napi \<Rightarrow> nat \<Rightarrow> js list \<Rightarrow> world \<Rightarrow> (js_result \<times> world) option" where
  "NodeJSwriteEF api fuel info =
     with_arg (key_arg api info) (\<lambda>key. with_arg (value_arg api info 1) (\<lambda>v w. node_flag (EMSwriteEF fuel key v w)))"

definition NodeJSwriteXF :: "napi \<Rightarrow> nat \<Rightarrow> js list \<Rightarrow> world \<Rightarrow> (js_result \<times> world) option" where
  "NodeJSwriteXF api fuel info =
     with_arg (key_arg api info) (\<lambda>key. with_arg (value_arg api info 1) (\<lambda>v w. node_flag (EMSwriteXF fuel key v w)))"

definition NodeJSwriteXE :: "napi \<Rightarrow> nat \<Rightarrow> js list \<Rightarrow> world \<Rightarrow> (js_result \<times> world) option" where
  "NodeJSwriteXE api fuel info =
     with_arg (key_arg api info) (\<lambda>key. with_arg (value_arg api info 1) (\<lambda>v w. node_flag (EMSwriteXE fuel key v w)))"

text \<open>\<open>(bool) value.value\<close>: a pointer to a text is not NULL.\<close>

fun payload_bool :: "payload \<Rightarrow> bool" where
  "payload_bool (PInt i) \<longleftrightarrow> i \<noteq> 0"
| "payload_bool _ \<longleftrightarrow> True"

definition NodeJSsetTag :: "napi \<Rightarrow> nat \<Rightarrow> js list \<Rightarrow> world \<Rightarrow> (js_result \<times> world) option" where
  "NodeJSsetTag api fuel info =
     with_arg (key_arg api info) (\<lambda>key. with_arg (value_arg api info 1) (\<lambda>v w. do {
       (success, w) \<leftarrow> EMSsetTag fuel key (payload_bool (val v)) w;
       Some (if success then Inr (JSBool True) else Inl JSError, w)
     }))"

section \<open>Atomic operations, stack and queue\<close>

definition NodeJScas :: "napi \<Rightarrow> nat \<Rightarrow> js list \<Rightarrow> world \<Rightarrow> (js_result \<times> world) option" where
  "NodeJScas api fuel info =
     with_arg (key_arg api info) (\<lambda>key w.
       if length info \<noteq> 3 then Some (Inl JSError, w)
       else with_arg (False, NAPI_OBJ_2_EMS_OBJ api (info_arg info 1) False) (\<lambda>oldVal.
         with_arg (False, NAPI_OBJ_2_EMS_OBJ api (info_arg info 2) False) (\<lambda>newVal w.
           node_value (EMScas fuel key oldVal newVal EMS_VALUE_TYPE_INITIALIZER w))) w)"

definition NodeJSfaa :: "napi \<Rightarrow> nat \<Rightarrow> js list \<Rightarrow> world \<Rightarrow> (js_result \<times> world) option" where
  "NodeJSfaa api fuel info =
     with_arg (key_arg api info) (\<lambda>key. with_arg (value_arg api info 1) (\<lambda>v w.
       node_value (EMSfaa fuel key v EMS_VALUE_TYPE_INITIALIZER w)))"

definition NodeJSpush :: "napi \<Rightarrow> nat \<Rightarrow> js list \<Rightarrow> world \<Rightarrow> (js_result \<times> world) option" where
  "NodeJSpush api fuel info =
     with_arg (value_arg api info 0) (\<lambda>v w. map_option (\<lambda>(r, w). (Inr (js_int r), w)) (EMSpush fuel v w))"

definition NodeJSpop :: "nat \<Rightarrow> world \<Rightarrow> (js_result \<times> world) option" where
  "NodeJSpop fuel w = node_value (EMSpop fuel EMS_VALUE_TYPE_INITIALIZER w)"

definition NodeJSenqueue :: "napi \<Rightarrow> nat \<Rightarrow> js list \<Rightarrow> world \<Rightarrow> (js_result \<times> world) option" where
  "NodeJSenqueue api fuel info =
     with_arg (value_arg api info 0) (\<lambda>v w. map_option (\<lambda>(r, w). (Inr (js_int r), w)) (EMSenqueue fuel v w))"

definition NodeJSdequeue :: "nat \<Rightarrow> world \<Rightarrow> (js_result \<times> world) option" where
  "NodeJSdequeue fuel w = node_value (EMSdequeue fuel EMS_VALUE_TYPE_INITIALIZER w)"

section \<open>Keys of indexes, synchronisation\<close>

text \<open>A failed conversion prints a message and goes on with a key of type invalid.\<close>

definition NodeJSindex2key :: "napi \<Rightarrow> js list \<Rightarrow> world \<Rightarrow> (js_result \<times> world) option" where
  "NodeJSindex2key api info w =
     (let idx = wrap32 (to_int64 api (info_arg info 0));
          (_, key) = EMSindex2key idx EMS_VALUE_TYPE_INITIALIZER (mem w) in
      map_option (\<lambda>r. (r, w)) (ems2napiReturnValue (mem w) key))"

definition EMSsync :: bool where "EMSsync = False"

definition NodeJSsync :: js_result where "NodeJSsync = Inr (JSBool EMSsync)"

section \<open>Loops and collectives\<close>

definition NodeJScriticalEnter :: "napi \<Rightarrow> (nat \<Rightarrow> ctl \<Rightarrow> ctl) \<Rightarrow> js list \<Rightarrow> ctl \<Rightarrow> js_result \<times> ctl" where
  "NodeJScriticalEnter api others info cb =
     (if length info = 1 then
        (let timeout = to_int64 api (info_arg info 0);
             (timeRemaining, cb) = EMScriticalEnter others 0 (wrap32 timeout) cb in
         (if timeRemaining \<le> 0 then Inl JSError else Inr (js_int timeRemaining), cb))
      else (Inl JSError, cb))"

definition NodeJScriticalExit :: "ctl \<Rightarrow> js_result \<times> ctl" where
  "NodeJScriticalExit cb =
     (let (success, cb) = EMScriticalExit cb in (if success then Inr (JSBool True) else Inl JSError, cb))"

definition NodeJSbarrier :: "napi \<Rightarrow> (nat \<Rightarrow> ctl \<Rightarrow> ctl) \<Rightarrow> js list \<Rightarrow> ctl \<Rightarrow> js_result \<times> ctl" where
  "NodeJSbarrier api others info cb =
     (if length info = 1 then
        (let (timeRemaining, cb) = EMSbarrier others (to_int32 api (info_arg info 0)) cb in
         (if timeRemaining \<le> 0 then Inl JSError else Inr (js_int timeRemaining), cb))
      else (Inl JSError, cb))"

definition NodeJSsingleTask :: "ctl \<Rightarrow> js_result \<times> ctl" where
  "NodeJSsingleTask cb = (let (did_work, cb) = EMSsingleTask cb in (Inr (JSBool did_work), cb))"

definition sched_mode :: "string \<Rightarrow> int option" where
  "sched_mode s =
     (if s = ''guided'' then Some EMS_SCHED_GUIDED
      else if s = ''dynamic'' then Some EMS_SCHED_DYNAMIC
      else None)"

definition NodeJSloopInit :: "napi \<Rightarrow> js list \<Rightarrow> ctl \<Rightarrow> js_result \<times> ctl" where
  "NodeJSloopInit api info cb =
     (if length info \<noteq> 4 then (Inl JSError, cb)
      else (case sched_mode (to_utf8 api (info_arg info 2)) of
          None \<Rightarrow> (Inl JSError, cb)
        | Some mode \<Rightarrow>
            (let (success, cb) = EMSloopInit (to_int32 api (info_arg info 0)) (to_int32 api (info_arg info 1))
                   (to_int32 api (info_arg info 3)) mode cb in
             (if success then Inr (JSBool True) else Inl JSError, cb))))"

definition NodeJSloopChunk :: "js list \<Rightarrow> ctl \<Rightarrow> js_result \<times> ctl" where
  "NodeJSloopChunk info cb =
     (if length info \<noteq> 0 then (Inl JSError, cb)
      else (let (_, start, stop, cb) = EMSloopChunk cb in
            (Inr (JSObject [(''start'', js_int start), (''end'', js_int stop)]), cb)))"

section \<open>Creating and destroying arrays\<close>

text \<open>The functions of the object that stands for an array.\<close>

definition array_functions :: "(string \<times> js) list" where
  "array_functions = map (\<lambda>(n, f). (n, JSFunction f))
     [(''faa'', ''NodeJSfaa''), (''cas'', ''NodeJScas''), (''read'', ''NodeJSread''), (''write'', ''NodeJSwrite''),
      (''readRW'', ''NodeJSreadRW''), (''releaseRW'', ''NodeJSreleaseRW''), (''readFE'', ''NodeJSreadFE''),
      (''readFF'', ''NodeJSreadFF''), (''setTag'', ''NodeJSsetTag''), (''writeEF'', ''NodeJSwriteEF''),
      (''writeXF'', ''NodeJSwriteXF''), (''writeXE'', ''NodeJSwriteXE''), (''push'', ''NodeJSpush''),
      (''pop'', ''NodeJSpop''), (''enqueue'', ''NodeJSenqueue''), (''dequeue'', ''NodeJSdequeue''),
      (''sync'', ''NodeJSsync''), (''index2key'', ''NodeJSindex2key''), (''destroy'', ''NodeJSdestroy'')]"

definition node_init_args :: "napi \<Rightarrow> js list \<Rightarrow> EMSvalueType \<Rightarrow> init_args" where
  "node_init_args api info fill =
     \<lparr>nElements = to_int64 api (info_arg info 0), heapSize = nat (to_int64 api (info_arg info 1) mod 2 ^ 64),
      useMap = to_bool api (info_arg info 2), useExisting = to_bool api (info_arg info 5),
      doDataFill = to_bool api (info_arg info 6), fillValue = fill,
      doSetFEtags = to_bool api (info_arg info 9), setFEtagsFull = to_bool api (info_arg info 10),
      myID = to_int32 api (info_arg info 11), nThreads = to_int32 api (info_arg info 13)\<rparr>"

definition NodeJSinitialize ::
  "napi \<Rightarrow> nat \<Rightarrow> os_calls \<Rightarrow> int \<Rightarrow> EMStag_t \<Rightarrow> js list \<Rightarrow> buf_table \<Rightarrow> ctl \<Rightarrow> world \<Rightarrow>
    (js_result \<times> buf_table \<times> ctl \<times> world) option" where
  "NodeJSinitialize api fuel os addr tg info tab cb w =
     (if length info \<noteq> 15 then Some (Inl JSError, tab, cb, w)
      else
        (case (if to_bool api (info_arg info 6)
               then NAPI_OBJ_2_EMS_OBJ api (info_arg info 8) (to_bool api (info_arg info 7))
               else Inr EMS_VALUE_TYPE_INITIALIZER) of
           Inl e \<Rightarrow> Some (Inl e, tab, cb, w)
         | Inr fill \<Rightarrow>
             if vtype fill \<in> {EMS_TYPE_JSON, EMS_TYPE_STRING} \<and> \<not> libc_malloc w (len fill + 1)
             then Some (Inl JSError, tab, cb, w)
             else do {
               (emsBufN, tab, cb, w) \<leftarrow> EMSinitialize fuel os addr (to_utf8 api (info_arg info 3))
                 (node_init_args api info fill) tg tab cb w;
               Some (if emsBufN < 0 then Inl JSError
                     else Inr (JSObject ((''mmapID'', js_int emsBufN) # array_functions)), tab, cb, w)
             }))"

definition NodeJSdestroy :: "napi \<Rightarrow> os_calls \<Rightarrow> nat \<Rightarrow> js list \<Rightarrow> buf_table \<Rightarrow> js_result \<times> buf_table" where
  "NodeJSdestroy api os mmapID info tab =
     (let (success, tab) = EMSdestroy os mmapID (to_bool api (info_arg info 0)) tab in
      (if success then Inr (JSBool True) else Inl JSError, tab))"

definition RegisterModule :: "(string \<times> js) list" where
  "RegisterModule = map (\<lambda>(n, f). (n, JSFunction f))
     [(''initialize'', ''NodeJSinitialize''), (''barrier'', ''NodeJSbarrier''), (''singleTask'', ''NodeJSsingleTask''),
      (''criticalEnter'', ''NodeJScriticalEnter''), (''criticalExit'', ''NodeJScriticalExit''),
      (''loopInit'', ''NodeJSloopInit''), (''loopChunk'', ''NodeJSloopChunk'')]"

end
