(* ===== verification/EmsMapFacts.thy ===== *)
theory EmsMapFacts
  imports EmsMap
begin

text \<open>
  The key map while nobody else uses it: a lookup is a search of the probe sequence, storing a new
  key makes it found and keeps every other key found where it was, and an index leads back to
  its key.
\<close>

section \<open>The probe sequence\<close>

definition map_ok :: "ems \<Rightarrow> bool" where
  "map_ok m \<longleftrightarrow> 0 < nelem m \<and> nelem m < 2 ^ 31 \<and> EMSisMapped m \<and>
     (\<forall>j. 0 \<le> j \<longrightarrow> j < nelem m \<longrightarrow> fe (tag m (mapIdx m j)) = EMS_TAG_FULL \<and>
        (ty (tag m (mapIdx m j)) = EMS_TYPE_STRING \<longrightarrow> (\<exists>s. heapStr m (word m (mapIdx m j)) = Some s)) \<and>
        (ty (tag m (mapIdx m j)) = EMS_TYPE_BOOLEAN \<longrightarrow> word m (mapIdx m j) \<in> {0, 1}))"

text \<open>
  The key \<open>key\<close> is well formed (a boolean is 0 or 1, as the language bindings pass it) and \<open>h\<close>
  is where its search starts.
\<close>

definition key_ok :: "ems \<Rightarrow> EMSvalueType \<Rightarrow> int \<Rightarrow> bool" where
  "key_ok m key h \<longleftrightarrow> key_home m key = Some (Some h) \<and> 0 \<le> h \<and>
     (vtype key = EMS_TYPE_BOOLEAN \<longrightarrow> val key = PInt 0 \<or> val key = PInt 1)"

definition entry :: "ems \<Rightarrow> int \<Rightarrow> nat \<Rightarrow> int" where
  "entry m h d = (h + int d) mod nelem m"

definition entry_free :: "ems \<Rightarrow> int \<Rightarrow> bool" where
  "entry_free m j \<longleftrightarrow> ty (tag m (mapIdx m j)) = EMS_TYPE_UNDEFINED"

definition entry_matches :: "ems \<Rightarrow> EMSvalueType \<Rightarrow> int \<Rightarrow> bool" where
  "entry_matches m key j \<longleftrightarrow> map_matches m (tag m (mapIdx m j)) key j = Some True"

text \<open>The entry found after \<open>d\<close> steps; the one at which the search for an absent key ends.\<close>

definition found_at :: "ems \<Rightarrow> EMSvalueType \<Rightarrow> int \<Rightarrow> nat \<Rightarrow> bool" where
  "found_at m key h d \<longleftrightarrow> entry_matches m key (entry m h d) \<and>
     (\<forall>e < d. \<not> entry_matches m key (entry m h e) \<and> \<not> entry_free m (entry m h e))"

definition free_at :: "ems \<Rightarrow> EMSvalueType \<Rightarrow> int \<Rightarrow> nat \<Rightarrow> bool" where
  "free_at m key h d \<longleftrightarrow> entry_free m (entry m h d) \<and>
     (\<forall>e < d. \<not> entry_matches m key (entry m h e) \<and> \<not> entry_free m (entry m h e))"

lemma mapIdx_eq [simp]: "0 \<le> i \<Longrightarrow> 0 \<le> j \<Longrightarrow> 0 \<le> nelem m \<Longrightarrow> mapIdx m i = mapIdx m j \<longleftrightarrow> i = j"
  by (auto simp: mapIdx_def)

lemma mapIdx_sel [simp]:
  "mapIdx (set_tag a t m) i = mapIdx m i" "mapIdx (set_fe a f m) i = mapIdx m i"
  "a \<noteq> EMS_ARR_NELEM \<Longrightarrow> mapIdx (set_word a x m) i = mapIdx m i"
  by (simp_all add: mapIdx_def)

lemma isMapped_sel [simp]:
  "EMSisMapped (set_tag a t m) = EMSisMapped m" "EMSisMapped (set_fe a f m) = EMSisMapped m"
  by (simp_all add: EMSisMapped_def)

lemma key_home_type: "key_ok m key h \<Longrightarrow>
    vtype key \<in> {EMS_TYPE_BOOLEAN, EMS_TYPE_INTEGER, EMS_TYPE_FLOAT, EMS_TYPE_STRING}"
  by (auto simp: key_ok_def key_home_def split: if_splits)

lemma key_ok_val:
  assumes "key_ok m key h"
  shows "vtype key \<noteq> EMS_TYPE_STRING \<Longrightarrow> \<exists>i. as_int64 (val key) = Some i"
    and "vtype key = EMS_TYPE_STRING \<Longrightarrow> \<exists>s. cstring m (val key) = Some s"
  using assms by (auto simp: key_ok_def key_home_def split: if_splits)

lemma map_matches_defined:
  assumes "map_ok m" "key_ok m key h" "0 \<le> j" "j < nelem m"
  shows "\<exists>b. map_matches m (tag m (mapIdx m j)) key j = Some b"
proof (cases "vtype key = EMS_TYPE_STRING")
  case True
  with assms show ?thesis
    using key_ok_val(2) [OF assms(2) True] by (fastforce simp: map_matches_def map_ok_def)
next
  case False
  with assms show ?thesis
    using key_ok_val(1) [OF assms(2) False] by (auto simp: map_matches_def)
qed

lemma map_matches_defined_iff:
  assumes "map_ok m" "key_ok m key h" "0 \<le> j" "j < nelem m"
  shows "map_matches m (tag m (mapIdx m j)) key j = Some (entry_matches m key j)"
  using map_matches_defined [OF assms] by (auto simp: entry_matches_def)

lemma map_matches_tag: "ty t = ty u \<Longrightarrow> map_matches m t key j = map_matches m u key j"
  by (simp add: map_matches_def)

lemma map_matches_sel [simp]:
  "map_matches (set_tag a t m) u key j = map_matches m u key j"
  "map_matches (set_fe a f m) u key j = map_matches m u key j"
  by (simp_all add: map_matches_def)

lemma set_fe_back:
  assumes "fe (tag m a) = f" shows "set_fe a f (set_fe a g m) = m"
proof -
  have "(tag m a)\<lparr>fe := f\<rparr> = tag m a" using assms by (rule fe_update_same)
  then show ?thesis by (intro ems_eqI) simp_all
qed

section \<open>Looking a key up\<close>

text \<open>One round of the loop: the entry is examined and left as it was.\<close>

lemma key2index_step:
  assumes q: "quiet w" and ok: "map_ok (mem w)" "key_ok (mem w) key h" and idx: "0 \<le> idx" and fuel: "0 < fuel"
  defines "j \<equiv> idx mod nelem (mem w)"
  shows "key2index_loop fuel (Suc k) key idx w =
    (if entry_matches (mem w) key j then Some (j, yield w)
     else if entry_free (mem w) j then Some (- 1, yield w)
     else key2index_loop fuel k key (j + 1) (yield w))"
proof -
  let ?m = "mem w" let ?a = "mapIdx ?m j"
  have n: "0 < nelem ?m" using ok(1) by (simp add: map_ok_def)
  have j: "idx smod nelem ?m = j" "0 \<le> j" "j < nelem ?m"
    using idx n by (simp_all add: j_def smod_nonneg)
  have full: "fe (tag ?m ?a) = EMS_TAG_FULL" using ok(1) j(2,3) by (simp add: map_ok_def)
  define w1 where "w1 = upd (set_fe ?a EMS_TAG_BUSY) (yield w)"
  have tr: "EMStransitionFEtag fuel ?a None EMS_TAG_FULL EMS_TAG_BUSY EMS_TAG_ANY_code w =
      Some ((tag ?m ?a)\<lparr>fe := EMS_TAG_BUSY\<rparr>, w1)"
    unfolding w1_def using q full fuel by (rule transition_quiet)
  have w1: "mem w1 = set_fe ?a EMS_TAG_BUSY ?m" using q by (simp add: w1_def)
  have mt: "map_matches (mem w1) ((tag ?m ?a)\<lparr>fe := EMS_TAG_BUSY\<rparr>) key j = Some (entry_matches ?m key j)"
    using map_matches_defined_iff [OF ok j(2,3)] map_matches_tag [of "(tag ?m ?a)\<lparr>fe := EMS_TAG_BUSY\<rparr>" "tag ?m ?a"]
    by (simp add: w1)
  have undo: "upd (\<lambda>m. set_fe (mapIdx m j) EMS_TAG_FULL m) w1 = yield w"
    using set_fe_back [OF full] q by (simp add: w1_def upd_def)
  show ?thesis
    unfolding key2index_loop.simps Let_def j(1) tr Option.bind.simps prod.case mt undo
    by (simp add: entry_free_def)
qed

lemma key2index_loop_quiet:
  assumes "quiet w" "map_ok (mem w)" "key_ok (mem w) key h" "0 < fuel" "0 \<le> idx"
  shows "\<exists>w'. quiet w' \<and> mem w' = mem w \<and> libc_malloc w' = libc_malloc w \<and>
    ((\<exists>d < k. found_at (mem w) key idx d \<and> key2index_loop fuel k key idx w = Some (entry (mem w) idx d, w')) \<or>
     (\<forall>d < k. \<not> found_at (mem w) key idx d) \<and> key2index_loop fuel k key idx w = Some (- 1, w'))"
  using assms
proof (induction k arbitrary: idx w)
  case (Suc k)
  let ?m = "mem w" let ?j = "idx mod nelem ?m"
  have n: "0 < nelem ?m" using Suc.prems(2) by (simp add: map_ok_def)
  note step = key2index_step [OF Suc.prems(1-3,5,4)]
  have e0: "entry ?m idx 0 = ?j" by (simp add: entry_def)
  have eS: "entry ?m (?j + 1) d = entry ?m idx (Suc d)" for d
    by (simp add: entry_def) (metis add.assoc add.commute mod_add_left_eq)
  have shift: "found_at ?m key idx (Suc d) \<longleftrightarrow> \<not> entry_matches ?m key ?j \<and> \<not> entry_free ?m ?j \<and> found_at ?m key (?j + 1) d" for d
    unfolding found_at_def eS All_less_Suc2 e0 by auto
  show ?case
  proof (cases "entry_matches ?m key ?j \<or> entry_free ?m ?j")
    case True
    have f0: "found_at ?m key idx 0 \<longleftrightarrow> entry_matches ?m key ?j" by (simp add: found_at_def e0)
    have none: "found_at ?m key idx d \<Longrightarrow> d = 0" for d using shift [of "d - 1"] True by (cases d) auto
    show ?thesis
    proof (cases "entry_matches ?m key ?j")
      case True
      then show ?thesis using step f0 e0 Suc.prems(1) by (intro exI [of _ "yield w"]) auto
    next
      case False
      then show ?thesis using step f0 none \<open>entry_matches ?m key ?j \<or> entry_free ?m ?j\<close> Suc.prems(1)
        by (intro exI [of _ "yield w"]) auto
    qed
  next
    case False
    have nf: "\<not> found_at ?m key idx 0" using False by (simp add: found_at_def e0)
    have "0 \<le> ?j + 1" using n by (simp add: add_increasing2)
    from Suc.IH [of "yield w" "?j + 1"] this Suc.prems obtain w' where w': "quiet w'" "mem w' = ?m"
      "libc_malloc w' = libc_malloc w" and
      r: "(\<exists>d < k. found_at ?m key (?j + 1) d \<and> key2index_loop fuel k key (?j + 1) (yield w) = Some (entry ?m (?j + 1) d, w')) \<or>
        (\<forall>d < k. \<not> found_at ?m key (?j + 1) d) \<and> key2index_loop fuel k key (?j + 1) (yield w) = Some (- 1, w')"
      by auto
    have eq: "key2index_loop fuel (Suc k) key idx w = key2index_loop fuel k key (?j + 1) (yield w)"
      using step False by simp
    from r show ?thesis
    proof (elim disjE exE conjE)
      fix d assume "d < k" "found_at ?m key (?j + 1) d"
        "key2index_loop fuel k key (?j + 1) (yield w) = Some (entry ?m (?j + 1) d, w')"
      then show ?thesis using w' eq shift [of d] False eS by (intro exI [of _ w']) auto
    next
      assume a: "\<forall>d < k. \<not> found_at ?m key (?j + 1) d" "key2index_loop fuel k key (?j + 1) (yield w) = Some (- 1, w')"
      have "\<not> found_at ?m key idx d" if "d < Suc k" for d
        using that a(1) shift [of "d - 1"] nf by (cases d) auto
      then show ?thesis using w' eq a(2) by (intro exI [of _ w']) auto
    qed
  qed
qed auto

lemma EMSkey2index_mapped:
  assumes "quiet w" "map_ok (mem w)" "key_ok (mem w) key h" "0 < fuel"
  shows "\<exists>w'. quiet w' \<and> mem w' = mem w \<and> libc_malloc w' = libc_malloc w \<and>
    ((\<exists>d < MAX_OPEN_HASH_STEPS. found_at (mem w) key h d \<and> EMSkey2index fuel key True w = Some (entry (mem w) h d, w')) \<or>
     (\<forall>d < MAX_OPEN_HASH_STEPS. \<not> found_at (mem w) key h d) \<and>
        EMSkey2index fuel key True w = Some ((- 1) smod nelem (mem w), w'))"
proof -
  have n: "0 < nelem (mem w)" using assms(2) by (simp add: map_ok_def)
  have h: "key_home (mem w) key = Some (Some h)" "0 \<le> h" using assms(3) by (simp_all add: key_ok_def)
  from key2index_loop_quiet [OF assms h(2), of MAX_OPEN_HASH_STEPS] obtain w' where
    w': "quiet w'" "mem w' = mem w" "libc_malloc w' = libc_malloc w" and
    r: "(\<exists>d < MAX_OPEN_HASH_STEPS. found_at (mem w) key h d \<and>
           key2index_loop fuel MAX_OPEN_HASH_STEPS key h w = Some (entry (mem w) h d, w')) \<or>
        (\<forall>d < MAX_OPEN_HASH_STEPS. \<not> found_at (mem w) key h d) \<and>
           key2index_loop fuel MAX_OPEN_HASH_STEPS key h w = Some (- 1, w')" by blast
  have "entry (mem w) h d smod nelem (mem w) = entry (mem w) h d" for d
    using n by (simp add: entry_def smod_nonneg)
  then show ?thesis
    using w' r h by (intro exI [of _ w']) (auto simp: EMSkey2index_def)
qed

section \<open>Finding or making the entry of a key\<close>

lemma writeIndex_step:
  assumes q: "quiet w" and ok: "map_ok (mem w)" "key_ok (mem w) key h" and idx: "0 \<le> idx" and fuel: "0 < fuel"
  defines "j \<equiv> idx mod nelem (mem w)"
  shows "writeIndexMap_loop fuel (Suc k) key idx w =
    (if entry_free (mem w) j then do {
       (stored, w) \<leftarrow> map_store_key fuel key j (upd (set_fe (mapIdx (mem w) j) EMS_TAG_BUSY) (yield w));
       Some (if stored then j else - 1, w)
     }
     else if entry_matches (mem w) key j then Some (j, yield w)
     else writeIndexMap_loop fuel k key (j + 1) (yield w))"
proof -
  let ?m = "mem w" let ?a = "mapIdx ?m j"
  have n: "0 < nelem ?m" using ok(1) by (simp add: map_ok_def)
  have j: "idx smod nelem ?m = j" "0 \<le> j" "j < nelem ?m"
    using idx n by (simp_all add: j_def smod_nonneg)
  have full: "fe (tag ?m ?a) = EMS_TAG_FULL" using ok(1) j(2,3) by (simp add: map_ok_def)
  let ?t = "(tag ?m ?a)\<lparr>fe := EMS_TAG_BUSY\<rparr>"
  define w1 where "w1 = upd (set_fe ?a EMS_TAG_BUSY) (yield w)"
  have tr: "EMStransitionFEtag fuel ?a None EMS_TAG_FULL EMS_TAG_BUSY EMS_TAG_ANY_code w = Some (?t, w1)"
    unfolding w1_def using q full fuel by (rule transition_quiet)
  have w1: "mem w1 = set_fe ?a EMS_TAG_BUSY ?m" using q by (simp add: w1_def)
  have undo: "upd (\<lambda>m. set_fe (mapIdx m j) EMS_TAG_FULL m) w1 = yield w"
    using set_fe_back [OF full] q by (simp add: w1_def upd_def)
  have kt: "vtype key \<in> {EMS_TYPE_BOOLEAN, EMS_TYPE_INTEGER, EMS_TYPE_FLOAT, EMS_TYPE_STRING}"
    by (rule key_home_type [OF ok(2)])
  have mt: "map_matches_w (mem w1) ?t key j = Some (entry_matches ?m key j)" if "ty (tag ?m ?a) = vtype key"
  proof -
    have "map_matches_w (mem w1) ?t key j = map_matches ?m (tag ?m ?a) key j"
      using that kt ok j by (auto simp: map_matches_w_def map_matches_def w1 map_ok_def key_ok_def)
    then show ?thesis using map_matches_defined_iff [OF ok j(2,3)] by simp
  qed
  have nm: "\<not> entry_matches ?m key j" if "ty (tag ?m ?a) \<noteq> vtype key"
    using that by (simp add: entry_matches_def map_matches_def)
  show ?thesis
    unfolding writeIndexMap_loop.simps Let_def j(1) tr Option.bind.simps prod.case undo w1_def [symmetric]
    using kt mt nm by (auto simp: entry_free_def)
qed

lemma entry_mod: "entry m (h mod nelem m) d = entry m h d"
  by (simp add: entry_def mod_add_left_eq)

lemma entry_Suc: "entry m (h mod nelem m + 1) d = entry m h (Suc d)"
  by (simp add: entry_def) (metis add.assoc add.commute mod_add_left_eq)

text \<open>The loop passes the occupied entries of other keys without changing them.\<close>

lemma writeIndexMap_loop_quiet:
  assumes "quiet w" "map_ok (mem w)" "key_ok (mem w) key h" "0 < fuel" "0 \<le> idx" "d < k"
    and "\<forall>e < d. \<not> entry_matches (mem w) key (entry (mem w) idx e) \<and> \<not> entry_free (mem w) (entry (mem w) idx e)"
  shows "\<exists>w' k'. quiet w' \<and> mem w' = mem w \<and> libc_malloc w' = libc_malloc w \<and>
    writeIndexMap_loop fuel k key idx w =
      writeIndexMap_loop fuel (Suc k') key (if d = 0 then idx else entry (mem w) idx d) w'"
  using assms
proof (induction d arbitrary: k idx w)
  case 0
  then obtain k' where "k = Suc k'" by (cases k) auto
  then show ?case using 0 by (intro exI [of _ w] exI [of _ k']) simp
next
  case (Suc d)
  let ?m = "mem w" let ?j = "idx mod nelem ?m"
  obtain k1 where k: "k = Suc k1" using Suc.prems(6) by (cases k) auto
  have n: "0 < nelem ?m" using Suc.prems(2) by (simp add: map_ok_def)
  have e0: "entry ?m idx 0 = ?j" by (simp add: entry_def)
  have nm: "\<not> entry_matches ?m key ?j" "\<not> entry_free ?m ?j" using Suc.prems(7) e0 by auto
  have eq: "writeIndexMap_loop fuel k key idx w = writeIndexMap_loop fuel k1 key (?j + 1) (yield w)"
    unfolding k using writeIndex_step [OF Suc.prems(1-3,5,4)] nm by simp
  have pos: "0 \<le> ?j + 1" using n by (simp add: add_increasing2)
  have path: "\<forall>e < d. \<not> entry_matches ?m key (entry ?m (?j + 1) e) \<and> \<not> entry_free ?m (entry ?m (?j + 1) e)"
    using Suc.prems(7) by (simp add: entry_Suc)
  have my: "mem (yield w) = ?m" using Suc.prems(1) by simp
  have "\<exists>w' k'. quiet w' \<and> mem w' = ?m \<and> libc_malloc w' = libc_malloc (yield w) \<and>
      writeIndexMap_loop fuel k1 key (?j + 1) (yield w) =
        writeIndexMap_loop fuel (Suc k') key (if d = 0 then ?j + 1 else entry ?m (?j + 1) d) w'"
    using Suc.IH [of "yield w" "?j + 1" k1, unfolded my] Suc.prems(1-4,6) pos path k by simp
  then obtain w' k' where w': "quiet w'" "mem w' = ?m" "libc_malloc w' = libc_malloc w"
    "writeIndexMap_loop fuel k1 key (?j + 1) (yield w) =
        writeIndexMap_loop fuel (Suc k') key (if d = 0 then ?j + 1 else entry ?m (?j + 1) d) w'" by auto
  have norm: "writeIndexMap_loop fuel (Suc k') key (?j + 1) w' = writeIndexMap_loop fuel (Suc k') key (entry ?m idx 1) w'"
  proof -
    have "(?j + 1) smod nelem ?m = entry ?m idx 1 smod nelem ?m"
      using n pos entry_Suc [of ?m idx 0] by (simp add: smod_nonneg entry_def)
    then show ?thesis unfolding writeIndexMap_loop.simps w'(2) by simp
  qed
  show ?case
    using w' eq norm by (intro exI [of _ w'] exI [of _ k']) (auto simp: entry_Suc)
qed

text \<open>Ownership of the stored keys: \<open>T\<close> holds the entries with string keys.\<close>

definition map_owned :: "ems \<Rightarrow> nat set \<Rightarrow> bool" where
  "map_owned m T \<longleftrightarrow> owned m T \<and>
     (\<forall>j. 0 \<le> j \<longrightarrow> j < nelem m \<longrightarrow> (mapIdx m j \<in> T \<longleftrightarrow> ty (tag m (mapIdx m j)) = EMS_TYPE_STRING))"

text \<open>The buffer \<open>m'\<close> is \<open>m\<close> with the key stored in the entry \<open>j\<close>, whose tag has state \<open>f\<close>.\<close>

definition key_stored :: "ems \<Rightarrow> EMSvalueType \<Rightarrow> int \<Rightarrow> nat set \<Rightarrow> fe_state \<Rightarrow> ems \<Rightarrow> bool" where
  "key_stored m key j T f m' \<longleftrightarrow> (let a = mapIdx m j in
     tag m' = (tag m)(a := (tag m a)\<lparr>ty := vtype key, fe := f\<rparr>) \<and>
     (\<exists>x. word m' = (word m)(a := x) \<and>
        (vtype key = EMS_TYPE_STRING \<longrightarrow> heapStr m' x = cstring m (val key)) \<and>
        (vtype key \<noteq> EMS_TYPE_STRING \<longrightarrow> as_int64 (val key) = Some x)) \<and>
     owned m' (if vtype key = EMS_TYPE_STRING then insert a T else T) \<and>
     (\<forall>b \<in> T. heapStr m' (word m b) = heapStr m (word m b)))"

lemma map_store_quiet:
  assumes w: "quiet w" "mem w = set_fe (mapIdx m j) EMS_TAG_BUSY m"
    and ok: "map_ok m" "key_ok m key h" "map_owned m T" and j: "0 \<le> j" "j < nelem m" "entry_free m j"
    and fuel: "0 < fuel" and n: "request_ok (len key + 1)"
    and len: "\<forall>s. cstring m (val key) = Some s \<longrightarrow> length s \<le> len key"
  shows "(\<exists>w'. map_store_key fuel key j w = Some (False, w') \<and> vtype key = EMS_TYPE_STRING \<and>
            emsMem_alloc (malloc m) (len key + 1) = Some (- 1, malloc m)) \<or>
         (\<exists>w'. map_store_key fuel key j w = Some (True, w') \<and> quiet w' \<and> libc_malloc w' = libc_malloc w \<and>
            key_stored m key j T EMS_TAG_BUSY (mem w'))"
proof -
  let ?a = "mapIdx m j" let ?t = "(tag m ?a)\<lparr>ty := vtype key, fe := EMS_TAG_BUSY\<rparr>"
  have N: "0 < nelem m" using ok(1) by (simp add: map_ok_def)
  have a: "?a \<noteq> EMS_ARR_MEM_MUTEX" "?a \<notin> T"
    using j N ok(3) by (auto simp: map_owned_def entry_free_def)
  define w1 where "w1 = upd (\<lambda>m. set_tag (mapIdx m j) ((tag m (mapIdx m j))\<lparr>ty := vtype key\<rparr>) m) w"
  have m1: "mem w1 = set_tag ?a ?t m"
    using w(2) by (simp add: w1_def) (auto intro!: ems_eqI)
  have w1: "quiet w1" "libc_malloc w1 = libc_malloc w" using w(1) by (simp_all add: w1_def)
  have own: "owned (mem w1) T" using ok(3) m1 by (simp add: map_owned_def)
  have kt: "vtype key \<in> {EMS_TYPE_BOOLEAN, EMS_TYPE_INTEGER, EMS_TYPE_FLOAT, EMS_TYPE_STRING}"
    by (rule key_home_type [OF ok(2)])
  have st: "map_store_key fuel key j w =
      (if vtype key = EMS_TYPE_STRING then store_text fuel ?a (len key + 1) (val key) w1
       else map_option (\<lambda>i. (True, upd (set_word ?a i) w1)) (as_int64 (val key)))"
    using kt m1 ok(2)
    by (auto simp: map_store_key_def w1_def [symmetric] key_ok_def split: Option.bind_splits)
  show ?thesis
  proof (cases "vtype key = EMS_TYPE_STRING")
    case False
    then obtain i where i: "as_int64 (val key) = Some i" using key_ok_val(1) [OF ok(2)] by blast
    have "key_stored m key j T EMS_TAG_BUSY (set_word ?a i (mem w1))"
      using False own a i m1 by (auto simp: key_stored_def Let_def owned_set_word)
    then show ?thesis using st False i w1 by (intro disjI2 exI [of _ "upd (set_word ?a i) w1"]) simp
  next
    case True
    then obtain s where s: "cstring m (val key) = Some s" using key_ok_val(2) [OF ok(2)] by blast
    have s1: "cstring (mem w1) (val key) = Some s" "length s < len key + 1" using s m1 len by fastforce+
    from own a(2,1) fuel n s1 show ?thesis
    proof (cases rule: store_text_quiet)
      case 1
      then show ?thesis using st True m1 by simp
    next
      case (2 m')
      have "word m' = (word m)(?a := word m' ?a)" using 2(5) m1 by simp
      then have "key_stored m key j T EMS_TAG_BUSY m'"
        using 2(2-4,6) True s m1 unfolding key_stored_def Let_def
        by (intro conjI exI [of _ "word m' ?a"]) simp_all
      then show ?thesis
        using st True 2(1) w1 by (intro disjI2 exI [of _ "upd (\<lambda>_. m') w1"]) simp
    qed
  qed
qed

text \<open>What the stored key changes for the searches: its entry matches it, all others are as before.\<close>

definition local_key :: "EMSvalueType \<Rightarrow> bool" where
  "local_key key \<longleftrightarrow> (\<forall>off. val key \<noteq> PHeap off)"

lemma local_key_cstring: "local_key key \<Longrightarrow> cstring m (val key) = cstring m' (val key)"
  by (cases "val key") (auto simp: local_key_def)

lemma key_stored_frame:
  assumes st: "key_stored m key j T f m'" and ok: "map_ok m" "map_owned m T" and j: "0 \<le> j" "j < nelem m"
  shows "nelem m' = nelem m" "EMSisMapped m' = EMSisMapped m" "mapIdx m' i = mapIdx m i"
proof -
  obtain x where x: "word m' = (word m)(mapIdx m j := x)" using st by (auto simp: key_stored_def Let_def)
  have N: "0 < nelem m" using ok(1) by (simp add: map_ok_def)
  show n: "nelem m' = nelem m" using x j N by (simp add: nelem_def)
  then show "mapIdx m' i = mapIdx m i" by (simp add: mapIdx_def)
  show "EMSisMapped m' = EMSisMapped m" using x j N by (simp add: EMSisMapped_def)
qed

lemma key_stored_other:
  assumes st: "key_stored m key j T f m'" and ok: "map_ok m" "map_owned m T" and j: "0 \<le> j" "j < nelem m"
    and i: "0 \<le> i" "i < nelem m" "i \<noteq> j"
  shows "tag m' (mapIdx m' i) = tag m (mapIdx m i)" "word m' (mapIdx m' i) = word m (mapIdx m i)"
    "ty (tag m (mapIdx m i)) = EMS_TYPE_STRING \<Longrightarrow>
       heapStr m' (word m (mapIdx m i)) = heapStr m (word m (mapIdx m i))"
    "local_key k \<Longrightarrow> entry_matches m' k i = entry_matches m k i"
    "entry_free m' i = entry_free m i"
proof -
  have N: "0 < nelem m" using ok(1) by (simp add: map_ok_def)
  have ne: "mapIdx m i \<noteq> mapIdx m j" using i j N by simp
  note fr = key_stored_frame [OF st ok j]
  show t: "tag m' (mapIdx m' i) = tag m (mapIdx m i)" and w: "word m' (mapIdx m' i) = word m (mapIdx m i)"
    using st ne unfolding fr(3) by (auto simp: key_stored_def Let_def)
  show hs: "heapStr m' (word m (mapIdx m i)) = heapStr m (word m (mapIdx m i))"
    if "ty (tag m (mapIdx m i)) = EMS_TYPE_STRING"
    using st ok(2) i that by (auto simp: key_stored_def Let_def map_owned_def)
  show "entry_free m' i = entry_free m i" using t by (simp add: entry_free_def)
  show "entry_matches m' k i = entry_matches m k i" if "local_key k"
    using t w hs local_key_cstring [OF that, of m' m]
    by (auto simp: entry_matches_def map_matches_def)
qed

text \<open>A key equal to itself: C's \<open>==\<close> on doubles is not reflexive at NaN.\<close>

definition self_equal :: "EMSvalueType \<Rightarrow> bool" where
  "self_equal key \<longleftrightarrow> (vtype key = EMS_TYPE_FLOAT \<longrightarrow> (\<forall>i. val key = PInt i \<longrightarrow> \<not> dbl_is_nan i))"

lemma key_stored_self:
  assumes st: "key_stored m key j T f m'" and ok: "map_ok m" "key_ok m key h" "map_owned m T"
    and j: "0 \<le> j" "j < nelem m" and se: "self_equal key" "local_key key"
  shows "entry_matches m' key j" "\<not> entry_free m' j"
    "ty (tag m' (mapIdx m' j)) = vtype key" "fe (tag m' (mapIdx m' j)) = f"
proof -
  note fr = key_stored_frame [OF st ok(1,3) j]
  obtain x where x: "word m' = (word m)(mapIdx m j := x)"
    "vtype key = EMS_TYPE_STRING \<Longrightarrow> heapStr m' x = cstring m (val key)"
    "vtype key \<noteq> EMS_TYPE_STRING \<Longrightarrow> as_int64 (val key) = Some x"
    using st by (auto simp: key_stored_def Let_def)
  have t: "tag m' (mapIdx m' j) = (tag m (mapIdx m j))\<lparr>ty := vtype key, fe := f\<rparr>"
    "word m' (mapIdx m' j) = x"
    using st x(1) unfolding fr(3) by (simp_all add: key_stored_def Let_def)
  then show "ty (tag m' (mapIdx m' j)) = vtype key" "fe (tag m' (mapIdx m' j)) = f" by simp_all
  have kt: "vtype key \<in> {EMS_TYPE_BOOLEAN, EMS_TYPE_INTEGER, EMS_TYPE_FLOAT, EMS_TYPE_STRING}"
    by (rule key_home_type [OF ok(2)])
  then show "\<not> entry_free m' j" using t(1) by (auto simp: entry_free_def)
  have pint: "val key = PInt x" if "vtype key \<noteq> EMS_TYPE_STRING"
    using x(3) [OF that] by (cases "val key") simp_all
  have "dbl_eq x x" if "vtype key = EMS_TYPE_FLOAT"
    using se(1) that pint by (simp add: self_equal_def dbl_eq_def)
  moreover have "\<exists>s. cstring m' (val key) = Some s \<and> heapStr m' x = Some s" if "vtype key = EMS_TYPE_STRING"
    using x(2) that key_ok_val(2) [OF ok(2)] local_key_cstring [OF se(2), of m m'] by auto
  ultimately show "entry_matches m' key j"
    using kt t x(3) by (auto simp: entry_matches_def map_matches_def)
qed

lemma key_stored_ok:
  assumes st: "key_stored m key j T EMS_TAG_FULL m'" and ok: "map_ok m" "key_ok m key h" "map_owned m T"
    and j: "0 \<le> j" "j < nelem m" "entry_free m j" and se: "self_equal key" "local_key key"
  shows "map_ok m'" "map_owned m' (if vtype key = EMS_TYPE_STRING then insert (mapIdx m j) T else T)"
proof -
  note fr = key_stored_frame [OF st ok(1,3) j(1,2)]
  note self = key_stored_self [OF st ok j(1,2) se]
  note other = key_stored_other [OF st ok(1,3) j(1,2)]
  have N: "0 < nelem m" using ok(1) by (simp add: map_ok_def)
  have bool: "word m' (mapIdx m' j) \<in> {0, 1}" if "vtype key = EMS_TYPE_BOOLEAN"
    using st that ok(2) unfolding fr(3) by (auto simp: key_stored_def Let_def key_ok_def)
  have str: "\<exists>s. heapStr m' (word m' (mapIdx m' j)) = Some s" if "vtype key = EMS_TYPE_STRING"
    using st that key_ok_val(2) [OF ok(2)] unfolding fr(3) by (auto simp: key_stored_def Let_def)
  have "fe (tag m' (mapIdx m' i)) = EMS_TAG_FULL \<and>
      (ty (tag m' (mapIdx m' i)) = EMS_TYPE_STRING \<longrightarrow> (\<exists>s. heapStr m' (word m' (mapIdx m' i)) = Some s)) \<and>
      (ty (tag m' (mapIdx m' i)) = EMS_TYPE_BOOLEAN \<longrightarrow> word m' (mapIdx m' i) \<in> {0, 1})"
    if i: "0 \<le> i" "i < nelem m" for i
  proof (cases "i = j")
    case True
    then show ?thesis using self(3,4) bool str by simp
  next
    case False
    have "fe (tag m (mapIdx m i)) = EMS_TAG_FULL"
      "ty (tag m (mapIdx m i)) = EMS_TYPE_STRING \<Longrightarrow> \<exists>s. heapStr m (word m (mapIdx m i)) = Some s"
      "ty (tag m (mapIdx m i)) = EMS_TYPE_BOOLEAN \<Longrightarrow> word m (mapIdx m i) \<in> {0, 1}"
      using ok(1) i by (simp_all add: map_ok_def)
    then show ?thesis using other(1-3) [OF i False] by (simp add: other(1,2) [OF i False])
  qed
  then show "map_ok m'" using ok(1) unfolding map_ok_def fr(1,2) by simp
  have "mapIdx m i \<in> (if vtype key = EMS_TYPE_STRING then insert (mapIdx m j) T else T) \<longleftrightarrow>
      ty (tag m' (mapIdx m' i)) = EMS_TYPE_STRING" if i: "0 \<le> i" "i < nelem m" for i
  proof (cases "i = j")
    case True
    have "mapIdx m j \<notin> T" using ok(3) j by (simp add: map_owned_def entry_free_def)
    then show ?thesis using self(3) True by simp
  next
    case False
    have "mapIdx m i \<noteq> mapIdx m j" using False i j N by simp
    moreover have "mapIdx m i \<in> T \<longleftrightarrow> ty (tag m (mapIdx m i)) = EMS_TYPE_STRING"
      using ok(3) i by (simp add: map_owned_def)
    ultimately show ?thesis using other(1) [OF i False] by simp
  qed
  then show "map_owned m' (if vtype key = EMS_TYPE_STRING then insert (mapIdx m j) T else T)"
    using st unfolding map_owned_def fr(1,3) by (simp add: key_stored_def Let_def)
qed

lemma found_at_stored:
  assumes st: "key_stored m key j T EMS_TAG_FULL m'" and ok: "map_ok m" "key_ok m key h" "map_owned m T"
    and j: "j = entry m h d" "free_at m key h d" and se: "self_equal key" "local_key key"
  shows "found_at m' key h d"
    and "local_key k \<Longrightarrow> found_at m k g e \<Longrightarrow> vtype k \<noteq> EMS_TYPE_UNDEFINED \<Longrightarrow> found_at m' k g e \<and> entry m' g e = entry m g e"
proof -
  have N: "0 < nelem m" using ok(1) by (simp add: map_ok_def)
  have jr: "0 \<le> j" "j < nelem m" "entry_free m j" using j N by (simp_all add: entry_def free_at_def)
  have rng: "0 \<le> entry m x y \<and> entry m x y < nelem m" for x y using N by (simp add: entry_def)
  note fr = key_stored_frame [OF st ok(1,3) jr(1,2)]
  have en: "entry m' x y = entry m x y" for x y by (simp add: entry_def fr(1))
  note other = key_stored_other(4,5) [OF st ok(1,3) jr(1,2)]
  have path: "entry_matches m' k' i = entry_matches m k' i \<and> entry_free m' i = entry_free m i"
    if "local_key k'" "\<not> entry_free m i" "0 \<le> i" "i < nelem m" for k' i
  proof -
    have "i \<noteq> j" using that(2) jr(3) by auto
    then show ?thesis using other(1) [of i k'] other(2) [of i] that by simp
  qed
  show "found_at m' key h d"
    using key_stored_self(1) [OF st ok jr(1,2) se] j path [OF se(2)] rng
    unfolding found_at_def free_at_def en by auto
  assume k: "local_key k" "found_at m k g e" "vtype k \<noteq> EMS_TYPE_UNDEFINED"
  have "\<not> entry_free m (entry m g e)"
  proof
    assume "entry_free m (entry m g e)"
    with k show False
      by (auto simp: found_at_def entry_matches_def map_matches_def entry_free_def split: if_splits)
  qed
  then show "found_at m' k g e \<and> entry m' g e = entry m g e"
    using k(2) path [OF k(1)] rng unfolding found_at_def en by auto
qed

lemma minus_one_smod: "0 < n \<Longrightarrow> (- 1) smod n = (if n = 1 then 0 else - 1 :: int)"
  using smod_minus_one [of n] by (auto simp: signed_modulo_int_def)

lemma free_not_found:
  assumes "free_at m key h d" "found_at m key h e" "key_ok m key g"
  shows False
proof -
  have "\<not> (entry_matches m key i \<and> entry_free m i)" for i
    using key_home_type [OF assms(3)]
    by (auto simp: entry_matches_def map_matches_def entry_free_def split: if_splits)
  moreover have "d < e \<or> d = e \<or> e < d" by linarith
  ultimately show False using assms(1,2) by (auto simp: free_at_def found_at_def)
qed

text \<open>The common start of \<open>EMSwriteIndexMap\<close>: both calls of \<open>EMSkey2index\<close>.\<close>

lemma EMSwriteIndexMap_start:
  assumes q: "quiet w" and ok: "map_ok (mem w)" "key_ok (mem w) key h" and fuel: "0 < fuel"
  obtains w' where "quiet w'" "mem w' = mem w" "libc_malloc w' = libc_malloc w"
    "(\<exists>d < MAX_OPEN_HASH_STEPS. found_at (mem w) key h d \<and> entry (mem w) h d > 0 \<and>
        EMSwriteIndexMap fuel key w = Some (entry (mem w) h d, w')) \<or>
     ((\<forall>d < MAX_OPEN_HASH_STEPS. found_at (mem w) key h d \<longrightarrow> entry (mem w) h d = 0) \<and>
        EMSwriteIndexMap fuel key w =
          writeIndexMap_loop fuel MAX_OPEN_HASH_STEPS key (h mod nelem (mem w)) w')"
proof -
  let ?m = "mem w"
  have n: "0 < nelem ?m" "EMSisMapped ?m" using ok(1) by (simp_all add: map_ok_def)
  have h: "key_home ?m key = Some (Some h)" "0 \<le> h" using ok(2) by (simp_all add: key_ok_def)
  have uniq: "d = e" if "found_at ?m key h d" "found_at ?m key h e" for d e
    using that by (metis found_at_def linorder_neqE_nat)
  have rng: "0 \<le> entry ?m h d" for d using n by (simp add: entry_def)
  from EMSkey2index_mapped [OF q ok fuel] obtain w' where w': "quiet w'" "mem w' = ?m" "libc_malloc w' = libc_malloc w"
    and r: "(\<exists>d < MAX_OPEN_HASH_STEPS. found_at ?m key h d \<and> EMSkey2index fuel key True w = Some (entry ?m h d, w')) \<or>
     (\<forall>d < MAX_OPEN_HASH_STEPS. \<not> found_at ?m key h d) \<and> EMSkey2index fuel key True w = Some ((- 1) smod nelem ?m, w')"
    by blast
  have second: "EMSkey2index fuel key False w' = Some (h mod nelem ?m, w')"
    using h n w' by (simp add: EMSkey2index_def smod_nonneg)
  from r show thesis
  proof (elim disjE exE conjE)
    fix d assume d: "d < MAX_OPEN_HASH_STEPS" "found_at ?m key h d" "EMSkey2index fuel key True w = Some (entry ?m h d, w')"
    show thesis
    proof (cases "entry ?m h d > 0")
      case True
      then have "EMSwriteIndexMap fuel key w = Some (entry ?m h d, w')"
        using d n by (simp add: EMSwriteIndexMap_def)
      with True d w' show thesis by (intro that [of w']) auto
    next
      case False
      then have "EMSwriteIndexMap fuel key w = writeIndexMap_loop fuel MAX_OPEN_HASH_STEPS key (h mod nelem ?m) w'"
        using d n second w' by (simp add: EMSwriteIndexMap_def)
      moreover have "entry ?m h e = 0" if "found_at ?m key h e" for e
        using uniq [OF that d(2)] False rng [of d] by simp
      ultimately show thesis using w' by (intro that [of w']) auto
    qed
  next
    assume a: "\<forall>d < MAX_OPEN_HASH_STEPS. \<not> found_at ?m key h d" "EMSkey2index fuel key True w = Some ((- 1) smod nelem ?m, w')"
    then have "EMSwriteIndexMap fuel key w = writeIndexMap_loop fuel MAX_OPEN_HASH_STEPS key (h mod nelem ?m) w'"
      using n second w' minus_one_smod [OF n(1)] by (simp add: EMSwriteIndexMap_def)
    with a w' show thesis by (intro that [of w']) auto
  qed
qed

lemma EMSwriteIndexMap_existing_spec:
  assumes q: "quiet w" and ok: "map_ok (mem w)" "key_ok (mem w) key h" and fuel: "0 < fuel"
    and d: "d < MAX_OPEN_HASH_STEPS" "found_at (mem w) key h d"
  shows "\<exists>w'. EMSwriteIndexMap fuel key w = Some (entry (mem w) h d, w') \<and> quiet w' \<and> mem w' = mem w \<and>
    libc_malloc w' = libc_malloc w"
proof -
  let ?m = "mem w" let ?i = "h mod nelem ?m"
  have n: "0 < nelem ?m" using ok(1) by (simp add: map_ok_def)
  have uniq: "e = d" if "found_at ?m key h e" for e
    using that d(2) by (metis found_at_def linorder_neqE_nat)
  from EMSwriteIndexMap_start [OF q ok fuel] obtain w' where w': "quiet w'" "mem w' = ?m" "libc_malloc w' = libc_malloc w" and
    r: "(\<exists>d < MAX_OPEN_HASH_STEPS. found_at ?m key h d \<and> entry ?m h d > 0 \<and>
          EMSwriteIndexMap fuel key w = Some (entry ?m h d, w')) \<or>
       ((\<forall>d < MAX_OPEN_HASH_STEPS. found_at ?m key h d \<longrightarrow> entry ?m h d = 0) \<and>
          EMSwriteIndexMap fuel key w = writeIndexMap_loop fuel MAX_OPEN_HASH_STEPS key ?i w')" by blast
  from r show ?thesis
  proof (elim disjE exE conjE)
    fix e assume "found_at ?m key h e" "EMSwriteIndexMap fuel key w = Some (entry ?m h e, w')"
    then show ?thesis using w' uniq by auto
  next
    assume loop: "EMSwriteIndexMap fuel key w = writeIndexMap_loop fuel MAX_OPEN_HASH_STEPS key ?i w'"
    have path: "\<forall>e < d. \<not> entry_matches ?m key (entry ?m ?i e) \<and> \<not> entry_free ?m (entry ?m ?i e)"
      using d(2) by (simp add: found_at_def entry_mod)
    have "0 \<le> ?i" using n by simp
    from writeIndexMap_loop_quiet [of w' key h fuel ?i d, unfolded w'(2), OF w'(1) ok fuel this d(1) path]
    obtain v k where v: "quiet v" "mem v = ?m" "libc_malloc v = libc_malloc w"
      "writeIndexMap_loop fuel MAX_OPEN_HASH_STEPS key ?i w' =
         writeIndexMap_loop fuel (Suc k) key (if d = 0 then ?i else entry ?m ?i d) v"
      using w'(3) by auto
    let ?x = "if d = 0 then ?i else entry ?m ?i d"
    have x: "0 \<le> ?x" "?x mod nelem ?m = entry ?m h d"
      using n by (simp_all add: entry_mod) (simp_all add: entry_def)
    have em: "entry_matches ?m key (entry ?m h d)" using d(2) by (simp add: found_at_def)
    then have "\<not> entry_free ?m (entry ?m h d)"
      using key_home_type [OF ok(2)] by (auto simp: entry_matches_def map_matches_def entry_free_def split: if_splits)
    with writeIndex_step [of v key h ?x fuel k, unfolded v(2), OF v(1) ok x(1) fuel] em
    have "writeIndexMap_loop fuel (Suc k) key ?x v = Some (entry ?m h d, yield v)" by (simp add: x(2))
    then show ?thesis using loop v by simp
  qed
qed

lemma EMSwriteIndexMap_new_spec:
  assumes q: "quiet w" and ok: "map_ok (mem w)" "key_ok (mem w) key h" "map_owned (mem w) T" and fuel: "0 < fuel"
    and d: "d < MAX_OPEN_HASH_STEPS" "free_at (mem w) key h d"
    and n: "request_ok (len key + 1)"
    and len: "\<forall>s. cstring (mem w) (val key) = Some s \<longrightarrow> length s \<le> len key"
  shows "(\<exists>w'. EMSwriteIndexMap fuel key w = Some (- 1, w') \<and> vtype key = EMS_TYPE_STRING \<and>
            emsMem_alloc (malloc (mem w)) (len key + 1) = Some (- 1, malloc (mem w))) \<or>
         (\<exists>w'. EMSwriteIndexMap fuel key w = Some (entry (mem w) h d, w') \<and> quiet w' \<and>
            libc_malloc w' = libc_malloc w \<and> key_stored (mem w) key (entry (mem w) h d) T EMS_TAG_BUSY (mem w'))"
proof -
  let ?m = "mem w" let ?i = "h mod nelem ?m" let ?j = "entry ?m h d"
  have N: "0 < nelem ?m" using ok(1) by (simp add: map_ok_def)
  have nf: "\<not> found_at ?m key h e" for e using free_not_found [OF d(2) _ ok(2)] by blast
  obtain w' where w': "quiet w'" "mem w' = ?m" "libc_malloc w' = libc_malloc w"
    "EMSwriteIndexMap fuel key w = writeIndexMap_loop fuel MAX_OPEN_HASH_STEPS key ?i w'"
    using EMSwriteIndexMap_start [OF q ok(1,2) fuel] nf by metis
  have path: "\<forall>e < d. \<not> entry_matches ?m key (entry ?m ?i e) \<and> \<not> entry_free ?m (entry ?m ?i e)"
    using d(2) by (simp add: free_at_def entry_mod)
  have "0 \<le> ?i" using N by simp
  from writeIndexMap_loop_quiet [of w' key h fuel ?i d, unfolded w'(2), OF w'(1) ok(1,2) fuel this d(1) path]
  obtain v k where v: "quiet v" "mem v = ?m" "libc_malloc v = libc_malloc w"
    "writeIndexMap_loop fuel MAX_OPEN_HASH_STEPS key ?i w' =
       writeIndexMap_loop fuel (Suc k) key (if d = 0 then ?i else entry ?m ?i d) v"
    using w'(3) by auto
  let ?x = "if d = 0 then ?i else entry ?m ?i d"
  have x: "0 \<le> ?x" "?x mod nelem ?m = ?j"
    using N by (simp_all add: entry_mod) (simp_all add: entry_def)
  have j: "0 \<le> ?j" "?j < nelem ?m" "entry_free ?m ?j" using N d(2) by (simp_all add: entry_def free_at_def)
  define u where "u = upd (set_fe (mapIdx ?m ?j) EMS_TAG_BUSY) (yield v)"
  have u: "quiet u" "mem u = set_fe (mapIdx ?m ?j) EMS_TAG_BUSY ?m" "libc_malloc u = libc_malloc w"
    using v by (simp_all add: u_def)
  have eq: "EMSwriteIndexMap fuel key w = do {
       (stored, w) \<leftarrow> map_store_key fuel key ?j u; Some (if stored then ?j else - 1, w) }"
    unfolding w'(4) v(4) writeIndex_step [of v key h ?x fuel k, unfolded v(2) x(2), OF v(1) ok(1,2) x(1) fuel]
      if_P [OF j(3)] u_def ..
  from map_store_quiet [OF u(1,2) ok j fuel n len] show ?thesis
  proof (elim disjE exE conjE)
    fix w2 assume "map_store_key fuel key ?j u = Some (False, w2)" "vtype key = EMS_TYPE_STRING"
      "emsMem_alloc (malloc ?m) (len key + 1) = Some (- 1, malloc ?m)"
    then show ?thesis using eq by simp
  next
    fix w2 assume "map_store_key fuel key ?j u = Some (True, w2)" "quiet w2" "libc_malloc w2 = libc_malloc u"
      "key_stored ?m key ?j T EMS_TAG_BUSY (mem w2)"
    then show ?thesis using eq u(3) by simp
  qed
qed

section \<open>A small mapped array\<close>

text \<open>Blank as \<open>EMSinitialize\<close> leaves it: the map entries are full and undefined.\<close>

definition blank_map :: "int \<Rightarrow> nat \<Rightarrow> ems" where
  "blank_map n level = (let m = set_word EMS_ARR_MAPBOT 1 (blank_ems n level) in
     m\<lparr>tag := (\<lambda>a. if EMS_ARR_CB_SIZE + nat n \<le> a
                    then \<lparr>fe = EMS_TAG_FULL, ty = EMS_TYPE_UNDEFINED, rw = 0\<rparr> else tag m a)\<rparr>)"

lemma blank_map_sel [simp]:
  "0 < n \<Longrightarrow> nelem (blank_map n level) = n"
  "malloc (blank_map n level) = emsMem_new level (\<lambda>_. BUDDY_UNUSED)"
  "EMSisMapped (blank_map n level)"
  "0 \<le> j \<Longrightarrow> 0 < n \<Longrightarrow>
     tag (blank_map n level) (mapIdx (blank_map n level) j) = \<lparr>fe = EMS_TAG_FULL, ty = EMS_TYPE_UNDEFINED, rw = 0\<rparr>"
  by (simp_all add: blank_map_def Let_def blank_ems_def EMSisMapped_def nelem_def mapIdx_def ems_cb_defs)

lemma blank_map_ok: "0 < n \<Longrightarrow> n < 2 ^ 31 \<Longrightarrow> map_ok (blank_map n level)"
  by (simp add: map_ok_def)

lemma blank_map_owned: "0 < n \<Longrightarrow> level < 59 \<Longrightarrow> map_owned (blank_map n level) {}"
  using blank_owned [of level n]
  by (simp add: map_owned_def) (simp add: blank_map_def Let_def owned_def unlocked_def ems_cb_defs string_at_def)

lemma int_key: "0 \<le> i \<Longrightarrow> i < 2 ^ 63 \<Longrightarrow> key_ok m (int_value i) i" "self_equal (int_value i)" "local_key (int_value i)"
  by (simp_all add: key_ok_def key_home_def int_value_def llabs_def self_equal_def local_key_def)

lemma blank_map_free: "0 < n \<Longrightarrow> free_at (blank_map n level) key h 0"
  by (simp add: free_at_def entry_free_def entry_def)

lemma small_map:
  "\<exists>m. map_ok m \<and> nelem m = 4 \<and> found_at m (int_value 5) 5 0 \<and> entry m 5 0 = 1"
proof -
  let ?b = "blank_map 4 2" let ?k = "int_value 5"
  have k: "key_ok ?b ?k 5" "self_equal ?k" "local_key ?k" by (simp_all add: int_key)
  have f: "free_at ?b ?k 5 0" by (rule blank_map_free) simp
  have j: "entry ?b 5 0 = 1" by (simp add: entry_def)
  obtain w' :: world where "key_stored ?b ?k 1 {} EMS_TAG_BUSY (mem w')"
    using EMSwriteIndexMap_new_spec [of "alone ?b" ?k 5 "{}" 1 0] k f j blank_map_ok [of 4 2] blank_map_owned [of 4 2]
    by (auto simp: MAX_OPEN_HASH_STEPS_def int_value_def request_ok_def)
  then have st: "key_stored ?b ?k (entry ?b 5 0) {} EMS_TAG_FULL (set_fe (mapIdx ?b 1) EMS_TAG_FULL (mem w'))"
    (is "key_stored _ _ _ _ _ ?m") unfolding j by (auto simp: key_stored_def Let_def)
  have jr: "0 \<le> entry ?b 5 0" "entry ?b 5 0 < nelem ?b" "entry_free ?b (entry ?b 5 0)"
    using f by (simp_all add: j free_at_def)
  have ok: "map_ok ?b" "map_owned ?b {}" by (simp_all add: blank_map_ok blank_map_owned)
  have n: "nelem ?m = 4" using key_stored_frame(1) [OF st ok jr(1,2)] by simp
  then have "entry ?m 5 0 = 1" by (simp add: entry_def)
  then show ?thesis
    using n key_stored_ok(1) [OF st ok(1) k(1) ok(2) jr k(2,3)]
      found_at_stored(1) [OF st ok(1) k(1) ok(2) refl f k(2,3)] by blast
qed

section \<open>Properties\<close>

text \<open>
  C18: looking up a key in a mapped array while nobody else uses it changes nothing and returns
  the first entry of the key's probe sequence (at most 200 long) that holds it; if none does before
  an unused entry, the result is \<open>-1\<close>, except in an array of one element, where \<open>-1 % 1\<close> is 0.
\<close>

theorem EMSkey2index_lookup:
  assumes "quiet w" "map_ok (mem w)" "key_ok (mem w) key h" "0 < fuel"
  shows "\<exists>idx w'. EMSkey2index fuel key True w = Some (idx, w') \<and> mem w' = mem w \<and>
    ((\<exists>d < MAX_OPEN_HASH_STEPS. found_at (mem w) key h d \<and> idx = entry (mem w) h d) \<or>
     (\<forall>d < MAX_OPEN_HASH_STEPS. \<not> found_at (mem w) key h d) \<and>
        idx = (if nelem (mem w) = 1 then 0 else - 1))"
proof -
  have "0 < nelem (mem w)" using assms(2) by (simp add: map_ok_def)
  from minus_one_smod [OF this] EMSkey2index_mapped [OF assms] show ?thesis by metis
qed

theorem EMSkey2index_lookup_witness:
  "\<exists>m w'. EMSkey2index 1 (int_value 5) True (alone m) = Some (1, w') \<and> mem w' = m"
proof -
  from small_map obtain m where m: "map_ok m" "nelem m = 4" "found_at m (int_value 5) 5 0" "entry m 5 0 = 1" by blast
  have z: "e = 0" if "found_at m (int_value 5) 5 e" for e
    using that m(3) by (cases e) (auto simp: found_at_def)
  obtain idx w' where r: "EMSkey2index 1 (int_value 5) True (alone m) = Some (idx, w')" "mem w' = m"
    "(\<exists>d < MAX_OPEN_HASH_STEPS. found_at m (int_value 5) 5 d \<and> idx = entry m 5 d) \<or>
     (\<forall>d < MAX_OPEN_HASH_STEPS. \<not> found_at m (int_value 5) 5 d)"
    using EMSkey2index_lookup [of "alone m" "int_value 5" 5 1] m(1) by (auto simp: int_key)
  then have "idx = 1" using z m(3,4) by (auto simp: MAX_OPEN_HASH_STEPS_def)
  with r(1,2) show ?thesis by blast
qed

text \<open>
  C11: \<open>EMSwriteIndexMap\<close> gives a new key the first unused entry of its probe sequence, or returns
  \<open>-1\<close> when there is no memory for a string key. Once the writer has set the tag of the entry
  back to full, the map is well formed, the key is found at that entry, and every key found
  before is found where it was.
\<close>

theorem EMSwriteIndexMap_new:
  assumes "quiet w" "map_ok (mem w)" "key_ok (mem w) key h" "map_owned (mem w) T" "0 < fuel"
    and "d < MAX_OPEN_HASH_STEPS" "free_at (mem w) key h d"
    and "request_ok (len key + 1)" "\<forall>s. cstring (mem w) (val key) = Some s \<longrightarrow> length s \<le> len key"
    and "self_equal key" "local_key key"
  shows "(\<exists>w'. EMSwriteIndexMap fuel key w = Some (- 1, w') \<and> vtype key = EMS_TYPE_STRING \<and>
            emsMem_alloc (malloc (mem w)) (len key + 1) = Some (- 1, malloc (mem w))) \<or>
         (\<exists>j w' m T'. EMSwriteIndexMap fuel key w = Some (j, w') \<and> j = entry (mem w) h d \<and>
            m = set_fe (mapIdx (mem w) j) EMS_TAG_FULL (mem w') \<and>
            map_ok m \<and> map_owned m T' \<and> found_at m key h d \<and> entry m h d = j \<and>
            (\<forall>k g e. local_key k \<longrightarrow> vtype k \<noteq> EMS_TYPE_UNDEFINED \<longrightarrow> found_at (mem w) k g e \<longrightarrow>
               found_at m k g e \<and> entry m g e = entry (mem w) g e))"
  using EMSwriteIndexMap_new_spec [OF assms(1-9)]
proof (elim disjE exE conjE)
  fix w' assume w': "EMSwriteIndexMap fuel key w = Some (entry (mem w) h d, w')"
    and st: "key_stored (mem w) key (entry (mem w) h d) T EMS_TAG_BUSY (mem w')"
  let ?j = "entry (mem w) h d"
  let ?m = "set_fe (mapIdx (mem w) ?j) EMS_TAG_FULL (mem w')"
  have st': "key_stored (mem w) key ?j T EMS_TAG_FULL ?m"
    using st by (auto simp: key_stored_def Let_def)
  have j: "0 \<le> ?j" "?j < nelem (mem w)" "entry_free (mem w) ?j"
    using assms(2,7) by (simp_all add: entry_def map_ok_def free_at_def)
  note fnd = found_at_stored [OF st' assms(2-4) refl assms(7,10,11)]
  have "nelem ?m = nelem (mem w)" by (rule key_stored_frame [OF st' assms(2,4) j(1,2)])
  then have "entry ?m h d = ?j" by (simp add: entry_def)
  then show ?thesis
    using w' key_stored_ok [OF st' assms(2-4) j assms(10,11)] fnd by blast
qed blast

theorem EMSwriteIndexMap_new_witness:
  "\<exists>w' m. EMSwriteIndexMap 1 (int_value 5) (alone (blank_map 4 2)) = Some (1, w') \<and>
     map_ok m \<and> found_at m (int_value 5) 5 0"
  using EMSwriteIndexMap_new [of "alone (blank_map 4 2)" "int_value 5" 5 "{}" 1 0]
    blank_map_ok [of 4 2] blank_map_owned [of 4 2] blank_map_free [of 4 2 "int_value 5" 5] int_key [of 5]
  by (auto simp: MAX_OPEN_HASH_STEPS_def int_value_def request_ok_def entry_def)

text \<open>
  C28: the entry at which a key was stored leads back to it: \<open>EMSindex2key\<close> returns a value of the
  key's type with the key's datum. A key that is a double is given back as the double in the entry,
  which is equal to it: the same bits, or zero with the one sign for zero with the other.
\<close>

theorem EMSindex2key_roundtrip:
  assumes "map_ok m" "key_ok m key h" "found_at m key h d"
  shows "\<exists>k. EMSindex2key (entry m h d) ret m = (True, k) \<and> vtype k = vtype key \<and>
    (if vtype key = EMS_TYPE_FLOAT
     then \<exists>x y. val k = PInt x \<and> as_int64 (val key) = Some y \<and>
       (x mod 2 ^ 64 = y mod 2 ^ 64 \<or> dbl_is_zero x \<and> dbl_is_zero y) \<and> \<not> dbl_is_nan x \<and> \<not> dbl_is_nan y
     else value_datum m k = value_datum m key)"
proof -
  let ?j = "entry m h d"
  have n: "0 < nelem m" "EMSisMapped m" using assms(1) by (simp_all add: map_ok_def)
  then have j: "0 \<le> ?j" "?j < nelem m" by (simp_all add: entry_def)
  have kt: "vtype key \<in> {EMS_TYPE_BOOLEAN, EMS_TYPE_INTEGER, EMS_TYPE_FLOAT, EMS_TYPE_STRING}"
    using key_home_type [OF assms(2)] by auto
  have mt: "map_matches m (tag m (mapIdx m ?j)) key ?j = Some True"
    using assms(3) by (simp add: found_at_def entry_matches_def)
  then have t: "ty (tag m (mapIdx m ?j)) = vtype key"
    by (simp add: map_matches_def split: if_splits)
  from mt t kt show ?thesis
    using n j by (auto simp: EMSindex2key_def Let_def map_matches_def value_datum_def dbl_eq_def split: Option.bind_splits)
qed

theorem EMSindex2key_roundtrip_witness:
  "\<exists>m k. EMSindex2key 1 (int_value 0) m = (True, k) \<and> value_datum m k = Some (DInt 5)"
proof -
  from small_map obtain m where m: "map_ok m" "nelem m = 4" "found_at m (int_value 5) 5 0" "entry m 5 0 = 1" by blast
  then show ?thesis
    using EMSindex2key_roundtrip [of m "int_value 5" 5 0 "int_value 0"] int_key(1) [of 5 m]
    by (auto simp: int_value_def value_datum_def)
qed

end
