(* ===== verification/EmsAccessFacts.thy ===== *)
theory EmsAccessFacts
  imports EmsAccess EmsMapFacts
begin

text \<open>
  What reads and writes do to an element while nobody else uses the array.
\<close>

section \<open>An element overwritten\<close>

definition maptag_full :: "int \<Rightarrow> ems \<Rightarrow> ems" where
  "maptag_full idx m = (if EMSisMapped m then set_fe (mapIdx m idx) EMS_TAG_FULL m else m)"

lemma maptag_full_sel [simp]:
  "word (maptag_full i m) = word m" "malloc (maptag_full i m) = malloc m" "heap (maptag_full i m) = heap m"
  "nelem (maptag_full i m) = nelem m" "heapStr (maptag_full i m) x = heapStr m x"
  "owned (maptag_full i m) T = owned m T" "datum_at (maptag_full i m) t x = datum_at m t x"
  "EMSisMapped (maptag_full i m) = EMSisMapped m" "ty (tag (maptag_full i m) a) = ty (tag m a)"
  by (simp_all add: maptag_full_def)

lemma data_not_map: "0 \<le> i \<Longrightarrow> i < nelem m \<Longrightarrow> 0 \<le> j \<Longrightarrow> dataIdx i \<noteq> mapIdx m j"
  by (simp add: dataIdx_def mapIdx_def)

lemma maptag_full_data [simp]:
  "0 \<le> i \<Longrightarrow> i < nelem m \<Longrightarrow> 0 \<le> j \<Longrightarrow> tag (maptag_full j m) (dataIdx i) = tag m (dataIdx i)"
  using data_not_map [of i m j] by (simp add: maptag_full_def)

lemma maptag_upd:
  "(if EMSisMapped (mem w) then upd (\<lambda>m. set_fe (mapIdx m idx) EMS_TAG_FULL m) w else w) =
     upd (maptag_full idx) w"
  by (simp add: maptag_full_def upd_def)

text \<open>
  \<open>elem_written m a v d t T m'\<close>: \<open>m'\<close> is \<open>m\<close> with the datum \<open>d\<close> of \<open>v\<close> at \<open>a\<close>, under the
  tag \<open>t\<close>; the strings of the other owners in \<open>T\<close> are kept, the old string at \<open>a\<close> is freed.
\<close>

definition elem_written :: "ems \<Rightarrow> nat \<Rightarrow> EMSvalueType \<Rightarrow> datum \<Rightarrow> EMStag_t \<Rightarrow> nat set \<Rightarrow> ems \<Rightarrow> bool" where
  "elem_written m a v d t T m' \<longleftrightarrow>
     tag m' = (tag m)(a := t) \<and> (\<exists>x. word m' = (word m)(a := x) \<and> datum_at m' (vtype v) x = Some d) \<and>
     owned m' (if is_text (vtype v) then insert a T else T - {a}) \<and>
     (\<forall>b \<in> T - {a}. heapStr m' (word m b) = heapStr m (word m b))"

text \<open>A value whose datum is \<open>d\<close> and whose length field covers its text.\<close>

definition value_ok :: "EMSvalueType \<Rightarrow> datum \<Rightarrow> bool" where
  "value_ok v d \<longleftrightarrow> local_key v \<and> (\<forall>m. value_datum m v = Some d) \<and> datum_bytes d \<le> len v + 1 \<and>
     request_ok (len v + 1)"

text \<open>
  Any routine that stores a value as the writers do: a text in a new block, anything else as the
  word itself.
\<close>

definition stores_value :: "(world \<Rightarrow> (bool \<times> world) option) \<Rightarrow> nat \<Rightarrow> nat \<Rightarrow> EMSvalueType \<Rightarrow> bool" where
  "stores_value f fuel a v \<longleftrightarrow>
     (is_text (vtype v) \<longrightarrow> (\<forall>w. f w = store_text fuel a (len v + 1) (val v) w)) \<and>
     (\<not> is_text (vtype v) \<longrightarrow> (\<forall>d m0. value_datum m0 v = Some d \<longrightarrow>
        (\<exists>x. (\<forall>w. f w = Some (True, upd (set_word a x) w)) \<and> (\<forall>m. datum_at m (vtype v) x = Some d))))"

lemma store_quiet:
  assumes f: "stores_value f fuel a v"
    and own: "owned (mem w) T" and a: "a \<notin> T" "a \<noteq> EMS_ARR_MEM_MUTEX" and fuel: "0 < fuel"
    and v: "value_ok v d"
  shows "(f w = Some (False, w) \<and> is_text (vtype v) \<and>
            emsMem_alloc (malloc (mem w)) (len v + 1) = Some (- 1, malloc (mem w))) \<or>
         (\<exists>m'. f w = Some (True, upd (\<lambda>_. m') w) \<and>
            tag m' = tag (mem w) \<and> (\<exists>x. word m' = (word (mem w))(a := x) \<and> datum_at m' (vtype v) x = Some d) \<and>
            owned m' (if is_text (vtype v) then insert a T else T) \<and>
            (\<forall>b \<in> T. heapStr m' (word (mem w) b) = heapStr (mem w) (word (mem w) b)))"
proof (cases "is_text (vtype v)")
  case True
  have vd: "value_datum (mem w) v = Some d" using v by (simp add: value_ok_def)
  then obtain s where s: "cstring (mem w) (val v) = Some s" "datum_bytes d = length s + 1"
    "\<And>m x. heapStr m x = Some s \<Longrightarrow> datum_at m (vtype v) x = Some d"
    using True by (auto simp: is_text_def value_datum_def)
  have st: "f w = store_text fuel a (len v + 1) (val v) w"
    using True f by (simp add: stores_value_def)
  have len: "request_ok (len v + 1)" "length s < len v + 1" using v s(2) by (simp_all add: value_ok_def)
  from own a fuel len(1) s(1) len(2) show ?thesis
  proof (cases rule: store_text_quiet)
    case 1 then show ?thesis using st True by simp
  next
    case (2 m')
    then show ?thesis using st True s(3)
      by (intro disjI2 exI [of _ m'] conjI exI [of _ "word m' a"]) simp_all
  qed
next
  case False
  have "value_datum (mem w) v = Some d" using v by (simp add: value_ok_def)
  then obtain x where x: "\<forall>w. f w = Some (True, upd (set_word a x) w)" "\<forall>m. datum_at m (vtype v) x = Some d"
    using False f unfolding stores_value_def by blast
  have "upd (set_word a x) w = upd (\<lambda>_. set_word a x (mem w)) w" by (simp add: upd_def)
  then show ?thesis
    using False own a x by (intro disjI2 exI [of _ "set_word a x (mem w)"]) (auto simp: owned_set_word)
qed

lemma scalar_value:
  assumes "\<not> is_text (vtype v)" "value_datum m v = Some d"
  obtains i where "vtype v \<in> {EMS_TYPE_BOOLEAN, EMS_TYPE_INTEGER, EMS_TYPE_FLOAT}" "vtype v \<noteq> EMS_TYPE_UNDEFINED"
      "as_int64 (val v) = Some i" "\<And>m. datum_at m (vtype v) i = Some d"
    | "vtype v = EMS_TYPE_UNDEFINED" "d = DUndef"
  using assms by (auto simp: value_datum_def is_text_def split: ems_type.splits)

lemma write_store_stores: "stores_value (write_store fuel a v) fuel a v"
  unfolding stores_value_def
proof (intro conjI impI allI)
  fix d m0 assume "\<not> is_text (vtype v)" "value_datum m0 v = Some d"
  then show "\<exists>x. (\<forall>w. write_store fuel a v w = Some (True, upd (set_word a x) w)) \<and> (\<forall>m. datum_at m (vtype v) x = Some d)"
    by (cases rule: scalar_value) (auto simp: write_store_def)
qed (auto simp: write_store_def is_text_def)

lemmas write_store_quiet = store_quiet [OF write_store_stores]

text \<open>Releasing the old string of an element that is about to be overwritten.\<close>

lemma free_old_quiet:
  assumes q: "quiet w" and own: "owned (mem w) T" and fuel: "0 < fuel" and T: "a \<in> T \<longleftrightarrow> is_text t"
  obtains w1 where "(if t = EMS_TYPE_STRING \<or> t = EMS_TYPE_JSON
        then emsMutexMem_free fuel (word (mem w) a) w else Some w) = Some w1" "quiet w1" "libc_malloc w1 = libc_malloc w"
      "tag (mem w1) = tag (mem w)" "word (mem w1) = word (mem w)" "owned (mem w1) (T - {a})"
      "\<And>b. b \<in> T - {a} \<Longrightarrow> heapStr (mem w1) (word (mem w) b) = heapStr (mem w) (word (mem w) b)"
proof (cases "is_text t")
  case True
  let ?m = "mem w"
  from True have "a \<in> T" using T by simp
  from free_text_quiet [OF own this fuel] obtain malloc' where
    "emsMutexMem_free fuel (word ?m a) w = Some (upd (malloc_update (\<lambda>_. malloc')) w)"
    "owned (malloc_update (\<lambda>_. malloc') ?m) (T - {a})"
    "\<And>b. b \<in> T - {a} \<Longrightarrow> heapStr (malloc_update (\<lambda>_. malloc') ?m) (word ?m b) = heapStr ?m (word ?m b)"
    by auto
  then show thesis using True q
    by (intro that [of "upd (malloc_update (\<lambda>_. malloc')) w"]) (auto simp: is_text_def)
next
  case False
  then have "T - {a} = T" using T by auto
  with False own q show thesis by (intro that [of w]) (auto simp: is_text_def)
qed

text \<open>The body of a write once the element is locked (or not locked, for a plain write).\<close>

lemma write_body_quiet:
  assumes q: "quiet w" and own: "owned (mem w) T" and fuel: "0 < fuel" and v: "value_ok v d"
    and idx: "0 \<le> idx" "idx < nelem (mem w)" and a: "a = dataIdx idx"
    and T: "a \<in> T \<longleftrightarrow> is_text (ty (tag (mem w) a))"
    and tags: "ty oldTag = ty (tag (mem w) a)" "newTag = tag (mem w) a"
  shows "(\<exists>w'. write_body fuel idx v finalFE oldTag newTag w = Some (False, w') \<and> is_text (vtype v)) \<or>
    (\<exists>w' m'. write_body fuel idx v finalFE oldTag newTag w = Some (True, w') \<and> quiet w' \<and>
       mem w' = maptag_full idx m' \<and> libc_malloc w' = libc_malloc w \<and>
       elem_written (mem w) a v d
         ((if finalFE \<noteq> EMS_TAG_ANY then newTag\<lparr>fe := fe_field finalFE, rw := 0\<rparr> else newTag)\<lparr>ty := vtype v\<rparr>) T m')"
proof -
  let ?m = "mem w"
  have amx: "a \<noteq> EMS_ARR_MEM_MUTEX" using a idx by simp
  have "a \<in> T \<longleftrightarrow> is_text (ty oldTag)" using T tags(1) by simp
  from free_old_quiet [OF q own fuel this] obtain w1 where w1: "(if ty oldTag = EMS_TYPE_STRING \<or> ty oldTag = EMS_TYPE_JSON
        then emsMutexMem_free fuel (word ?m a) w else Some w) = Some w1" "quiet w1" "libc_malloc w1 = libc_malloc w"
      "tag (mem w1) = tag ?m" "word (mem w1) = word ?m" "owned (mem w1) (T - {a})"
      "\<And>b. b \<in> T - {a} \<Longrightarrow> heapStr (mem w1) (word ?m b) = heapStr ?m (word ?m b)"
    by blast
  let ?t = "(if finalFE \<noteq> EMS_TAG_ANY then newTag\<lparr>fe := fe_field finalFE, rw := 0\<rparr> else newTag)\<lparr>ty := vtype v\<rparr>"
  have body: "write_body fuel idx v finalFE oldTag newTag w = do {
       (stored, w) \<leftarrow> write_store fuel a v w1;
       if \<not> stored then Some (False, w)
       else if finalFE \<noteq> EMS_TAG_ANY \<and> tag (mem w) a \<noteq> newTag then Some (False, w)
       else Some (True, upd (maptag_full idx) (upd (set_tag a ?t) w)) }"
    unfolding write_body_def a [symmetric] Let_def w1(1) Option.bind.simps maptag_upd ..
  have "a \<notin> T - {a}" by simp
  from write_store_quiet [OF w1(6) this amx fuel v] show ?thesis
  proof (elim disjE exE conjE)
    assume "write_store fuel a v w1 = Some (False, w1)" "is_text (vtype v)"
    then show ?thesis using body by simp
  next
    fix m' x assume st: "write_store fuel a v w1 = Some (True, upd (\<lambda>_. m') w1)" "tag m' = tag (mem w1)"
      "word m' = (word (mem w1))(a := x)" "datum_at m' (vtype v) x = Some d"
      "owned m' (if is_text (vtype v) then insert a (T - {a}) else T - {a})"
      "\<forall>b \<in> T - {a}. heapStr m' (word (mem w1) b) = heapStr (mem w1) (word (mem w1) b)"
    have "elem_written ?m a v d ?t T (set_tag a ?t m')"
      using st w1 unfolding elem_written_def by (intro conjI exI [of _ x]) (auto split: if_splits)
    then show ?thesis
      using body st w1 tags(2)
      by (intro disjI2 exI [of _ "upd (maptag_full idx) (upd (set_tag a ?t) (upd (\<lambda>_. m') w1))"]
          exI [of _ "set_tag a ?t m'"]) simp
  qed
qed

lemma elem_written_locked [simp]:
  "elem_written (set_fe a f m) a v d t T m' = elem_written m a v d t T m'"
  by (simp add: elem_written_def)

text \<open>When a write can go ahead at once, and the tag it leaves.\<close>

definition can_write :: "fe_arg \<Rightarrow> fe_arg \<Rightarrow> EMStag_t \<Rightarrow> bool" where
  "can_write initialFE finalFE t \<longleftrightarrow>
     (case finalFE of
        EMS_TAG_ANY \<Rightarrow> initialFE = EMS_TAG_ANY
      | FE g \<Rightarrow> (case initialFE of EMS_TAG_ANY \<Rightarrow> fe t \<noteq> EMS_TAG_BUSY | FE f \<Rightarrow> fe t = f))"

definition written_tag :: "fe_arg \<Rightarrow> EMSvalueType \<Rightarrow> EMStag_t \<Rightarrow> EMStag_t" where
  "written_tag finalFE v t =
     (case finalFE of EMS_TAG_ANY \<Rightarrow> t\<lparr>ty := vtype v\<rparr>
                    | FE g \<Rightarrow> t\<lparr>fe := g, rw := 0, ty := vtype v\<rparr>)"

lemma write_at_quiet:
  assumes q: "quiet w" and own: "owned (mem w) T" and fuel: "0 < fuel" and v: "value_ok v d"
    and idx: "0 \<le> idx" "idx < nelem (mem w)" and a: "a = dataIdx idx"
    and T: "a \<in> T \<longleftrightarrow> is_text (ty (tag (mem w) a))" and can: "can_write initialFE finalFE (tag (mem w) a)"
  shows "(\<exists>w'. write_at fuel idx v initialFE finalFE w = Some (False, w') \<and> is_text (vtype v)) \<or>
    (\<exists>w' m'. write_at fuel idx v initialFE finalFE w = Some (True, w') \<and> quiet w' \<and>
       mem w' = maptag_full idx m' \<and> libc_malloc w' = libc_malloc w \<and>
       elem_written (mem w) a v d (written_tag finalFE v (tag (mem w) a)) T m')"
proof -
  let ?m = "mem w" let ?t = "tag ?m a"
  obtain k where k: "fuel = Suc k" using fuel by (cases fuel) auto
  have i: "idx smod nelem ?m = idx" using idx by (simp add: smod_nonneg)
  have fin: "(if finalFE \<noteq> EMS_TAG_ANY then (?t\<lparr>fe := EMS_TAG_BUSY\<rparr>)\<lparr>fe := fe_field finalFE, rw := 0\<rparr> else ?t)\<lparr>ty := vtype v\<rparr>
      = written_tag finalFE v ?t"
    by (cases finalFE) (simp_all add: written_tag_def)
  show ?thesis
  proof (cases finalFE)
    case EMS_TAG_ANY
    then have ini: "initialFE = EMS_TAG_ANY" using can by (simp add: can_write_def)
    have "write_at fuel idx v initialFE finalFE w = write_body fuel idx v finalFE ?t ?t w"
      using EMS_TAG_ANY ini k i a by (simp add: write_at_def Let_def)
    with write_body_quiet [OF q own fuel v idx a T, of ?t ?t finalFE] EMS_TAG_ANY show ?thesis
      by (simp add: written_tag_def)
  next
    case (FE g)
    define w1 where "w1 = upd (set_fe a EMS_TAG_BUSY) (yield w)"
    have w1: "quiet w1" "mem w1 = set_fe a EMS_TAG_BUSY ?m" "libc_malloc w1 = libc_malloc w"
      using q by (simp_all add: w1_def)
    have at: "write_at fuel idx v initialFE finalFE w =
        write_body fuel idx v finalFE (if initialFE = EMS_TAG_ANY then ?t else ?t\<lparr>fe := EMS_TAG_BUSY\<rparr>)
          (?t\<lparr>fe := EMS_TAG_BUSY\<rparr>) w1"
    proof (cases initialFE)
      case EMS_TAG_ANY
      have "upd (set_tag a (?t\<lparr>fe := EMS_TAG_BUSY\<rparr>)) (yield w) = w1"
        using q by (simp add: w1_def upd_def set_fe_def)
      then show ?thesis
        using EMS_TAG_ANY FE can k i a q by (simp add: write_at_def Let_def can_write_def)
    next
      case (FE f)
      then have f: "fe ?t = f" using can \<open>finalFE = FE g\<close> by (simp add: can_write_def)
      have "EMStransitionFEtag fuel a mt f EMS_TAG_BUSY EMS_TAG_ANY_code w = Some (?t\<lparr>fe := EMS_TAG_BUSY\<rparr>, w1)" for mt
        unfolding w1_def using q f fuel by (rule transition_quiet)
      moreover have "idx smod nelem (mem w1) = idx" using i w1(2) by simp
      ultimately show ?thesis
        using FE \<open>finalFE = FE g\<close> k a w1 by (simp add: write_at_def Let_def)
    qed
    have b: "(\<exists>w'. write_body fuel idx v finalFE oldTag (?t\<lparr>fe := EMS_TAG_BUSY\<rparr>) w1 = Some (False, w') \<and> is_text (vtype v)) \<or>
      (\<exists>w' m'. write_body fuel idx v finalFE oldTag (?t\<lparr>fe := EMS_TAG_BUSY\<rparr>) w1 = Some (True, w') \<and> quiet w' \<and>
       mem w' = maptag_full idx m' \<and> libc_malloc w' = libc_malloc w \<and>
       elem_written ?m a v d (written_tag finalFE v ?t) T m')"
      if "ty oldTag = ty ?t" for oldTag
    proof -
      have "owned (mem w1) T" "idx < nelem (mem w1)" "a \<in> T \<longleftrightarrow> is_text (ty (tag (mem w1) a))"
        "ty oldTag = ty (tag (mem w1) a)" "?t\<lparr>fe := EMS_TAG_BUSY\<rparr> = tag (mem w1) a"
        using own idx T that w1(2) by simp_all
      from write_body_quiet [OF w1(1) this(1) fuel v idx(1) this(2) a this(3-5), of finalFE]
      show ?thesis using FE w1 by (simp add: written_tag_def)
    qed
    show ?thesis
      using b [of "if initialFE = EMS_TAG_ANY then ?t else ?t\<lparr>fe := EMS_TAG_BUSY\<rparr>"] unfolding at by simp
  qed
qed

section \<open>An array of elements\<close>

text \<open>
  \<open>array_rep m st\<close>: the unmapped array \<open>m\<close> holds at each index the state and the datum that
  \<open>st\<close> gives, and nobody is using it.
\<close>

definition data_slots :: "ems \<Rightarrow> nat set" where
  "data_slots m = dataIdx ` {0..<nelem m}"

definition array_rep :: "ems \<Rightarrow> (int \<Rightarrow> fe_state \<times> datum) \<Rightarrow> bool" where
  "array_rep m st \<longleftrightarrow> \<not> EMSisMapped m \<and> 0 < nelem m \<and> owned m (texts m (data_slots m)) \<and>
     (\<forall>i. 0 \<le> i \<longrightarrow> i < nelem m \<longrightarrow>
        fe (tag m (dataIdx i)) = fst (st i) \<and> slot_datum m (dataIdx i) = Some (snd (st i)))"

lemma array_rep_written:
  assumes rep: "array_rep m st" and i: "0 \<le> i" "i < nelem m" and t: "ty t = vtype v"
    and w: "elem_written m (dataIdx i) v d t (texts m (data_slots m)) m'"
  shows "array_rep m' (st(i := (fe t, d)))" "nelem m' = nelem m"
proof -
  let ?a = "dataIdx i" let ?T = "texts m (data_slots m)"
  obtain x where x: "tag m' = (tag m)(?a := t)" "word m' = (word m)(?a := x)" "datum_at m' (vtype v) x = Some d"
    "owned m' (if is_text (vtype v) then insert ?a ?T else ?T - {?a})"
    "\<forall>b \<in> ?T - {?a}. heapStr m' (word m b) = heapStr m (word m b)"
    using w by (auto simp: elem_written_def)
  have mapped: "EMSisMapped m' = EMSisMapped m" using x(2) i by (simp add: EMSisMapped_def)
  show n: "nelem m' = nelem m" using x(2) i by (simp add: nelem_def)
  have "?a \<in> data_slots m" using i by (simp add: data_slots_def)
  then have tx: "texts m' (data_slots m') = (if is_text (vtype v) then insert ?a ?T else ?T - {?a})"
    unfolding data_slots_def n using x(1) t by (auto simp: texts_def)
  have "fe (tag m' (dataIdx j)) = fst ((st(i := (fe t, d))) j) \<and>
      slot_datum m' (dataIdx j) = Some (snd ((st(i := (fe t, d))) j))" if j: "0 \<le> j" "j < nelem m" for j
  proof (cases "j = i")
    case True
    then show ?thesis using x(1-3) t by (simp add: slot_datum_def)
  next
    case False
    then have ne: "dataIdx j \<noteq> ?a" using i j by simp
    have "datum_at m' (ty (tag m (dataIdx j))) (word m (dataIdx j)) = datum_at m (ty (tag m (dataIdx j))) (word m (dataIdx j))"
    proof (rule datum_at_cong)
      assume "is_text (ty (tag m (dataIdx j)))"
      then have "dataIdx j \<in> ?T - {?a}" using j ne by (auto simp: texts_def data_slots_def)
      then show "heapStr m' (word m (dataIdx j)) = heapStr m (word m (dataIdx j))" using x(5) by blast
    qed
    then show ?thesis using rep j False ne x(1,2) by (simp add: array_rep_def slot_datum_def)
  qed
  then show "array_rep m' (st(i := (fe t, d)))"
    using rep x(4) unfolding array_rep_def n mapped tx by simp
qed

text \<open>In an unmapped array a key is reduced modulo the number of elements.\<close>

lemma unmapped_index:
  assumes "\<not> EMSisMapped (mem w)" "0 < nelem (mem w)" "key_ok (mem w) key h"
  shows "EMSkey2index fuel key False w = Some (h mod nelem (mem w), w)"
    "EMSwriteIndexMap fuel key w = Some (h mod nelem (mem w), w)"
proof -
  have h: "key_home (mem w) key = Some (Some h)" "0 \<le> h" using assms(3) by (simp_all add: key_ok_def)
  show k: "EMSkey2index fuel key False w = Some (h mod nelem (mem w), w)"
    using h assms(2) by (simp add: EMSkey2index_def smod_nonneg)
  have "0 \<le> h mod nelem (mem w)" "h mod nelem (mem w) < nelem (mem w)" using assms(2) by simp_all
  then show "EMSwriteIndexMap fuel key w = Some (h mod nelem (mem w), w)"
    using k assms(1) by (simp add: EMSwriteIndexMap_def)
qed

lemma EMSwriteUsingTags_spec:
  assumes q: "quiet w" and rep: "array_rep (mem w) st" and fuel: "0 < fuel"
    and key: "key_ok (mem w) key h" "i = h mod nelem (mem w)" and v: "value_ok v d"
    and can: "can_write initialFE finalFE (tag (mem w) (dataIdx i))"
  shows "(\<exists>w'. EMSwriteUsingTags fuel key v initialFE finalFE w = Some (False, w') \<and> is_text (vtype v)) \<or>
    (\<exists>w'. EMSwriteUsingTags fuel key v initialFE finalFE w = Some (True, w') \<and> quiet w' \<and>
       nelem (mem w') = nelem (mem w) \<and> libc_malloc w' = libc_malloc w \<and>
       array_rep (mem w') (st(i := (case finalFE of EMS_TAG_ANY \<Rightarrow> fst (st i) | FE g \<Rightarrow> g, d))))"
proof -
  let ?m = "mem w" let ?T = "texts ?m (data_slots ?m)" let ?t = "written_tag finalFE v (tag ?m (dataIdx i))"
  have n: "\<not> EMSisMapped ?m" "0 < nelem ?m" and own: "owned ?m ?T" using rep by (simp_all add: array_rep_def)
  have i: "0 \<le> i" "i < nelem ?m" using key(2) n(2) by simp_all
  have T: "dataIdx i \<in> ?T \<longleftrightarrow> is_text (ty (tag ?m (dataIdx i)))"
    using i by (auto simp: texts_def data_slots_def)
  have eq: "EMSwriteUsingTags fuel key v initialFE finalFE w = write_at fuel i v initialFE finalFE w"
    using unmapped_index(2) [OF n key(1)] i(1) key(2) by (simp add: EMSwriteUsingTags_def)
  have t: "ty ?t = vtype v" "fe ?t = (case finalFE of EMS_TAG_ANY \<Rightarrow> fst (st i) | FE g \<Rightarrow> g)"
    using rep i by (auto simp: written_tag_def array_rep_def split: fe_arg.splits)
  from write_at_quiet [OF q own fuel v i refl T can] show ?thesis
  proof (elim disjE exE conjE)
    fix w' m' assume w': "write_at fuel i v initialFE finalFE w = Some (True, w')" "quiet w'"
      "mem w' = maptag_full i m'" "libc_malloc w' = libc_malloc w" and ew: "elem_written ?m (dataIdx i) v d ?t ?T m'"
    note ar = array_rep_written [OF rep i t(1) ew]
    have "\<not> EMSisMapped m'" using ar(1) by (simp add: array_rep_def)
    then have "mem w' = m'" using w'(3) by (simp add: maptag_full_def)
    then show ?thesis using eq w' ar t(2) by auto
  qed (use eq in auto)
qed

section \<open>Reading an element\<close>

text \<open>A boolean is returned as 0 or 1.\<close>

fun norm_datum :: "datum \<Rightarrow> datum" where
  "norm_datum (DBool x) = DBool (if x \<noteq> 0 then 1 else 0)"
| "norm_datum d = d"

lemma heapStr_no_NUL: "heapStr m x = Some s \<Longrightarrow> NUL \<notin> set s"
  using cstring_no_NUL [of m "PHeap x"] by simp

lemma maptag_upd_unmapped [simp]: "\<not> EMSisMapped (mem w) \<Longrightarrow> upd (maptag_full i) w = w"
  by (simp add: maptag_full_def upd_def)

text \<open>The end of a read: the datum is returned, only tags may change.\<close>

lemma read_finish_maps:
  assumes "datum_at (mem w) (ty t) (word (mem w) (dataIdx i)) = Some d"
  shows "\<exists>v. read_finish i finalFE ret t w = Some (True, v, upd (maptag_full i)
        (case finalFE of EMS_TAG_ANY \<Rightarrow> w | FE g \<Rightarrow> upd (set_tag (dataIdx i) (t\<lparr>fe := g\<rparr>)) w)) \<and>
    (\<forall>m. heap m = heap (mem w) \<longrightarrow> malloc m = malloc (mem w) \<longrightarrow> value_datum m v = Some (norm_datum d))"
proof -
  let ?w' = "upd (maptag_full i) (case finalFE of EMS_TAG_ANY \<Rightarrow> w | FE g \<Rightarrow> upd (set_tag (dataIdx i) (t\<lparr>fe := g\<rparr>)) w)"
  have st: "read_set_tags i finalFE (t\<lparr>fe := fe_field finalFE\<rparr>) w = ?w'"
    unfolding read_set_tags_def Let_def maptag_upd by (cases finalFE) simp_all
  have hs: "heapStr m x = heapStr (mem w) x" if "heap m = heap (mem w)" "malloc m = malloc (mem w)" for m x
    using that by (intro heapStr_cong) simp_all
  show ?thesis
  proof (cases "is_text (ty t)")
    case True
    let ?x = "word (mem w) (dataIdx i)"
    obtain s where s: "heapStr (mem w) ?x = Some s"
      using True assms by (auto simp: is_text_def)
    let ?v = "ret\<lparr>vtype := ty t, val := PHeap ?x, len := length s\<rparr>"
    have "read_finish i finalFE ret t w = Some (True, ?v, ?w')"
      using True s st by (auto simp: read_finish_def Let_def is_text_def)
    moreover have "value_datum m ?v = Some (norm_datum d)" if "heap m = heap (mem w)" "malloc m = malloc (mem w)" for m
      using True s hs [OF that] assms by (auto simp: is_text_def value_datum_def)
    ultimately show ?thesis by blast
  next
    case False
    let ?x = "word (mem w) (dataIdx i)"
    let ?y = "if ty t = EMS_TYPE_UNDEFINED then 0xcafebeef else if ty t = EMS_TYPE_BOOLEAN then (if ?x \<noteq> 0 then 1 else 0) else ?x"
    let ?v = "ret\<lparr>vtype := ty t, val := PInt ?y\<rparr>"
    have "read_finish i finalFE ret t w = Some (True, ?v, ?w')"
      using False assms st by (cases "ty t") (simp_all add: read_finish_def Let_def is_text_def)
    moreover have "value_datum m ?v = Some (norm_datum d)" for m
      using False assms by (cases "ty t") (auto simp: is_text_def value_datum_def)
    ultimately show ?thesis by blast
  qed
qed

text \<open>In an unmapped array there is no other tag.\<close>

lemma read_finish_datum:
  assumes "\<not> EMSisMapped (mem w)" "datum_at (mem w) (ty t) (word (mem w) (dataIdx i)) = Some d"
  shows "\<exists>v. read_finish i finalFE ret t w =
      Some (True, v, case finalFE of EMS_TAG_ANY \<Rightarrow> w | FE g \<Rightarrow> upd (set_tag (dataIdx i) (t\<lparr>fe := g\<rparr>)) w) \<and>
    (\<forall>m. heap m = heap (mem w) \<longrightarrow> malloc m = malloc (mem w) \<longrightarrow> value_datum m v = Some (norm_datum d))"
proof -
  have "upd (maptag_full i) (case finalFE of EMS_TAG_ANY \<Rightarrow> w | FE g \<Rightarrow> upd (set_tag (dataIdx i) (t\<lparr>fe := g\<rparr>)) w) =
      (case finalFE of EMS_TAG_ANY \<Rightarrow> w | FE g \<Rightarrow> upd (set_tag (dataIdx i) (t\<lparr>fe := g\<rparr>)) w)"
    using assms(1) by (intro maptag_upd_unmapped) (cases finalFE; simp)
  with read_finish_maps [OF assms(2), of finalFE ret] show ?thesis by simp
qed

lemma EMSread_index:
  assumes "\<not> EMSisMapped (mem w)" "0 < nelem (mem w)" "key_ok (mem w) key h" "i = h mod nelem (mem w)"
  shows "EMSreadUsingTags fuel nt key ret ini fin w =
    read_loop fuel i ini fin (ret\<lparr>vtype := EMS_TYPE_UNDEFINED, val := PInt 0xdeafbeef\<rparr>) nt w"
proof -
  have "0 \<le> i" "i < nelem (mem w)" using assms(2,4) by simp_all
  then show ?thesis
    using assms(1) unmapped_index(1) [OF assms(1-3), of fuel, folded assms(4)]
    by (simp add: EMSreadUsingTags_def Let_def)
qed

lemma array_rep_set_fe:
  assumes rep: "array_rep m st" and i: "0 \<le> i" "i < nelem m"
    and t: "fe t = g" "ty t = ty (tag m (dataIdx i))"
  shows "array_rep (set_tag (dataIdx i) t m) (st(i := (g, snd (st i))))"
proof -
  have "texts (set_tag (dataIdx i) t m) (data_slots m) = texts m (data_slots m)"
    using t(2) by (intro texts_cong) simp
  moreover have "data_slots (set_tag (dataIdx i) t m) = data_slots m" by (simp add: data_slots_def)
  moreover have "slot_datum (set_tag (dataIdx i) t m) (dataIdx j) = slot_datum m (dataIdx j)" for j
    using t(2) by (simp add: slot_datum_def)
  ultimately show ?thesis using rep i t(1) by (auto simp: array_rep_def)
qed

lemma EMSreadUsingTags_spec:
  assumes q: "quiet w" and rep: "array_rep (mem w) st" and fuel: "0 < fuel"
    and key: "key_ok (mem w) key h" "i = h mod nelem (mem w)"
    and f: "fst (st i) = f" "f \<noteq> EMS_TAG_RW_LOCK"
  shows "\<exists>v w'. EMSreadUsingTags fuel nt key ret (FE f) (FE g) w = Some (True, v, w') \<and> quiet w' \<and>
    libc_malloc w' = libc_malloc w \<and> nelem (mem w') = nelem (mem w) \<and> array_rep (mem w') (st(i := (g, snd (st i)))) \<and>
    value_datum (mem w') v = Some (norm_datum (snd (st i)))"
proof -
  let ?m = "mem w" let ?a = "dataIdx i" let ?t = "tag ?m ?a"
  let ?ret = "ret\<lparr>vtype := EMS_TYPE_UNDEFINED, val := PInt 0xdeafbeef\<rparr>"
  obtain k where k: "fuel = Suc k" using fuel by (cases fuel) auto
  have n: "\<not> EMSisMapped ?m" "0 < nelem ?m" using rep by (simp_all add: array_rep_def)
  have i: "0 \<le> i" "i < nelem ?m" using key(2) n(2) by simp_all
  have slot: "fe ?t = f" "slot_datum ?m ?a = Some (snd (st i))" using rep i f(1) by (simp_all add: array_rep_def)
  let ?b = "?t\<lparr>fe := EMS_TAG_BUSY\<rparr>"
  define w1 where "w1 = upd (set_tag ?a ?b) (yield w)"
  have w1: "quiet w1" "mem w1 = set_tag ?a ?b ?m" "libc_malloc w1 = libc_malloc w" using q by (simp_all add: w1_def)
  have "?t\<lparr>fe := f\<rparr> = ?t" using slot(1) by (rule fe_update_same)
  then have loop: "read_loop fuel i (FE f) (FE g) ?ret nt w = read_finish i (FE g) ?ret ?b w1"
    using k q slot(1) f(2) by (simp add: Let_def read_may_try_def w1_def)
  have d: "\<not> EMSisMapped (mem w1)" "datum_at (mem w1) (ty ?b) (word (mem w1) ?a) = Some (snd (st i))"
    using n slot(2) w1(2) by (simp_all add: slot_datum_def)
  from read_finish_datum [OF d, of "FE g" ?ret] obtain v where
    v: "read_finish i (FE g) ?ret ?b w1 = Some (True, v, upd (set_tag ?a (?b\<lparr>fe := g\<rparr>)) w1)"
    "\<And>m. heap m = heap (mem w1) \<Longrightarrow> malloc m = malloc (mem w1) \<Longrightarrow> value_datum m v = Some (norm_datum (snd (st i)))"
    by auto
  have "array_rep (set_tag ?a (?t\<lparr>fe := g\<rparr>) ?m) (st(i := (g, snd (st i))))"
    using rep i by (intro array_rep_set_fe) simp_all
  then show ?thesis
    using EMSread_index [OF n key, of fuel nt ret "FE f" "FE g"] loop v w1
    by (intro exI [of _ v] exI [of _ "upd (set_tag ?a (?b\<lparr>fe := g\<rparr>)) w1"]) simp
qed

lemma EMSread_spec:
  assumes q: "quiet w" and rep: "array_rep (mem w) st" and fuel: "0 < fuel"
    and key: "key_ok (mem w) key h" "i = h mod nelem (mem w)"
  shows "\<exists>v w'. EMSread fuel nt key ret w = Some (True, v, w') \<and> quiet w' \<and> mem w' = mem w \<and>
    libc_malloc w' = libc_malloc w \<and> value_datum (mem w') v = Some (norm_datum (snd (st i)))"
proof -
  let ?m = "mem w" let ?a = "dataIdx i" let ?b = "(tag ?m ?a)\<lparr>fe := EMS_TAG_BUSY\<rparr>"
  let ?ret = "ret\<lparr>vtype := EMS_TYPE_UNDEFINED, val := PInt 0xdeafbeef\<rparr>"
  obtain k where k: "fuel = Suc k" using fuel by (cases fuel) auto
  have n: "\<not> EMSisMapped ?m" "0 < nelem ?m" using rep by (simp_all add: array_rep_def)
  have i: "0 \<le> i" "i < nelem ?m" using key(2) n(2) by simp_all
  have loop: "read_loop fuel i EMS_TAG_ANY EMS_TAG_ANY ?ret nt w = read_finish i EMS_TAG_ANY ?ret ?b (yield w)"
    using k by (simp add: Let_def read_may_try_def)
  have d: "\<not> EMSisMapped (mem (yield w))" "datum_at (mem (yield w)) (ty ?b) (word (mem (yield w)) ?a) = Some (snd (st i))"
    using n q rep i by (simp_all add: array_rep_def slot_datum_def)
  from read_finish_datum [OF d, of EMS_TAG_ANY ?ret] show ?thesis
    using EMSread_index [OF n key, of fuel nt ret EMS_TAG_ANY EMS_TAG_ANY] loop q
    by (fastforce simp: EMSread_def)
qed

section \<open>Reads that wait\<close>

lemma quiet_blocked_read:
  assumes "quiet w" "\<not> EMSisMapped (mem w)" "f \<noteq> EMS_TAG_RW_LOCK" "fe (tag (mem w) (dataIdx i)) \<noteq> f"
  shows "read_loop fuel i (FE f) fin ret nt w = None"
  using assms
proof (induction fuel arbitrary: w)
  case (Suc fuel)
  then show ?case using Suc.IH [of "yield (yield w)"] by (simp add: Let_def read_may_try_def)
qed simp

section \<open>The readers-writer lock\<close>

lemma rw_inc:
  assumes "(r :: 3 word) < EMS_RW_NREADERS_MAX"
  shows "uint (r + 1) = uint r + 1" "r + 1 \<noteq> 0"
proof -
  have "uint r < 7" using assms by (simp add: EMS_RW_NREADERS_MAX_def word_less_def)
  then show u: "uint (r + 1) = uint r + 1" by (simp add: uint_word_ariths)
  show "r + 1 \<noteq> 0"
  proof
    assume "r + 1 = 0"
    then have "uint r + 1 = 0" using u by simp
    then show False using uint_ge_0 [of r] by linarith
  qed
qed

lemma rw_dec:
  assumes "(r :: 3 word) \<noteq> 0"
  shows "uint (r - 1) = uint r - 1"
proof -
  have "uint r \<noteq> 0" using assms by (simp add: unsigned_eq_0_iff)
  moreover have "0 \<le> uint r" "uint r < 8" using uint_lt2p [of r] by simp_all
  ultimately have "(uint r - 1) mod 8 = uint r - 1" by (intro mod_pos_pos_trivial) linarith+
  then show ?thesis by (simp add: uint_word_ariths)
qed

lemma rw_fe_same: "fe t = f \<Longrightarrow> t\<lparr>rw := r, fe := f\<rparr> = (t\<lparr>rw := r\<rparr> :: EMStag_t)"
  by (cases t) simp

lemma EMSreadRW_spec:
  assumes q: "quiet w" and rep: "array_rep (mem w) st" and fuel: "0 < fuel"
    and key: "key_ok (mem w) key h" "i = h mod nelem (mem w)" and a: "a = dataIdx i"
    and free: "fe (tag (mem w) a) = EMS_TAG_FULL \<or> fe (tag (mem w) a) = EMS_TAG_RW_LOCK \<and> rw nt < EMS_RW_NREADERS_MAX"
    and few: "rw (tag (mem w) a) < EMS_RW_NREADERS_MAX"
  shows "\<exists>v w'. EMSreadRW fuel nt key ret w = Some (True, v, w') \<and> quiet w' \<and>
    mem w' = set_tag a ((tag (mem w) a)\<lparr>rw := rw (tag (mem w) a) + 1, fe := EMS_TAG_RW_LOCK\<rparr>) (mem w) \<and>
    value_datum (mem w') v = Some (norm_datum (snd (st i)))"
proof -
  let ?m = "mem w" let ?t = "tag ?m a"
  let ?ret = "ret\<lparr>vtype := EMS_TYPE_UNDEFINED, val := PInt 0xdeafbeef\<rparr>"
  obtain k where k: "fuel = Suc k" using fuel by (cases fuel) auto
  have n: "\<not> EMSisMapped ?m" "0 < nelem ?m" using rep by (simp_all add: array_rep_def)
  have i: "0 \<le> i" "i < nelem ?m" using key(2) n(2) by simp_all
  let ?b = "?t\<lparr>fe := EMS_TAG_BUSY, rw := rw ?t + 1\<rparr>"
  define w1 where "w1 = upd (set_tag a ?b) (yield w)"
  have w1: "quiet w1" "mem w1 = set_tag a ?b ?m" using q by (simp_all add: w1_def)
  have may: "read_may_try (FE EMS_TAG_RW_LOCK) ?t nt" using free few by (auto simp: read_may_try_def)
  have loop: "read_loop fuel i (FE EMS_TAG_RW_LOCK) (FE EMS_TAG_RW_LOCK) ?ret nt w =
      read_finish i (FE EMS_TAG_RW_LOCK) ?ret ?b w1"
    using k q may a by (simp add: Let_def w1_def)
  have d: "\<not> EMSisMapped (mem w1)" "datum_at (mem w1) (ty ?b) (word (mem w1) (dataIdx i)) = Some (snd (st i))"
    using n rep i w1(2) a by (simp_all add: slot_datum_def array_rep_def)
  from read_finish_datum [OF d, of "FE EMS_TAG_RW_LOCK" ?ret] obtain v where
    v: "read_finish i (FE EMS_TAG_RW_LOCK) ?ret ?b w1 =
          Some (True, v, upd (set_tag a (?b\<lparr>fe := EMS_TAG_RW_LOCK\<rparr>)) w1)"
    "\<And>m. heap m = heap (mem w1) \<Longrightarrow> malloc m = malloc (mem w1) \<Longrightarrow> value_datum m v = Some (norm_datum (snd (st i)))"
    using a by auto
  show ?thesis
    using EMSread_index [OF n key, of fuel nt ret "FE EMS_TAG_RW_LOCK" "FE EMS_TAG_RW_LOCK"] loop v w1
    by (intro exI [of _ v] exI [of _ "upd (set_tag a (?b\<lparr>fe := EMS_TAG_RW_LOCK\<rparr>)) w1"]) (simp add: EMSreadRW_def)
qed

lemma EMSreadRW_garbage:
  assumes "quiet w" "\<not> EMSisMapped (mem w)" "fe (tag (mem w) (dataIdx i)) = EMS_TAG_RW_LOCK" "rw nt = EMS_RW_NREADERS_MAX"
  shows "read_loop fuel i (FE EMS_TAG_RW_LOCK) fin ret nt w = None"
  using assms
proof (induction fuel arbitrary: w)
  case (Suc fuel)
  then show ?case using Suc.IH [of "yield (yield w)"] by (simp add: Let_def read_may_try_def)
qed simp

lemma EMSreleaseRW_spec:
  assumes q: "quiet w" and um: "\<not> EMSisMapped (mem w)" "0 < nelem (mem w)" and fuel: "0 < fuel"
    and key: "key_ok (mem w) key h" "i = h mod nelem (mem w)" and a: "a = dataIdx i"
    and lock: "fe (tag (mem w) a) = EMS_TAG_RW_LOCK" "rw (tag (mem w) a) \<noteq> 0"
  shows "\<exists>w'. EMSreleaseRW fuel key w = Some (uint (rw (tag (mem w) a)) - 1, w') \<and> quiet w' \<and>
    mem w' = set_tag a ((tag (mem w) a)
       \<lparr>rw := rw (tag (mem w) a) - 1,
        fe := (if rw (tag (mem w) a) = 1 then EMS_TAG_FULL else EMS_TAG_RW_LOCK)\<rparr>) (mem w)"
proof -
  let ?t = "tag (mem w) a" let ?r = "rw ?t - 1"
  obtain k where k: "fuel = Suc k" using fuel by (cases fuel) auto
  have i: "0 \<le> i" "i < nelem (mem w)" using key(2) um(2) by simp_all
  have one: "?r = 0 \<longleftrightarrow> rw ?t = 1" by (metis eq_iff_diff_eq_0)
  let ?n = "?t\<lparr>rw := ?r, fe := (if rw ?t = 1 then EMS_TAG_FULL else EMS_TAG_RW_LOCK)\<rparr>"
  have "release_loop fuel i w = Some (uint ?r, upd (set_tag a ?n) (yield w))"
    using k q lock a one by (simp add: Let_def rw_fe_same)
  then show ?thesis
    using unmapped_index(1) [OF um key(1), of fuel, folded key(2)] um(1) i rw_dec [OF lock(2)] q
    by (intro exI [of _ "upd (set_tag a ?n) (yield w)"]) (simp add: EMSreleaseRW_def)
qed

end
