(* ===== verification/EmsArray.thy ===== *)
theory EmsArray
  imports EmsAccessFacts
begin

text \<open>
  The accesses to the elements of an unmapped array: what a read lock and its release leave, and
  where the code's locks and loads do not protect an element.
\<close>

section \<open>A blank array as cells\<close>

lemma blank_array:
  assumes "0 < n" "n < 2 ^ 31" "level < 59"
  shows "array_rep (blank_ems n level) (\<lambda>_. (EMS_TAG_EMPTY, DInt 0))"
proof -
  have tg: "tag (blank_ems n level) (dataIdx i) = \<lparr>fe = EMS_TAG_EMPTY, ty = EMS_TYPE_INTEGER, rw = 0\<rparr>" if "0 \<le> i" for i
    using that by (simp add: blank_ems_def)
  have "texts (blank_ems n level) (data_slots (blank_ems n level)) = {}"
    by (auto simp: texts_def data_slots_def tg is_text_def)
  moreover have "\<not> EMSisMapped (blank_ems n level)"
    by (simp add: EMSisMapped_def blank_ems_def ems_cb_defs)
  ultimately show ?thesis
    using assms blank_owned [of level n] by (simp add: array_rep_def slot_datum_def tg)
qed

lemma int_value_ok: "value_ok (int_value i) (DInt i)"
  by (simp add: value_ok_def local_key_def int_value_def value_datum_def request_ok_def)

text \<open>The blank array of four elements with the third one full.\<close>

definition one_full :: ems where
  "one_full = set_tag (dataIdx 2) \<lparr>fe = EMS_TAG_FULL, ty = EMS_TYPE_INTEGER, rw = 0\<rparr> (blank_ems 4 2)"

lemma one_full_facts:
  "array_rep (mem (alone one_full)) ((\<lambda>_. (EMS_TAG_EMPTY, DInt 0))(2 := (EMS_TAG_FULL, DInt 0)))"
  "2 = 6 mod nelem (mem (alone one_full))" "0 < nelem (mem (alone one_full))"
  "tag one_full (dataIdx 2) = \<lparr>fe = EMS_TAG_FULL, ty = EMS_TYPE_INTEGER, rw = 0\<rparr>"
proof -
  have "ty (tag (blank_ems 4 2) (dataIdx 2)) = EMS_TYPE_INTEGER" by (simp add: blank_ems_def)
  then show "array_rep (mem (alone one_full)) ((\<lambda>_. (EMS_TAG_EMPTY, DInt 0))(2 := (EMS_TAG_FULL, DInt 0)))"
    using array_rep_set_fe [OF blank_array [of 4 2], of 2 "\<lparr>fe = EMS_TAG_FULL, ty = EMS_TYPE_INTEGER, rw = 0\<rparr>"]
    by (simp add: one_full_def)
qed (simp_all add: one_full_def)

section \<open>Properties\<close>

text \<open>
  C20: a read lock counts its readers. While fewer than seven hold it, \<open>EMSreadRW\<close> on a full or
  read-locked element returns the datum and adds one; \<open>EMSreleaseRW\<close> after it returns the count
  before, takes one off, and the last one sets the element back to full. (For a second reader the
  proof needs the uninitialised local variable of the code to hold less than seven.)
\<close>

theorem EMSreadRW_release:
  assumes "quiet w" "array_rep (mem w) st" "0 < fuel" "key_ok (mem w) key h" "i = h mod nelem (mem w)"
    and "fe (tag (mem w) (dataIdx i)) = EMS_TAG_FULL \<and> rw (tag (mem w) (dataIdx i)) = 0 \<or>
         fe (tag (mem w) (dataIdx i)) = EMS_TAG_RW_LOCK \<and> 0 < rw (tag (mem w) (dataIdx i)) \<and>
           rw newTag < EMS_RW_NREADERS_MAX"
    and "rw (tag (mem w) (dataIdx i)) < EMS_RW_NREADERS_MAX" "local_key key"
  shows "\<exists>v w' w''. EMSreadRW fuel newTag key ret w = Some (True, v, w') \<and>
    value_datum (mem w') v = Some (norm_datum (snd (st i))) \<and>
    tag (mem w') (dataIdx i) = (tag (mem w) (dataIdx i))
      \<lparr>rw := rw (tag (mem w) (dataIdx i)) + 1, fe := EMS_TAG_RW_LOCK\<rparr> \<and>
    EMSreleaseRW fuel key w' = Some (uint (rw (tag (mem w) (dataIdx i))), w'') \<and> mem w'' = mem w"
proof -
  let ?m = "mem w" let ?a = "dataIdx i" let ?t = "tag ?m ?a"
  have free: "fe ?t = EMS_TAG_FULL \<or> fe ?t = EMS_TAG_RW_LOCK \<and> rw newTag < EMS_RW_NREADERS_MAX"
    using assms(6) by blast
  from EMSreadRW_spec [OF assms(1-5) refl free assms(7), of ret] obtain v w' where
    w': "EMSreadRW fuel newTag key ret w = Some (True, v, w')" "quiet w'"
    "mem w' = set_tag ?a (?t\<lparr>rw := rw ?t + 1, fe := EMS_TAG_RW_LOCK\<rparr>) ?m"
    "value_datum (mem w') v = Some (norm_datum (snd (st i)))" by blast
  note inc = rw_inc [OF assms(7)]
  have um: "\<not> EMSisMapped (mem w')" "0 < nelem (mem w')" and n: "nelem (mem w') = nelem ?m"
    using assms(2) w'(3) by (simp_all add: array_rep_def)
  have key: "key_ok (mem w') key h"
    using assms(4) w'(3) by (simp add: key_ok_def key_home_def cong: if_cong)
  have one: "rw ?t + 1 = 1 \<longleftrightarrow> rw ?t = 0" by simp
  from EMSreleaseRW_spec [OF w'(2) um assms(3) key, of i, OF _ refl] obtain w'' where
    w'': "EMSreleaseRW fuel key w' = Some (uint (rw ?t + 1) - 1, w'')"
    "mem w'' = set_tag ?a (?t\<lparr>rw := rw ?t, fe := (if rw ?t = 0 then EMS_TAG_FULL else EMS_TAG_RW_LOCK)\<rparr>) ?m"
    using assms(5) n w'(3) inc(2) one by (auto simp: n)
  have "?t\<lparr>rw := rw ?t, fe := (if rw ?t = 0 then EMS_TAG_FULL else EMS_TAG_RW_LOCK)\<rparr> = ?t"
    using assms(6) by (auto simp: fe_update_same)
  then have "mem w'' = ?m" using w''(2) by simp
  then show ?thesis using w' w''(1) inc(1) by simp
qed

theorem EMSreadRW_release_witness:
  "\<exists>v w' w''. EMSreadRW 1 (byte_tag 0) (int_value 6) (int_value 0) (alone one_full) = Some (True, v, w') \<and>
     EMSreleaseRW 1 (int_value 6) w' = Some (0, w'')"
  using EMSreadRW_release [OF alone_sel(2) one_full_facts(1) zero_less_one int_key(1) one_full_facts(2),
      of "byte_tag 0" "int_value 0"] one_full_facts(4) int_key(3) [of 6] by (auto simp: EMS_RW_NREADERS_MAX_def)

text \<open>
  C35: the test of \<open>EMSreadRW\<close> looks at a local tag that has not been assigned in the first round.
  When its three bits happen to hold seven, joining a lock that has room for more readers never
  succeeds, however long the call waits.
\<close>

theorem EMSreadRW_uninitialised:
  assumes "quiet w" "\<not> EMSisMapped (mem w)" "0 < nelem (mem w)" "key_ok (mem w) key h" "i = h mod nelem (mem w)"
    and "fe (tag (mem w) (dataIdx i)) = EMS_TAG_RW_LOCK" "rw newTag = EMS_RW_NREADERS_MAX"
  shows "EMSreadRW fuel newTag key ret w = None"
  using EMSreadRW_garbage [OF assms(1,2,6,7)] EMSread_index [OF assms(2-5)] by (simp add: EMSreadRW_def)

theorem EMSreadRW_uninitialised_witness:
  "EMSreadRW 1000 \<lparr>fe = EMS_TAG_FULL, ty = EMS_TYPE_INVALID, rw = 7\<rparr> (int_value 6) (int_value 0)
     (alone (set_tag (dataIdx 2) \<lparr>fe = EMS_TAG_RW_LOCK, ty = EMS_TYPE_INTEGER, rw = 1\<rparr> one_full)) = None"
  using one_full_facts(1,3)
  by (intro EMSreadRW_uninitialised [of _ _ 6 2])
    (simp_all add: int_key array_rep_def EMS_RW_NREADERS_MAX_def one_full_def)

lemma EMSreleaseRW_not_locked:
  assumes "\<not> EMSisMapped (mem w)" "0 < nelem (mem w)" "0 < fuel" "key_ok (mem w) key h"
    and "fe (tag (mem w) (dataIdx (h mod nelem (mem w)))) \<notin> {EMS_TAG_RW_LOCK, EMS_TAG_BUSY}"
  shows "EMSreleaseRW fuel key w = Some (- 1, w)"
proof -
  obtain k where k: "fuel = Suc k" using assms(3) by (cases fuel) auto
  show ?thesis using unmapped_index(1) [OF assms(1,2,4), of fuel] assms(1,2,5)
    by (simp add: EMSreleaseRW_def k Let_def)
qed

text \<open>
  C34: \<open>EMSwriteXF\<close> does not respect the readers' lock: on an element that readers hold it goes
  ahead, the element is full with the new datum and the count of readers is lost, so that the
  release of each of them fails with \<open>-1\<close>. (It waits for a busy element, but not for a read one.)
\<close>

theorem EMSwriteXF_ignores_readers:
  assumes "quiet w" "array_rep (mem w) st" "0 < fuel" "\<forall>m. key_ok m key h" "i = h mod nelem (mem w)"
    and "value_ok v d" "\<not> is_text (vtype v)" "fe (tag (mem w) (dataIdx i)) = EMS_TAG_RW_LOCK"
  shows "\<exists>w'. EMSwriteXF fuel key v w = Some (True, w') \<and> array_rep (mem w') (st(i := (EMS_TAG_FULL, d))) \<and>
    EMSreleaseRW fuel key w' = Some (- 1, w')"
proof -
  have "can_write EMS_TAG_ANY (FE EMS_TAG_FULL) (tag (mem w) (dataIdx i))" using assms(8) by (simp add: can_write_def)
  from EMSwriteUsingTags_spec [OF assms(1-3) assms(4) [rule_format] assms(5,6) this] assms(7) obtain w' where
    w': "EMSwriteXF fuel key v w = Some (True, w')" "nelem (mem w') = nelem (mem w)"
    "array_rep (mem w') (st(i := (EMS_TAG_FULL, d)))" by (auto simp: EMSwriteXF_def)
  have um: "\<not> EMSisMapped (mem w')" "0 < nelem (mem w')" using w'(3) by (simp_all add: array_rep_def)
  have "0 \<le> i" "i < nelem (mem w')" using assms(5) um(2) w'(2) by simp_all
  then have "fe (tag (mem w') (dataIdx i)) = EMS_TAG_FULL" using w'(3) by (simp add: array_rep_def)
  then have "EMSreleaseRW fuel key w' = Some (- 1, w')"
    using EMSreleaseRW_not_locked [OF um assms(3) assms(4) [rule_format]] assms(5) w'(2) by simp
  with w' show ?thesis by blast
qed

text \<open>One reader holds the element 2 when 5 is written to it.\<close>

theorem EMSwriteXF_ignores_readers_witness:
  "\<exists>w'. EMSwriteXF 1 (int_value 6) (int_value 5)
       (alone (set_tag (dataIdx 2) \<lparr>fe = EMS_TAG_RW_LOCK, ty = EMS_TYPE_INTEGER, rw = 1\<rparr> one_full)) = Some (True, w') \<and>
     EMSreleaseRW 1 (int_value 6) w' = Some (- 1, w')"
proof -
  let ?t = "\<lparr>fe = EMS_TAG_RW_LOCK, ty = EMS_TYPE_INTEGER, rw = 1\<rparr>"
  let ?w = "alone (set_tag (dataIdx 2) ?t one_full)"
  have n: "nelem (mem (alone one_full)) = 4" by (simp add: one_full_def)
  have r: "array_rep (mem ?w) ((\<lambda>_. (EMS_TAG_EMPTY, DInt 0))(2 := (EMS_TAG_FULL, DInt 0), 2 := (EMS_TAG_RW_LOCK, DInt 0)))"
    using array_rep_set_fe [OF one_full_facts(1), of 2 ?t EMS_TAG_RW_LOCK] one_full_facts(4) n by simp
  have "2 = 6 mod nelem (mem ?w)" using n by (simp add: nelem_def)
  moreover have "\<forall>m. key_ok m (int_value 6) 6" by (simp add: int_key)
  ultimately show ?thesis
    using EMSwriteXF_ignores_readers [OF alone_sel(2) r zero_less_one, of "int_value 6" 6 2 "int_value 5" "DInt 5"] int_value_ok [of 5]
    by (auto simp: int_value_def is_text_def)
qed

section \<open>Plain reads are not atomic\<close>

text \<open>
  C33: a plain read does not take effect at one moment: it loads the tag first and the number after,
  so what it returns is the number the element holds then with the type it had before. When another
  client stores a number of another type in between, that is a value the element never held.
\<close>

theorem EMSread_torn:
  assumes "\<not> EMSisMapped (mem w)" "\<not> EMSisMapped (mem (yield w))" "0 < nelem (mem w)" "key_ok (mem w) key h"
    and "a = dataIdx (h mod nelem (mem w))" "0 < fuel" "ty (tag (mem w) a) \<in> {EMS_TYPE_INTEGER, EMS_TYPE_FLOAT}"
  shows "\<exists>v. EMSread fuel newTag key ret w = Some (True, v, yield w) \<and> vtype v = ty (tag (mem w) a) \<and>
    val v = PInt (word (mem (yield w)) a)"
proof -
  obtain k where k: "fuel = Suc k" using assms(6) by (cases fuel) auto
  show ?thesis
    using EMSread_index [OF assms(1,3,4) refl, of fuel newTag ret EMS_TAG_ANY EMS_TAG_ANY] assms(2,5,7)
    by (auto simp: EMSread_def k Let_def read_may_try_def read_finish_def read_set_tags_def)
qed

text \<open>The element held the integer 0; the other client stores the double 1.\<close>

theorem EMSread_torn_witness:
  "let w = (alone (blank_ems 4 2))\<lparr>env := \<lambda>_ m. set_word (dataIdx 2) 0x3ff0000000000000
       (set_tag (dataIdx 2) \<lparr>fe = EMS_TAG_FULL, ty = EMS_TYPE_FLOAT, rw = 0\<rparr> m)\<rparr>
   in \<exists>v w'. EMSread 1 (byte_tag 0) (int_value 6) (int_value 0) w = Some (True, v, w') \<and>
     value_datum (mem w') v = Some (DInt 4607182418800017408) \<and>
     slot_datum (mem w) (dataIdx 2) = Some (DInt 0) \<and> slot_datum (mem w') (dataIdx 2) = Some (DFloat 4607182418800017408)"
proof -
  let ?w = "(alone (blank_ems 4 2))\<lparr>env := \<lambda>_ m. set_word (dataIdx 2) 0x3ff0000000000000
       (set_tag (dataIdx 2) \<lparr>fe = EMS_TAG_FULL, ty = EMS_TYPE_FLOAT, rw = 0\<rparr> m)\<rparr>"
  have m: "\<not> EMSisMapped (mem ?w)" "nelem (mem ?w) = 4" "key_ok (mem ?w) (int_value 6) 6"
    using blank_array [of 4 2] by (simp_all add: array_rep_def int_key)
  have y: "\<not> EMSisMapped (mem (yield ?w))" using m(1) by (simp add: yield_def EMSisMapped_def)
  have t: "tag (blank_ems 4 2) (dataIdx 2) = \<lparr>fe = EMS_TAG_EMPTY, ty = EMS_TYPE_INTEGER, rw = 0\<rparr>"
    "word (blank_ems 4 2) (dataIdx 2) = 0" by (simp_all add: blank_ems_def dataIdx_def ems_cb_defs)
  have p: "0 < nelem (mem ?w)" "dataIdx 2 = dataIdx (6 mod nelem (mem ?w))" using m(2) by simp_all
  have "ty (tag (mem ?w) (dataIdx 2)) \<in> {EMS_TYPE_INTEGER, EMS_TYPE_FLOAT}" using t by simp
  from EMSread_torn [OF m(1) y p(1) m(3) p(2) zero_less_one this, of "byte_tag 0" "int_value 0"]
  obtain v where "EMSread 1 (byte_tag 0) (int_value 6) (int_value 0) ?w = Some (True, v, yield ?w)"
    "vtype v = EMS_TYPE_INTEGER" "val v = PInt 0x3ff0000000000000" using t by (auto simp: yield_def)
  then show ?thesis unfolding Let_def using t
    by (intro exI [of _ v] exI [of _ "yield ?w"]) (simp add: value_datum_def slot_datum_def yield_def)
qed

end
