(* ===== verification/EmsCasFacts.thy ===== *)
theory EmsCasFacts
  imports EmsRmw EmsArray
begin

text \<open>
  \<open>EMScas\<close> while nobody else uses the array: it compares the datum of the element, not its
  representation, and replaces it when equal.
\<close>

section \<open>Storing the new value of a compare and swap\<close>

lemma upd_upd: "upd f (upd g w) = upd (\<lambda>m. f (g m)) w"
  by (simp add: upd_def)

lemma alloc_text_store:
  "store_text fuel a n p w = do {
     (off, w) \<leftarrow> alloc_text fuel n (\<lambda>m. cstring m p) w;
     Some (if off < 0 then (False, w) else (True, upd (set_word a off) w)) }"
proof -
  have "upd (\<lambda>m. m\<lparr>heap := strcpy (heap m) x s\<rparr>) (upd (set_word a y) w) =
      upd (set_word a y) (upd (\<lambda>m. m\<lparr>heap := strcpy (heap m) x s\<rparr>) w)" for x y s and w :: world
    by (simp add: upd_upd set_word_def)
  then show ?thesis
    by (auto simp: store_text_def alloc_text_def Let_def split: Option.bind_splits)
qed

lemma cas_store_stores: "stores_value (cas_store fuel a v) fuel a v"
  unfolding stores_value_def
proof (intro conjI impI allI)
  fix d m0 assume "\<not> is_text (vtype v)" "value_datum m0 v = Some d"
  then show "\<exists>x. (\<forall>w. cas_store fuel a v w = Some (True, upd (set_word a x) w)) \<and> (\<forall>m. datum_at m (vtype v) x = Some d)"
    by (cases rule: scalar_value) (auto simp: cas_store_def)
next
  fix w assume "is_text (vtype v)"
  then show "cas_store fuel a v w = store_text fuel a (len v + 1) (val v) w"
    unfolding alloc_text_store by (auto simp: cas_store_def is_text_def)
qed

lemmas cas_store_quiet = store_quiet [OF cas_store_stores]

section \<open>Compare and swap\<close>

lemma rmw_finish_eq: "rmw_finish idx t w = upd (maptag_full idx) (upd (set_tag (dataIdx idx) t) w)"
  unfolding rmw_finish_def Let_def maptag_upd ..

text \<open>The C library's \<open>malloc\<close> finds memory for the copy of the old text.\<close>

definition old_copy_ok :: "world \<Rightarrow> datum \<Rightarrow> bool" where
  "old_copy_ok w d \<longleftrightarrow> libc_malloc w (datum_bytes d)"

lemma cas_read_datum:
  assumes "datum_at (mem w) t (word (mem w) (dataIdx idx)) = Some d" "old_copy_ok w d"
  shows "\<exists>v. cas_read idx t ret w = Some (True, v) \<and> vtype v = t \<and> (\<forall>m. value_datum m v = Some d) \<and>
    (\<forall>m u e. value_datum m u = Some e \<longrightarrow> cas_equal t v u m = Some (d = e))"
proof (cases "is_text t")
  case True
  then obtain s where s: "heapStr (mem w) (word (mem w) (dataIdx idx)) = Some s" "datum_bytes d = length s + 1"
    "t = EMS_TYPE_STRING \<and> d = DStr s \<or> t = EMS_TYPE_JSON \<and> d = DJson s"
    using assms(1) by (auto simp: is_text_def)
  have "c_str s = s" using heapStr_no_NUL [OF s(1)] by (rule c_str_id)
  then show ?thesis
    using s assms(2)
    by (intro exI [of _ "ret\<lparr>vtype := t, val := PStr s\<rparr>"])
      (auto simp: cas_read_def old_copy_ok_def value_datum_def cas_equal_def split: ems_type.splits)
next
  case False
  let ?y = "if t = EMS_TYPE_UNDEFINED then 0xf00dcafe else word (mem w) (dataIdx idx)"
  show ?thesis
    using False assms(1)
    by (intro exI [of _ "ret\<lparr>vtype := t, val := PInt ?y\<rparr>"], cases t)
      (auto simp: cas_read_def value_datum_def cas_equal_def is_text_def split: ems_type.splits)
qed

lemma cas_at_quiet:
  assumes q: "quiet w" and own: "owned (mem w) T" and fuel: "0 < fuel"
    and idx: "0 \<le> idx" "idx < nelem (mem w)" and a: "a = dataIdx idx"
    and T: "a \<in> T \<longleftrightarrow> is_text (ty (tag (mem w) a))"
    and full: "fe (tag (mem w) a) = EMS_TAG_FULL" and d: "slot_datum (mem w) a = Some d" "old_copy_ok w d"
    and old: "\<forall>m. value_datum m oldValue = Some e" and new: "value_ok newValue n"
  shows "(\<exists>v w'. cas_at fuel idx oldValue newValue ret w = Some (False, v, w') \<and> is_text (vtype newValue) \<and> d = e) \<or>
    (\<exists>v w' m'. cas_at fuel idx oldValue newValue ret w = Some (True, v, w') \<and> quiet w' \<and>
       libc_malloc w' = libc_malloc w \<and> (\<forall>m. value_datum m v = Some d) \<and> mem w' = maptag_full idx m' \<and>
       (if d = e then elem_written (mem w) a newValue n \<lparr>fe = EMS_TAG_FULL, ty = vtype newValue, rw = 0\<rparr> T m'
        else m' = set_tag a \<lparr>fe = EMS_TAG_FULL, ty = ty (tag (mem w) a), rw = 0\<rparr> (mem w)))"
proof -
  let ?m = "mem w" let ?t = "ty (tag ?m a)"
  have amx: "a \<noteq> EMS_ARR_MEM_MUTEX" using a idx by simp
  define w1 where "w1 = upd (set_fe a EMS_TAG_BUSY) (yield w)"
  have w1: "quiet w1" "mem w1 = set_fe a EMS_TAG_BUSY ?m" "libc_malloc w1 = libc_malloc w"
    using q by (simp_all add: w1_def)
  have tr: "EMStransitionFEtag fuel a mt EMS_TAG_FULL EMS_TAG_BUSY EMS_TAG_ANY_code w =
      Some ((tag ?m a)\<lparr>fe := EMS_TAG_BUSY\<rparr>, w1)" for mt
    unfolding w1_def using q full fuel by (rule transition_quiet)
  have t1: "ty (tag (mem w1) a) = ?t" by (simp add: w1(2))
  have "datum_at (mem w1) ?t (word (mem w1) (dataIdx idx)) = Some d" "old_copy_ok w1 d"
    using d a w1 by (simp_all add: slot_datum_def old_copy_ok_def)
  from cas_read_datum [OF this, of ret] obtain v where v: "cas_read idx ?t ret w1 = Some (True, v)"
    "\<forall>m. value_datum m v = Some d" "cas_equal ?t v oldValue (mem w1) = Some (d = e)" using old by blast
  have at: "cas_at fuel idx oldValue newValue ret w =
      (if d = e then do {
         w \<leftarrow> (if ?t = EMS_TYPE_STRING \<or> ?t = EMS_TYPE_JSON
               then emsMutexMem_free fuel (word (mem w1) a) w1 else Some w1);
         (stored, w) \<leftarrow> cas_store fuel a newValue w;
         if stored
         then Some (True, v, rmw_finish idx \<lparr>fe = EMS_TAG_FULL, ty = vtype newValue, rw = 0\<rparr> w)
         else Some (False, v, w)
       } else Some (True, v, rmw_finish idx \<lparr>fe = EMS_TAG_FULL, ty = ?t, rw = 0\<rparr> w1))"
    unfolding cas_at_def cas_locked_def Let_def a [symmetric] tr Option.bind.simps prod.case t1 v(1) v(3) by simp
  show ?thesis
  proof (cases "d = e")
    case False
    have "cas_at fuel idx oldValue newValue ret w =
        Some (True, v, upd (maptag_full idx) (upd (set_tag a \<lparr>fe = EMS_TAG_FULL, ty = ?t, rw = 0\<rparr>) w1))"
      using at False by (simp add: rmw_finish_eq a)
    then show ?thesis using False w1 v(2) by (intro disjI2) (auto simp: set_fe_def)
  next
    case True
    have own1: "owned (mem w1) T" using own w1(2) by simp
    from free_old_quiet [OF w1(1) own1 fuel T] obtain w2 where
      w2: "(if ?t = EMS_TYPE_STRING \<or> ?t = EMS_TYPE_JSON
            then emsMutexMem_free fuel (word (mem w1) a) w1 else Some w1) = Some w2" "quiet w2"
        "libc_malloc w2 = libc_malloc w1" "tag (mem w2) = tag (mem w1)" "word (mem w2) = word (mem w1)"
        "owned (mem w2) (T - {a})"
      "\<And>b. b \<in> T - {a} \<Longrightarrow> heapStr (mem w2) (word (mem w1) b) = heapStr (mem w1) (word (mem w1) b)" by blast
    have notin: "a \<notin> T - {a}" by simp
    let ?n = "\<lparr>fe = EMS_TAG_FULL, ty = vtype newValue, rw = 0\<rparr>"
    from cas_store_quiet [OF w2(6) notin amx fuel new] show ?thesis
    proof (elim disjE exE conjE)
      assume "cas_store fuel a newValue w2 = Some (False, w2)" "is_text (vtype newValue)"
      then show ?thesis using at True w2(1) by simp
    next
      fix m' x assume st: "cas_store fuel a newValue w2 = Some (True, upd (\<lambda>_. m') w2)" "tag m' = tag (mem w2)"
        "word m' = (word (mem w2))(a := x)" "datum_at m' (vtype newValue) x = Some n"
        "owned m' (if is_text (vtype newValue) then insert a (T - {a}) else T - {a})"
        "\<forall>b \<in> T - {a}. heapStr m' (word (mem w2) b) = heapStr (mem w2) (word (mem w2) b)"
      have ew: "elem_written ?m a newValue n ?n T (set_tag a ?n m')"
        using st w2 w1(2) unfolding elem_written_def by (intro conjI exI [of _ x]) (auto split: if_splits)
      have "cas_at fuel idx oldValue newValue ret w =
          Some (True, v, upd (maptag_full idx) (upd (set_tag a ?n) (upd (\<lambda>_. m') w2)))"
        using at True w2(1) st(1) by (simp add: rmw_finish_eq a)
      then show ?thesis
        using True ew v(2) w2(2,3) w1(3) by (intro disjI2) auto
    qed
  qed
qed

section \<open>Arrays\<close>

lemma array_slot:
  assumes "array_rep m st" "i = h mod nelem m"
  shows "\<not> EMSisMapped m" "0 < nelem m" "0 \<le> i" "i < nelem m" "owned m (texts m (data_slots m))"
    "dataIdx i \<in> texts m (data_slots m) \<longleftrightarrow> is_text (ty (tag m (dataIdx i)))"
    "fe (tag m (dataIdx i)) = fst (st i)" "slot_datum m (dataIdx i) = Some (snd (st i))"
proof -
  show n: "\<not> EMSisMapped m" "0 < nelem m" "owned m (texts m (data_slots m))"
    using assms(1) by (simp_all add: array_rep_def)
  show i: "0 \<le> i" "i < nelem m" using assms(2) n(2) by simp_all
  show "dataIdx i \<in> texts m (data_slots m) \<longleftrightarrow> is_text (ty (tag m (dataIdx i)))"
    using i by (auto simp: texts_def data_slots_def)
  show "fe (tag m (dataIdx i)) = fst (st i)" "slot_datum m (dataIdx i) = Some (snd (st i))"
    using assms(1) i by (simp_all add: array_rep_def)
qed

lemma EMScas_spec:
  assumes q: "quiet w" and rep: "array_rep (mem w) st" and fuel: "0 < fuel"
    and key: "key_ok (mem w) key h" "i = h mod nelem (mem w)" and full: "fst (st i) = EMS_TAG_FULL"
    and copy: "old_copy_ok w (snd (st i))" and old: "\<forall>m. value_datum m oldValue = Some e" and new: "value_ok newValue n"
  shows "(\<exists>v w'. EMScas fuel key oldValue newValue ret w = Some (False, v, w') \<and> is_text (vtype newValue) \<and> snd (st i) = e) \<or>
    (\<exists>v w'. EMScas fuel key oldValue newValue ret w = Some (True, v, w') \<and> quiet w' \<and>
       libc_malloc w' = libc_malloc w \<and> nelem (mem w') = nelem (mem w) \<and>
       value_datum (mem w') v = Some (snd (st i)) \<and>
       array_rep (mem w') (st(i := (EMS_TAG_FULL, if snd (st i) = e then n else snd (st i)))))"
proof -
  let ?m = "mem w" let ?a = "dataIdx i" let ?T = "texts ?m (data_slots ?m)"
  note sl = array_slot [OF rep key(2)]
  have eq: "EMScas fuel key oldValue newValue ret w = cas_at fuel i oldValue newValue ret w"
    using unmapped_index(1) [OF sl(1,2) key(1), of fuel, folded key(2)] sl(1,3,4) by (simp add: EMScas_def)
  have fe: "fe (tag ?m ?a) = EMS_TAG_FULL" using sl(7) full by simp
  from cas_at_quiet [OF q sl(5) fuel sl(3,4) refl sl(6) fe sl(8) copy old new, of ret] show ?thesis
  proof (elim disjE exE conjE)
    fix v w' assume "cas_at fuel i oldValue newValue ret w = Some (False, v, w')" "is_text (vtype newValue)" "snd (st i) = e"
    then show ?thesis using eq by auto
  next
    fix v w' m' assume r: "cas_at fuel i oldValue newValue ret w = Some (True, v, w')" "quiet w'"
      "libc_malloc w' = libc_malloc w" "\<forall>m. value_datum m v = Some (snd (st i))" "mem w' = maptag_full i m'"
      and c: "if snd (st i) = e then elem_written ?m ?a newValue n \<lparr>fe = EMS_TAG_FULL, ty = vtype newValue, rw = 0\<rparr> ?T m'
        else m' = set_tag ?a \<lparr>fe = EMS_TAG_FULL, ty = ty (tag ?m ?a), rw = 0\<rparr> ?m"
    have "array_rep m' (st(i := (EMS_TAG_FULL, if snd (st i) = e then n else snd (st i)))) \<and> nelem m' = nelem ?m"
    proof (cases "snd (st i) = e")
      case True
      then show ?thesis using c array_rep_written [OF rep sl(3,4), of "\<lparr>fe = EMS_TAG_FULL, ty = vtype newValue, rw = 0\<rparr>" newValue n m']
        by simp
    next
      case False
      then show ?thesis using c array_rep_set_fe [OF rep sl(3,4), of "\<lparr>fe = EMS_TAG_FULL, ty = ty (tag ?m ?a), rw = 0\<rparr>" EMS_TAG_FULL]
        by simp
    qed
    moreover from this have "mem w' = m'" using r(5) by (simp add: maptag_full_def array_rep_def)
    ultimately show ?thesis using eq r by auto
  qed
qed

section \<open>Properties\<close>

text \<open>
  C36: a compare and swap on an absent key of a mapped array that compares with anything but
  undefined reports success and goes on to set the tags of index \<open>-1\<close>: the last element of the
  array, which belongs to another key, becomes full whatever state it was in.
\<close>

theorem EMScas_absent_key:
  assumes "quiet w" "map_ok (mem w)" "key_ok (mem w) key h" "0 < fuel" "1 < nelem (mem w)"
    and "\<forall>d < MAX_OPEN_HASH_STEPS. \<not> found_at (mem w) key h d" "vtype oldValue \<noteq> EMS_TYPE_UNDEFINED"
  shows "\<exists>v w'. EMScas fuel key oldValue newValue ret w = Some (True, v, w') \<and> vtype v = EMS_TYPE_UNDEFINED \<and>
    tag (mem w') (dataIdx (nelem (mem w) - 1)) = (tag (mem w) (dataIdx (nelem (mem w) - 1)))\<lparr>fe := EMS_TAG_FULL\<rparr>"
proof -
  let ?m = "mem w" let ?n = "nelem ?m" let ?u = "\<lparr>fe = EMS_TAG_FULL, ty = EMS_TYPE_UNDEFINED, rw = 0\<rparr>"
  obtain w' where w': "EMSkey2index fuel key True w = Some (- 1, w')" "mem w' = ?m"
    using EMSkey2index_mapped [OF assms(1-4)] assms(5,6) smod_minus_one by fastforce
  have mapped: "EMSisMapped ?m" using assms(2) by (simp add: map_ok_def)
  have last: "mapIdx ?m (- 1) = dataIdx (?n - 1)" "dataIdx (- 1) \<noteq> dataIdx (?n - 1)"
    using assms(5) by (simp_all add: mapIdx_def dataIdx_def ems_cb_defs)
  have "EMScas fuel key oldValue newValue ret w =
      Some (True, ret\<lparr>vtype := EMS_TYPE_UNDEFINED, val := PInt 0xf00dcafe\<rparr>, rmw_finish (- 1) ?u w')"
    using w' mapped assms(5,7) by (simp add: EMScas_def cas_absent_def Let_def)
  moreover have "mem (rmw_finish (- 1) ?u w') = set_fe (dataIdx (?n - 1)) EMS_TAG_FULL (set_tag (dataIdx (- 1)) ?u ?m)"
    using mapped last(1) w'(2) by (simp add: rmw_finish_def Let_def)
  ultimately show ?thesis using last(2) by simp
qed

theorem EMScas_absent_key_witness:
  "\<exists>v w'. EMScas 1 (int_value 5) (int_value 1) (int_value 2) (int_value 0) (alone (blank_map 4 2)) = Some (True, v, w') \<and>
     fe (tag (blank_map 4 2) (dataIdx 3)) = EMS_TAG_EMPTY \<and> fe (tag (mem w') (dataIdx 3)) = EMS_TAG_FULL"
proof -
  let ?b = "blank_map 4 2"
  have k: "key_ok ?b (int_value 5) 5" by (simp add: int_key)
  have nf: "\<forall>d < MAX_OPEN_HASH_STEPS. \<not> found_at ?b (int_value 5) 5 d"
    using free_not_found [OF _ _ k] blank_map_free [of 4 2 "int_value 5" 5] by fastforce
  have e: "fe (tag ?b (dataIdx 3)) = EMS_TAG_EMPTY"
    by (simp add: blank_map_def blank_ems_def Let_def dataIdx_def ems_cb_defs)
  have "vtype (int_value 1) \<noteq> EMS_TYPE_UNDEFINED" by (simp add: int_value_def)
  with EMScas_absent_key [of "alone ?b" "int_value 5" 5 1 "int_value 1" "int_value 2" "int_value 0"] k nf blank_map_ok [of 4 2] e
  show ?thesis by auto
qed

end
