(* ===== verification/EmsFaaFacts.thy ===== *)
theory EmsFaaFacts
  imports EmsCasFacts
begin

text \<open>
  \<open>EMSfaa\<close> while nobody else uses the array: the element goes from its datum to the sum that
  \<open>datum_add\<close> gives, and the old datum is returned.
\<close>

section \<open>The sum of two data\<close>

text \<open>What fetch and add stores; \<open>None\<close> where the code returns \<open>false\<close>.\<close>

fun datum_add :: "datum \<Rightarrow> datum \<Rightarrow> datum option" where
  "datum_add (DBool x) (DInt i) = Some (DInt (wrap64 (x + i)))"
| "datum_add (DBool x) (DBool i) = Some (DInt (wrap64 (x + i)))"
| "datum_add (DBool x) (DFloat f) = Some (DFloat (dbl_add (dbl_of_int x) f))"
| "datum_add (DBool x) (DStr s) = Some (DStr (bool_text x @ s))"
| "datum_add (DBool x) DUndef = Some (DFloat DBL_NAN)"
| "datum_add (DInt x) (DInt i) =
     (let y = wrap64 (x + i) in Some (if y \<ge> 2 ^ 30 then DFloat (dbl_of_int y) else DInt y))"
| "datum_add (DInt x) (DBool i) = Some (DInt (wrap64 (x + i)))"
| "datum_add (DInt x) (DFloat f) = Some (DFloat (dbl_add (dbl_of_int x) f))"
| "datum_add (DInt x) (DStr s) = Some (DStr (fmt_lld x @ s))"
| "datum_add (DInt x) DUndef = Some (DFloat DBL_NAN)"
| "datum_add (DFloat x) (DInt i) = Some (DFloat (dbl_add x (dbl_of_int i)))"
| "datum_add (DFloat x) (DBool i) = Some (DFloat (dbl_add x (dbl_of_int i)))"
| "datum_add (DFloat x) (DFloat f) = Some (DFloat (dbl_add x f))"
| "datum_add (DFloat x) (DStr s) = Some (DStr (fmt_lf x @ s))"
| "datum_add (DFloat x) DUndef = Some (DFloat DBL_NAN)"
| "datum_add (DStr s) (DInt i) = Some (DStr (s @ fmt_lld i))"
| "datum_add (DStr s) (DFloat f) = Some (DStr (s @ fmt_lf f))"
| "datum_add (DStr s) (DBool i) = Some (DStr (s @ bool_text i))"
| "datum_add (DStr s) (DStr t) = Some (DStr (s @ t))"
| "datum_add (DStr s) DUndef = Some (DStr (s @ ''undefined''))"
| "datum_add DUndef (DStr s) = Some DUndef"
| "datum_add DUndef (DJson s) = None"
| "datum_add DUndef d = Some (DFloat DBL_NAN)"
| "datum_add (DJson s) d = None"
| "datum_add d (DJson s) = None"

text \<open>The bytes the code asks for when the sum is a text.\<close>

definition faa_bytes :: "datum \<Rightarrow> EMSvalueType \<Rightarrow> nat" where
  "faa_bytes d v = (case d of
       DBool _ \<Rightarrow> len v + 1 + 5
     | DInt _ \<Rightarrow> len v + 1 + MAX_NUMBER2STR_LEN
     | DFloat _ \<Rightarrow> len v + 1 + MAX_NUMBER2STR_LEN
     | DStr s \<Rightarrow> length s + 1 + faa_suffix_len v
     | _ \<Rightarrow> len v + 1 + 3)"

text \<open>The printed number fits in what the code reserves for it.\<close>

fun printable :: "datum \<Rightarrow> bool" where
  "printable (DInt i) \<longleftrightarrow> - (2 ^ 63) \<le> i \<and> i < 2 ^ 63"
| "printable (DFloat x) \<longleftrightarrow> length (fmt_lf x) \<le> MAX_NUMBER2STR_LEN"
| "printable _ \<longleftrightarrow> True"

text \<open>Numbers are printed only for a sum with a text.\<close>

fun sum_prints :: "datum \<Rightarrow> datum \<Rightarrow> bool" where
  "sum_prints (DStr s) e \<longleftrightarrow> printable e"
| "sum_prints d (DStr s) \<longleftrightarrow> printable d"
| "sum_prints d e \<longleftrightarrow> True"

lemma sum_prints_text [simp]: "sum_prints d (DStr s) \<longleftrightarrow> printable d"
  by (cases d) simp_all

section \<open>A text in a new block\<close>

lemma faa_text_quiet:
  assumes own: "owned (mem w) T" and a: "a \<notin> T" "a \<noteq> EMS_ARR_MEM_MUTEX" and fuel: "0 < fuel" and n: "request_ok n"
    and tx: "\<forall>malloc'. heap_bytes_of malloc' = heap_bytes_of (malloc (mem w)) \<longrightarrow>
        text (malloc_update (\<lambda>_. malloc') (mem w)) = Some s"
    and s: "NUL \<notin> set s" "length s < n"
  shows "faa_text fuel a n t text w = Some (None, w) \<and> emsMem_alloc (malloc (mem w)) n = Some (- 1, malloc (mem w)) \<or>
    (\<exists>m' x. faa_text fuel a n t text w = Some (Some t, upd (\<lambda>_. m') w) \<and> tag m' = tag (mem w) \<and>
       word m' = (word (mem w))(a := x) \<and> heapStr m' x = Some s \<and> owned m' (insert a T) \<and>
       (\<forall>b \<in> T. heapStr m' (word (mem w) b) = heapStr (mem w) (word (mem w) b)))"
  using own fuel n
proof (cases rule: alloc_string_quiet)
  case 1
  then show ?thesis by (simp add: faa_text_def alloc_text_def)
next
  case (2 off malloc')
  let ?x = "with_text (mem w) malloc' off s"
  have own': "owned (set_word a off ?x) (insert a T)"
    using 2(4,5,6) s a by (intro owned_insert) auto
  have at: "string_at ?x off s" using 2(5) s by blast
  have "faa_text fuel a n t text w = Some (Some t, upd (\<lambda>_. set_word a off ?x) w)"
    using 2(1,2,3) tx by (simp add: faa_text_def alloc_text_def upd_def with_text_def)
  moreover have "heapStr (set_word a off ?x) off = Some s"
    using own' at string_at_heapStr [of "set_word a off ?x" off s] by (simp add: owned_def string_at_def)
  moreover have "heapStr (set_word a off ?x) (word (mem w) b) = heapStr (mem w) (word (mem w) b)" if "b \<in> T" for b
    using 2(6) [OF s that] heapStr_cong [of "set_word a off ?x" ?x] by simp
  ultimately show ?thesis
    using own' by (intro disjI2 exI [of _ "set_word a off ?x"] exI [of _ off]) simp
qed

lemma value_shape:
  assumes "value_ok v e"
  shows "case e of
      DInt i \<Rightarrow> vtype v = EMS_TYPE_INTEGER \<and> as_int64 (val v) = Some i
    | DBool i \<Rightarrow> vtype v = EMS_TYPE_BOOLEAN \<and> as_int64 (val v) = Some i
    | DFloat i \<Rightarrow> vtype v = EMS_TYPE_FLOAT \<and> as_int64 (val v) = Some i
    | DStr s \<Rightarrow> vtype v = EMS_TYPE_STRING \<and> (\<forall>m. cstring m (val v) = Some s) \<and> NUL \<notin> set s \<and> length s \<le> len v
    | DJson s \<Rightarrow> vtype v = EMS_TYPE_JSON
    | DUndef \<Rightarrow> vtype v = EMS_TYPE_UNDEFINED"
proof -
  have v: "value_datum m v = Some e" for m using assms by (simp add: value_ok_def)
  show ?thesis
  proof (cases e)
    case (DStr s)
    have st: "vtype v = EMS_TYPE_STRING \<and> cstring m (val v) = Some s" for m
      using v [of m] DStr by (auto simp: value_datum_def split: ems_type.splits)
    then have "NUL \<notin> set s" using cstring_no_NUL by blast
    then show ?thesis using st DStr assms by (simp add: value_ok_def)
  qed (use v [of undefined] in \<open>auto simp: value_datum_def split: ems_type.splits\<close>)
qed

lemma faa_suffix_text:
  assumes "value_ok v e" "datum_add (DStr s) e = Some r" "printable e"
  obtains t where "\<And>m. faa_suffix v m = Some t" "NUL \<notin> set t" "r = DStr (s @ t)" "length t \<le> faa_suffix_len v"
    "vtype v \<in> {EMS_TYPE_INTEGER, EMS_TYPE_FLOAT, EMS_TYPE_STRING, EMS_TYPE_BOOLEAN, EMS_TYPE_UNDEFINED}"
proof (cases e)
  case (DInt i)
  with assms value_shape [OF assms(1)] fmt_lld_length [of i] show thesis
    by (intro that [of "fmt_lld i"]) (auto simp: faa_suffix_def faa_suffix_len_def fmt_lld_no_NUL MAX_NUMBER2STR_LEN_def)
next
  case (DFloat x)
  with assms value_shape [OF assms(1)] show thesis
    by (intro that [of "fmt_lf x"]) (auto simp: faa_suffix_def faa_suffix_len_def fmt_lf_no_NUL)
qed (use assms value_shape [OF assms(1)] that in \<open>auto simp: faa_suffix_def faa_suffix_len_def bool_text_def\<close>)

section \<open>Storing the sum\<close>

text \<open>\<open>elem_stored\<close>: as \<open>elem_written\<close>, before the tag is set.\<close>

definition elem_stored :: "ems \<Rightarrow> nat \<Rightarrow> ems_type \<Rightarrow> datum \<Rightarrow> nat set \<Rightarrow> ems \<Rightarrow> bool" where
  "elem_stored m a t d T m' \<longleftrightarrow>
     tag m' = tag m \<and> (\<exists>x. word m' = (word m)(a := x) \<and> datum_at m' t x = Some d) \<and>
     owned m' (if is_text t then insert a T else T - {a}) \<and>
     (\<forall>b \<in> T - {a}. heapStr m' (word m b) = heapStr m (word m b))"

lemma elem_stored_tag:
  "elem_stored m a (vtype v) d T m' \<Longrightarrow> elem_written m a v d t T (set_tag a t m')"
  by (auto simp: elem_stored_def elem_written_def)

text \<open>What storing a sum may come to; \<open>fails\<close> is the condition under which nothing is stored.\<close>

definition sum_stored ::
  "(ems_type option \<times> world) option \<Rightarrow> world \<Rightarrow> nat \<Rightarrow> nat set \<Rightarrow> datum \<Rightarrow> bool \<Rightarrow> bool" where
  "sum_stored out w a T r fails \<longleftrightarrow>
     (\<exists>w'. out = Some (None, w') \<and> fails) \<or>
     (\<exists>t m'. out = Some (Some t, upd (\<lambda>_. m') w) \<and> elem_stored (mem w) a t r T m')"

lemma faa_set_stored:
  assumes "owned (mem w) T" "a \<notin> T" "a \<noteq> EMS_ARR_MEM_MUTEX" "\<not> is_text t" "datum_at (mem w) t x = Some r"
  shows "sum_stored (faa_set a t x w) w a T r fails"
proof -
  have "faa_set a t x w = Some (Some t, upd (\<lambda>_. set_word a x (mem w)) w)" by (simp add: faa_set_def upd_def)
  moreover have "elem_stored (mem w) a t r T (set_word a x (mem w))"
    using assms by (auto simp: elem_stored_def owned_set_word)
  ultimately show ?thesis unfolding sum_stored_def by blast
qed

lemma faa_text_stored:
  assumes "owned (mem w) T" "a \<notin> T" "a \<noteq> EMS_ARR_MEM_MUTEX" "0 < fuel" "request_ok n"
    and tx: "\<forall>malloc'. heap_bytes_of malloc' = heap_bytes_of (malloc (mem w)) \<longrightarrow>
        text (malloc_update (\<lambda>_. malloc') (mem w)) = Some s" and "NUL \<notin> set s" "length s < n"
    and t: "t = EMS_TYPE_STRING \<and> r = DStr s \<or> t = EMS_TYPE_UNDEFINED \<and> r = DUndef"
    and fails: "emsMem_alloc (malloc (mem w)) n = Some (- 1, malloc (mem w)) \<Longrightarrow> fails"
  shows "sum_stored (faa_text fuel a n t text w) w a T r fails"
  using faa_text_quiet [of w T a fuel n "text" s t, OF assms(1-5) tx assms(7,8)]
proof (elim disjE exE conjE)
  fix m' x assume m': "faa_text fuel a n t text w = Some (Some t, upd (\<lambda>_. m') w)" "tag m' = tag (mem w)"
    "word m' = (word (mem w))(a := x)" "heapStr m' x = Some s" "owned m' (insert a T)"
    "\<forall>b \<in> T. heapStr m' (word (mem w) b) = heapStr (mem w) (word (mem w) b)"
  have "owned m' (T - {a})" using m'(5) by (rule owned_subset) auto
  then have "elem_stored (mem w) a t r T m'"
    using m' t unfolding elem_stored_def by (auto simp: is_text_def)
  then show ?thesis using m'(1) unfolding sum_stored_def by blast
qed (use fails in \<open>simp add: sum_stored_def\<close>)

lemma faa_string_stored:
  assumes q: "quiet w" and own: "owned (mem w) T" and a: "a \<in> T" "a \<noteq> EMS_ARR_MEM_MUTEX" and fuel: "0 < fuel"
    and s: "heapStr (mem w) (word (mem w) a) = Some s"
    and v: "value_ok v e" "datum_add (DStr s) e = Some r" "printable e"
    and n: "request_ok (length s + 1 + faa_suffix_len v)"
    and fails: "emsMem_alloc (malloc (mem w)) (length s + 1 + faa_suffix_len v) = Some (- 1, malloc (mem w)) \<Longrightarrow> fails"
  shows "sum_stored (faa_string fuel a v w) w a T r fails"
proof -
  let ?m = "mem w"
  from v obtain t where t: "\<And>m. faa_suffix v m = Some t" "NUL \<notin> set t" "r = DStr (s @ t)"
    "length t \<le> faa_suffix_len v"
    "vtype v \<in> {EMS_TYPE_INTEGER, EMS_TYPE_FLOAT, EMS_TYPE_STRING, EMS_TYPE_BOOLEAN, EMS_TYPE_UNDEFINED}"
    by (rule faa_suffix_text) blast
  have st: "NUL \<notin> set (s @ t)" "length (s @ t) < length s + 1 + faa_suffix_len v"
    using t(2,4) heapStr_no_NUL [OF s] by simp_all
  from own fuel n show ?thesis
  proof (cases rule: alloc_string_quiet)
    case 1
    then show ?thesis using s t(5) fails by (simp add: sum_stored_def faa_string_def alloc_text_def)
  next
    case (2 off malloc')
    let ?x = "with_text ?m malloc' off (s @ t)" let ?w1 = "upd (\<lambda>_. ?x) w"
    have x: "owned (mem ?w1) T" "string_at (mem ?w1) off (s @ t)" "word ?m a \<noteq> off"
      using 2(4,5) st conjunct1 [OF 2(6) [OF st a(1)]] by simp_all
    from x(1) a(1) fuel obtain malloc'' where
      f: "emsMutexMem_free fuel (word (mem ?w1) a) ?w1 = Some (upd (malloc_update (\<lambda>_. malloc'')) ?w1)"
      "owned (mem (upd (malloc_update (\<lambda>_. malloc'')) ?w1)) (T - {a})"
      "\<And>b. b \<in> T - {a} \<Longrightarrow>
         heapStr (malloc_update (\<lambda>_. malloc'') (mem ?w1)) (word (mem ?w1) b) = heapStr (mem ?w1) (word (mem ?w1) b)"
      "\<And>y u. string_at (mem ?w1) y u \<Longrightarrow> y \<noteq> word (mem ?w1) a \<Longrightarrow>
         string_at (malloc_update (\<lambda>_. malloc'') (mem ?w1)) y u"
      by (rule free_text_keeps) blast
    let ?y = "malloc_update (\<lambda>_. malloc'') ?x"
    have y: "owned ?y (T - {a})" "string_at ?y off (s @ t)" using f(2) f(4) [OF x(2)] x(3) by simp_all
    have off: "word ?y b \<noteq> off" if "b \<in> T - {a}" for b using 2(6) [OF st, of b] that by simp
    have own': "owned (set_word a off ?y) (insert a (T - {a}))"
      using y off a(2) by (intro owned_insert) auto
    have "heapStr (malloc_update (\<lambda>_. malloc') ?m) (word ?m a) = Some s"
      using s 2(3) by (simp add: heapStr_def)
    then have al: "alloc_text fuel (length s + 1 + faa_suffix_len v)
        (\<lambda>m. do { s \<leftarrow> heapStr m (word m a); t \<leftarrow> faa_suffix v m; Some (s @ t) }) w = Some (off, ?w1)"
      using 2(1,2) t(1) by (simp add: alloc_text_def upd_def with_text_def)
    have run: "faa_string fuel a v w = Some (Some EMS_TYPE_STRING, upd (\<lambda>_. set_word a off ?y) w)"
      using al f(1) 2(2) s t(5) by (simp add: faa_string_def faa_set_def upd_upd)
    have "elem_stored ?m a EMS_TYPE_STRING r T (set_word a off ?y)"
      unfolding elem_stored_def
    proof (intro conjI exI [of _ off] ballI)
      show "datum_at (set_word a off ?y) EMS_TYPE_STRING off = Some r"
        using y string_at_heapStr [of ?y off "s @ t"] t(3) by (simp add: owned_def)
      show "heapStr (set_word a off ?y) (word ?m b) = heapStr ?m (word ?m b)" if "b \<in> T - {a}" for b
        using f(3) [OF that] 2(6) [OF st, of b] that by simp
    qed (use own' in \<open>simp_all add: is_text_def\<close>)
    then show ?thesis using run unfolding sum_stored_def by blast
  qed
qed

text \<open>The only failure: the sum is a text and the allocator has no block for it.\<close>

definition faa_no_memory :: "ems \<Rightarrow> datum \<Rightarrow> datum \<Rightarrow> EMSvalueType \<Rightarrow> bool" where
  "faa_no_memory m d e v \<longleftrightarrow> (\<exists>s. d = DStr s \<or> e = DStr s) \<and>
     emsMem_alloc (malloc m) (faa_bytes d v) = Some (- 1, malloc m)"

lemma faa_update_stored:
  assumes q: "quiet w" and own: "owned (mem w) T" and fuel: "0 < fuel" and amx: "a \<noteq> EMS_ARR_MEM_MUTEX"
    and T: "a \<in> T \<longleftrightarrow> is_text t" and d: "datum_at (mem w) t (word (mem w) a) = Some d"
    and v: "value_ok v e" "datum_add d e = Some r" and pr: "sum_prints d e"
    and n: "request_ok (faa_bytes d v)"
  shows "sum_stored (faa_update fuel a t v w) w a T r (faa_no_memory (mem w) d e v)"
proof -
  let ?x = "word (mem w) a"
  note sh = value_shape [OF v(1)]
  note put = faa_set_stored [OF own _ amx]
  have tex: "sum_stored (faa_text fuel a k u f w) w a T r (faa_no_memory (mem w) d e v)"
    if "a \<notin> T" "request_ok k" "\<And>m. word m a = ?x \<Longrightarrow> f m = Some s" "NUL \<notin> set s" "length s < k"
      "u = EMS_TYPE_STRING \<and> r = DStr s \<or> u = EMS_TYPE_UNDEFINED \<and> r = DUndef"
      "k = faa_bytes d v" "\<exists>s. d = DStr s \<or> e = DStr s" for k u f s
    using that(3,7,8) by (intro faa_text_stored [OF own that(1) amx fuel that(2) _ that(4,5,6)]) (simp_all add: faa_no_memory_def)
  have nt: "NUL \<notin> set (bool_text y)" "length (bool_text y) \<le> 5" for y by (simp_all add: bool_text_def)
  consider (bool) "t = EMS_TYPE_BOOLEAN" "d = DBool ?x" "a \<notin> T" | (int) "t = EMS_TYPE_INTEGER" "d = DInt ?x" "a \<notin> T"
    | (float) "t = EMS_TYPE_FLOAT" "d = DFloat ?x" "a \<notin> T" | (undef) "t = EMS_TYPE_UNDEFINED" "d = DUndef" "a \<notin> T"
    | (str) s where "t = EMS_TYPE_STRING" "d = DStr s" "heapStr (mem w) ?x = Some s" "a \<in> T"
    using d T v(2) by (cases t) (auto simp: is_text_def)
  then show ?thesis
  proof cases
    case bool
    show ?thesis
    proof (cases e)
      case (DStr s)
      have sm: "r = DStr (bool_text ?x @ s)" using DStr bool v(2) by simp
      have "sum_stored (faa_text fuel a (len v + 1 + 5) EMS_TYPE_STRING
          (\<lambda>m. map_option (\<lambda>s. bool_text (word m a) @ s) (cstring m (val v))) w) w a T r (faa_no_memory (mem w) d e v)"
        using DStr sh bool n nt(2) [of ?x]
        by (intro tex [where s = "bool_text ?x @ s"]) (simp_all add: faa_bytes_def nt(1) sm)
      then show ?thesis using DStr sh bool by (simp add: faa_update_def faa_bool_def)
    qed (use sh bool v(2) in \<open>auto simp: faa_update_def faa_bool_def Let_def is_text_def intro!: put\<close>)
  next
    case int
    show ?thesis
    proof (cases e)
      case (DStr s)
      have "length (fmt_lld ?x) \<le> 20" using pr int DStr by (intro fmt_lld_length) simp_all
      have sm: "r = DStr (fmt_lld ?x @ s)" using DStr int v(2) by simp
      have "sum_stored (faa_text fuel a (len v + 1 + MAX_NUMBER2STR_LEN) EMS_TYPE_STRING
          (\<lambda>m. map_option (\<lambda>s. fmt_lld (word m a) @ s) (cstring m (val v))) w) w a T r (faa_no_memory (mem w) d e v)"
        using DStr sh int n \<open>length (fmt_lld ?x) \<le> 20\<close>
        by (intro tex [where s = "fmt_lld ?x @ s"]) (simp_all add: faa_bytes_def fmt_lld_no_NUL sm MAX_NUMBER2STR_LEN_def)
      then show ?thesis using DStr sh int by (simp add: faa_update_def faa_int_def)
    qed (use sh int v(2) in \<open>auto simp: faa_update_def faa_int_def Let_def is_text_def intro!: put\<close>)
  next
    case float
    show ?thesis
    proof (cases e)
      case (DStr s)
      have sm: "r = DStr (fmt_lf ?x @ s)" using DStr float v(2) by simp
      have "sum_stored (faa_text fuel a (len v + 1 + MAX_NUMBER2STR_LEN) EMS_TYPE_STRING
          (\<lambda>m. map_option (\<lambda>s. fmt_lf (word m a) @ s) (cstring m (val v))) w) w a T r (faa_no_memory (mem w) d e v)"
        using DStr sh float n pr
        by (intro tex [where s = "fmt_lf ?x @ s"]) (simp_all add: faa_bytes_def fmt_lf_no_NUL sm)
      then show ?thesis using DStr sh float by (simp add: faa_update_def faa_float_def)
    qed (use sh float v(2) in \<open>auto simp: faa_update_def faa_float_def Let_def is_text_def intro!: put\<close>)
  next
    case undef
    show ?thesis
    proof (cases e)
      case (DStr s)
      have sm: "r = DUndef" using DStr undef v(2) by simp
      have "sum_stored (faa_text fuel a (len v + 1 + 3) EMS_TYPE_UNDEFINED
          (\<lambda>m. map_option (\<lambda>s. ''NaN'' @ s) (cstring m (val v))) w) w a T r (faa_no_memory (mem w) d e v)"
        using DStr sh undef n
        by (intro tex [where s = "''NaN'' @ s"]) (simp_all add: faa_bytes_def sm)
      then show ?thesis using DStr sh undef by (simp add: faa_update_def faa_undef_def)
    qed (use sh undef v(2) in \<open>auto simp: faa_update_def faa_undef_def is_text_def intro!: put\<close>)
  next
    case (str s)
    have "printable e" using pr str(2) by simp
    then have "sum_stored (faa_string fuel a v w) w a T r (faa_no_memory (mem w) d e v)"
      using str(2) v(2) n
      by (intro faa_string_stored [OF q own str(4) amx fuel str(3) v(1)])
        (auto simp: faa_no_memory_def faa_bytes_def)
    then show ?thesis using str(1) by (simp add: faa_update_def)
  qed
qed

section \<open>Arrays\<close>

lemma faa_read_datum:
  assumes "datum_at (mem w) t (word (mem w) (dataIdx idx)) = Some d" "old_copy_ok w d" "\<not> (\<exists>s. d = DJson s)"
  shows "\<exists>v. faa_read idx t ret w = Some (True, v) \<and> (\<forall>m. value_datum m v = Some (norm_datum d))"
proof (cases "t = EMS_TYPE_STRING")
  case True
  then obtain s where s: "heapStr (mem w) (word (mem w) (dataIdx idx)) = Some s" "d = DStr s"
    using assms(1) by auto
  have "c_str s = s" using heapStr_no_NUL [OF s(1)] by (rule c_str_id)
  then show ?thesis using True s assms(2)
    by (auto simp: faa_read_def Let_def old_copy_ok_def value_datum_def)
next
  case False
  then show ?thesis using assms
    by (cases t) (auto simp: faa_read_def Let_def value_datum_def)
qed

lemma faa_at_quiet:
  assumes q: "quiet w" and own: "owned (mem w) T" and fuel: "0 < fuel"
    and idx: "0 \<le> idx" "idx < nelem (mem w)" and a: "a = dataIdx idx"
    and T: "a \<in> T \<longleftrightarrow> is_text (ty (tag (mem w) a))"
    and full: "fe (tag (mem w) a) = EMS_TAG_FULL" and d: "slot_datum (mem w) a = Some d" "old_copy_ok w d"
    and v: "value_ok v e" "datum_add d e = Some r"
    and pr: "sum_prints d e" and n: "request_ok (faa_bytes d v)"
  shows "(\<exists>old w'. faa_at fuel idx v ret w = Some (False, old, w')) \<and> faa_no_memory (mem w) d e v \<or>
    (\<exists>old w' m' u. faa_at fuel idx v ret w = Some (True, old, w') \<and> quiet w' \<and>
       libc_malloc w' = libc_malloc w \<and> (\<forall>m. value_datum m old = Some (norm_datum d)) \<and> mem w' = maptag_full idx m' \<and>
       elem_written (mem w) a u r ((tag (mem w) a)\<lparr>fe := EMS_TAG_FULL, ty := vtype u\<rparr>) T m')"
proof -
  let ?m = "mem w" let ?t = "tag ?m a"
  have amx: "a \<noteq> EMS_ARR_MEM_MUTEX" using idx a by simp
  define w1 where "w1 = upd (set_fe a EMS_TAG_BUSY) (yield w)"
  have w1: "quiet w1" "mem w1 = set_fe a EMS_TAG_BUSY ?m" "libc_malloc w1 = libc_malloc w"
    using q by (simp_all add: w1_def)
  have tr: "EMStransitionFEtag fuel a mt EMS_TAG_FULL EMS_TAG_BUSY EMS_TAG_ANY_code w =
      Some (?t\<lparr>fe := EMS_TAG_BUSY\<rparr>, w1)" for mt
    unfolding w1_def using q full fuel by (rule transition_quiet)
  have d1: "datum_at (mem w1) (ty ?t) (word (mem w1) (dataIdx idx)) = Some d" and c1: "old_copy_ok w1 d"
    using d w1 a by (simp_all add: slot_datum_def old_copy_ok_def)
  have nj: "\<not> (\<exists>s. d = DJson s)" using v(2) by auto
  from faa_read_datum [OF d1 c1 nj, of ret] obtain old where
    old: "faa_read idx (ty ?t) ret w1 = Some (True, old)" "\<forall>m. value_datum m old = Some (norm_datum d)" by blast
  have eq: "faa_at fuel idx v ret w = do {
       (newType, w) \<leftarrow> faa_update fuel a (ty ?t) v w1;
       (case newType of
          None \<Rightarrow> Some (False, old, w)
        | Some t \<Rightarrow> Some (True, old, rmw_finish idx (?t\<lparr>fe := EMS_TAG_FULL, ty := t\<rparr>) w)) }"
    using old(1) by (simp add: faa_at_def faa_locked_def a [symmetric] tr cong: option.case_cong)
  have own1: "owned (mem w1) T" using own w1(2) by simp
  have d1: "datum_at (mem w1) (ty ?t) (word (mem w1) a) = Some d" using d1 a by simp
  from faa_update_stored [OF w1(1) own1 fuel amx T d1 v pr n] show ?thesis
    unfolding sum_stored_def
  proof (elim disjE exE conjE)
    fix w' assume "faa_update fuel a (ty ?t) v w1 = Some (None, w')" "faa_no_memory (mem w1) d e v"
    then show ?thesis using eq w1(2) by (simp add: faa_no_memory_def)
  next
    fix t m' assume u: "faa_update fuel a (ty ?t) v w1 = Some (Some t, upd (\<lambda>_. m') w1)"
      and st: "elem_stored (mem w1) a t r T m'"
    let ?n = "?t\<lparr>fe := EMS_TAG_FULL, ty := t\<rparr>" let ?v = "ret\<lparr>vtype := t\<rparr>"
    have "elem_stored (mem w1) a (vtype ?v) r T m'" using st by simp
    from elem_stored_tag [OF this] have ew: "elem_written ?m a ?v r ?n T (set_tag a ?n m')"
      by (simp add: w1(2))
    let ?w = "rmw_finish idx ?n (upd (\<lambda>_. m') w1)"
    have "mem ?w = maptag_full idx (set_tag a ?n m')" by (simp add: rmw_finish_eq a)
    moreover have "quiet ?w" "libc_malloc ?w = libc_malloc w" using w1 by (simp_all add: rmw_finish_eq)
    moreover have "faa_at fuel idx v ret w = Some (True, old, ?w)" using eq u by simp
    ultimately show ?thesis using ew old(2)
      by (intro disjI2 exI [of _ old] exI [of _ ?w] exI [of _ "set_tag a ?n m'"] exI [of _ ?v]) simp
  qed
qed

lemma EMSfaa_spec:
  assumes q: "quiet w" and rep: "array_rep (mem w) st" and fuel: "0 < fuel"
    and key: "key_ok (mem w) key h" "i = h mod nelem (mem w)" and full: "fst (st i) = EMS_TAG_FULL"
    and copy: "old_copy_ok w (snd (st i))" and v: "value_ok v e" "datum_add (snd (st i)) e = Some r"
    and pr: "sum_prints (snd (st i)) e" and n: "request_ok (faa_bytes (snd (st i)) v)"
  shows "(\<exists>old w'. EMSfaa fuel key v ret w = Some (False, old, w')) \<and> faa_no_memory (mem w) (snd (st i)) e v \<or>
    (\<exists>old w'. EMSfaa fuel key v ret w = Some (True, old, w') \<and> quiet w' \<and>
       libc_malloc w' = libc_malloc w \<and> nelem (mem w') = nelem (mem w) \<and>
       value_datum (mem w') old = Some (norm_datum (snd (st i))) \<and>
       array_rep (mem w') (st(i := (EMS_TAG_FULL, r))))"
proof -
  note sl = array_slot [OF rep key(2)]
  have fe: "fe (tag (mem w) (dataIdx i)) = EMS_TAG_FULL" using sl(7) full by simp
  have eq: "EMSfaa fuel key v ret w = faa_at fuel i v ret w"
    using unmapped_index(2) [OF sl(1,2) key(1), of fuel, folded key(2)] sl(3,4) by (simp add: EMSfaa_def)
  from faa_at_quiet [OF q sl(5) fuel sl(3,4) refl sl(6) fe sl(8) copy v pr n, of ret] show ?thesis
    unfolding eq
  proof (elim disjE exE conjE)
    fix old w' m' u assume r: "faa_at fuel i v ret w = Some (True, old, w')" "quiet w'" "libc_malloc w' = libc_malloc w"
      "\<forall>m. value_datum m old = Some (norm_datum (snd (st i)))" "mem w' = maptag_full i m'"
      and ew: "elem_written (mem w) (dataIdx i) u r ((tag (mem w) (dataIdx i))\<lparr>fe := EMS_TAG_FULL, ty := vtype u\<rparr>)
        (texts (mem w) (data_slots (mem w))) m'"
    have ar: "array_rep m' (st(i := (EMS_TAG_FULL, r)))" "nelem m' = nelem (mem w)"
      using array_rep_written [OF rep sl(3,4) _ ew] by simp_all
    then have "mem w' = m'" using r(5) by (simp add: maptag_full_def array_rep_def)
    then show "(\<exists>old w'. faa_at fuel i v ret w = Some (False, old, w')) \<and> faa_no_memory (mem w) (snd (st i)) e v \<or>
      (\<exists>old w'. faa_at fuel i v ret w = Some (True, old, w') \<and> quiet w' \<and>
       libc_malloc w' = libc_malloc w \<and> nelem (mem w') = nelem (mem w) \<and>
       value_datum (mem w') old = Some (norm_datum (snd (st i))) \<and>
       array_rep (mem w') (st(i := (EMS_TAG_FULL, r))))"
      using ar r(1-4) by (intro disjI2 exI [of _ old] exI [of _ w']) simp
  qed blast
qed

section \<open>Sums of integers are exact\<close>

text \<open>
  A sum of integers that is promoted to a double because it reached \<open>2 ^ 30\<close> is the same
  number, as long as it is below \<open>2 ^ 53\<close>: the double is finite and stands for exactly
  \<open>x + i\<close>, which is \<open>(x + i) * 2 ^ 1074\<close> units of \<open>2 ^ -1074\<close>. Below \<open>2 ^ 30\<close> it stays an integer.
\<close>

lemma EMSfaa_integer_exact:
  assumes "word (mem w) a = x" "vtype v = EMS_TYPE_INTEGER" "val v = PInt i" "0 \<le> x + i" "x + i < 2 ^ 53"
  shows "if x + i < 2 ^ 30 then faa_int fuel a v w = Some (Some EMS_TYPE_INTEGER, upd (set_word a (x + i)) w)
    else \<exists>f. faa_int fuel a v w = Some (Some EMS_TYPE_FLOAT, upd (set_word a f) w) \<and>
      dbl_units f = (x + i) * 2 ^ 1074 \<and> \<not> dbl_is_nan f \<and> \<not> dbl_is_inf f"
proof -
  have "wrap64 (x + i) = x + i" using assms(4,5) by simp
  then have eq: "faa_int fuel a v w =
      (if x + i < 2 ^ 30 then Some (Some EMS_TYPE_INTEGER, upd (set_word a (x + i)) w)
       else Some (Some EMS_TYPE_FLOAT, upd (set_word a (dbl_of_int (x + i))) w))"
    using assms(1-3) by (simp add: faa_int_def faa_set_def Let_def)
  have "\<bar>x + i\<bar> < 2 ^ 53" using assms(4,5) by simp
  note ex = dbl_of_int_exact [OF this]
  show ?thesis unfolding eq
    by (cases "x + i < 2 ^ 30") (simp_all only: if_True if_False, use ex in blast)
qed

end
