(* ===== verification/EmsMemory.thy ===== *)
theory EmsMemory
  imports EmsFaaFacts "HOL-Library.Sublist"
begin

text \<open>
  An array as a whole: any sequence of reads, writes, compare and swaps, fetch and adds and tag
  changes behaves as on an abstract memory of full/empty cells. The interface \<open>simulation\<close> states
  what one operation owes to its abstract counterpart, and carries it over to sequences.
\<close>

section \<open>Programs\<close>

text \<open>A sequence of operations is carried out, or stops at one that waits for ever or fails.\<close>

datatype outcome = Done | Blocked | Failed

text \<open>
  The results of the operations carried out. One that returns \<open>None\<close> waits, one whose result is
  \<open>None\<close> reported failure.
\<close>

fun crun :: "('op \<Rightarrow> 'c \<Rightarrow> ('out option \<times> 'c) option) \<Rightarrow> 'op list \<Rightarrow> 'c \<Rightarrow> 'out list \<times> outcome" where
  "crun cstep [] c = ([], Done)"
| "crun cstep (x # xs) c = (case cstep x c of
       None \<Rightarrow> ([], Blocked)
     | Some (None, c') \<Rightarrow> ([], Failed)
     | Some (Some out, c') \<Rightarrow> (let (outs, e) = crun cstep xs c' in (out # outs, e)))"

text \<open>The abstract operations do not fail.\<close>

fun arun :: "('aop \<Rightarrow> 'a \<Rightarrow> ('out \<times> 'a) option) \<Rightarrow> 'aop list \<Rightarrow> 'a \<Rightarrow> 'out list \<times> outcome" where
  "arun astep [] a = ([], Done)"
| "arun astep (y # ys) a = (case astep y a of
       None \<Rightarrow> ([], Blocked)
     | Some (out, a') \<Rightarrow> (let (outs, e) = arun astep ys a' in (out # outs, e)))"

text \<open>A condition on every operation in the state it meets, or on some operation.\<close>

fun along :: "('aop \<Rightarrow> 'a \<Rightarrow> ('out \<times> 'a) option) \<Rightarrow> ('aop \<Rightarrow> 'a \<Rightarrow> bool) \<Rightarrow> 'aop list \<Rightarrow> 'a \<Rightarrow> bool" where
  "along astep P [] a \<longleftrightarrow> True"
| "along astep P (y # ys) a \<longleftrightarrow> P y a \<and> (case astep y a of None \<Rightarrow> True | Some (_, a') \<Rightarrow> along astep P ys a')"

section \<open>The interface\<close>

locale simulation =
  fixes rep :: "'c \<Rightarrow> 'a \<Rightarrow> bool"
    and cstep :: "'op \<Rightarrow> 'c \<Rightarrow> ('out option \<times> 'c) option"
    and astep :: "'aop \<Rightarrow> 'a \<Rightarrow> ('out \<times> 'a) option"
    and stands_for :: "'op \<Rightarrow> 'aop \<Rightarrow> bool"
    and admissible :: "'aop \<Rightarrow> 'a \<Rightarrow> bool"
    and may_fail :: "'aop \<Rightarrow> 'a \<Rightarrow> bool"
  assumes step_sim: "rep c a \<Longrightarrow> stands_for x y \<Longrightarrow> admissible y a \<Longrightarrow> astep y a = Some (out, a') \<Longrightarrow>
        (\<exists>c'. cstep x c = Some (Some out, c') \<and> rep c' a') \<or>
        (\<exists>c'. cstep x c = Some (None, c')) \<and> may_fail y a"
    and step_blocks: "rep c a \<Longrightarrow> stands_for x y \<Longrightarrow> astep y a = None \<Longrightarrow>
        cstep x c = None \<or> (\<exists>c'. cstep x c = Some (None, c')) \<and> may_fail y a"
begin

lemma run_sim:
  assumes "rep c a" "list_all2 stands_for xs ys" "along astep admissible ys a"
  shows "crun cstep xs c = arun astep ys a \<or>
    (\<exists>outs. crun cstep xs c = (outs, Failed) \<and> prefix outs (fst (arun astep ys a)) \<and>
       \<not> along astep (\<lambda>y a. \<not> may_fail y a) ys a)"
  using assms
proof (induction xs arbitrary: ys c a)
  case (Cons x xs)
  from Cons.prems(2) obtain y zs where ys: "ys = y # zs" "stands_for x y" "list_all2 stands_for xs zs"
    by (auto simp: list_all2_Cons1)
  show ?case
  proof (cases "astep y a")
    case None
    then show ?thesis using step_blocks [OF Cons.prems(1) ys(2) None] ys(1) by auto
  next
    case (Some r)
    then obtain out a' where r: "astep y a = Some (out, a')" by (cases r) simp
    have ok: "admissible y a" "along astep admissible zs a'" using Cons.prems(3) r ys(1) by simp_all
    from step_sim [OF Cons.prems(1) ys(2) ok(1) r] show ?thesis
    proof (elim disjE exE conjE)
      fix c' assume c': "cstep x c = Some (Some out, c')" "rep c' a'"
      from Cons.IH [OF c'(2) ys(3) ok(2)] show ?thesis
        using c'(1) r ys(1) by (auto simp: split_beta)
    next
      fix c' assume "cstep x c = Some (None, c')" "may_fail y a"
      then show ?thesis using r ys(1) by simp
    qed
  qed
qed simp

end

section \<open>The operations of an array\<close>

datatype array_op =
    OWrite EMSvalueType EMSvalueType fe_arg fe_arg
  | ORead EMSvalueType fe_state fe_state
  | OPeek EMSvalueType
  | OCas EMSvalueType EMSvalueType EMSvalueType
  | OFaa EMSvalueType EMSvalueType
  | OSet EMSvalueType bool

text \<open>One operation; \<open>nt\<close> is the uninitialised local tag of the reads.\<close>

definition no_value :: EMSvalueType where
  "no_value = \<lparr>len = 0, val = PInt 0, vtype = EMS_TYPE_INVALID\<rparr>"

fun answer :: "(bool \<times> EMSvalueType \<times> world) option \<Rightarrow> (datum option option \<times> world) option" where
  "answer None = None"
| "answer (Some (ok, v, w)) = Some (if ok then Some (value_datum (mem w) v) else None, w)"

fun ack :: "(bool \<times> world) option \<Rightarrow> (datum option option \<times> world) option" where
  "ack None = None"
| "ack (Some (ok, w)) = Some (if ok then Some None else None, w)"

fun array_step :: "nat \<Rightarrow> EMStag_t \<Rightarrow> array_op \<Rightarrow> world \<Rightarrow> (datum option option \<times> world) option" where
  "array_step fuel nt (OWrite k v ini fin) w = ack (EMSwriteUsingTags fuel k v ini fin w)"
| "array_step fuel nt (ORead k f g) w = answer (EMSreadUsingTags fuel nt k no_value (FE f) (FE g) w)"
| "array_step fuel nt (OPeek k) w = answer (EMSread fuel nt k no_value w)"
| "array_step fuel nt (OCas k old v) w = answer (EMScas fuel k old v no_value w)"
| "array_step fuel nt (OFaa k v) w = answer (EMSfaa fuel k v no_value w)"
| "array_step fuel nt (OSet k b) w = ack (EMSsetTag fuel k b w)"

section \<open>The abstract memory\<close>

text \<open>
  \<open>n\<close> cells, each with a state and a datum; an operation names its cell modulo \<open>n\<close>. A write that
  takes any state and sets one waits for a cell that is busy.
\<close>

type_synonym cells = "int \<times> (int \<Rightarrow> fe_state \<times> datum)"

datatype cell_op =
    CWrite int datum fe_arg fe_arg
  | CRead int fe_state fe_state
  | CPeek int
  | CCas int datum datum
  | CFaa int datum
  | CSet int bool

fun state_after :: "fe_arg \<Rightarrow> fe_state \<Rightarrow> fe_state" where
  "state_after EMS_TAG_ANY f = f"
| "state_after (FE g) f = g"

fun cell_step :: "cell_op \<Rightarrow> cells \<Rightarrow> (datum option \<times> cells) option" where
  "cell_step (CWrite h d ini fin) (n, st) = (let (f, _) = st (h mod n) in
     if state_after ini f = f \<and> (f = EMS_TAG_BUSY \<longrightarrow> ini \<noteq> EMS_TAG_ANY \<or> fin = EMS_TAG_ANY)
     then Some (None, n, st(h mod n := (state_after fin f, d))) else None)"
| "cell_step (CRead h f g) (n, st) = (let (f', d) = st (h mod n) in
     if f' = f then Some (Some (norm_datum d), n, st(h mod n := (g, d))) else None)"
| "cell_step (CPeek h) (n, st) = Some (Some (norm_datum (snd (st (h mod n)))), n, st)"
| "cell_step (CCas h e d) (n, st) = (let (f, d') = st (h mod n) in
     if f = EMS_TAG_FULL then Some (Some d', n, st(h mod n := (f, if d' = e then d else d'))) else None)"
| "cell_step (CFaa h e) (n, st) = (let (f, d) = st (h mod n) in
     if f = EMS_TAG_FULL then Some (Some (norm_datum d), n, st(h mod n := (f, the (datum_add d e)))) else None)"
| "cell_step (CSet h b) (n, st) =
     Some (None, n, st(h mod n := (if b then EMS_TAG_FULL else EMS_TAG_EMPTY, snd (st (h mod n)))))"

section \<open>What stands for what\<close>

definition settled :: "fe_state \<Rightarrow> bool" where
  "settled f \<longleftrightarrow> f = EMS_TAG_FULL \<or> f = EMS_TAG_EMPTY"

text \<open>The world holds the cells: nobody else acts, and \<open>malloc\<close> succeeds.\<close>

fun array_cells :: "world \<Rightarrow> cells \<Rightarrow> bool" where
  "array_cells w (n, st) \<longleftrightarrow> quiet w \<and> array_rep (mem w) st \<and> nelem (mem w) = n \<and> (\<forall>k. libc_malloc w k)"

declare array_cells.simps [simp del]

definition key_for :: "EMSvalueType \<Rightarrow> int \<Rightarrow> bool" where
  "key_for k h \<longleftrightarrow> (\<forall>m. key_ok m k h)"

fun write_args :: "fe_arg \<Rightarrow> fe_arg \<Rightarrow> bool" where
  "write_args ini EMS_TAG_ANY \<longleftrightarrow> ini = EMS_TAG_ANY"
| "write_args EMS_TAG_ANY (FE g) \<longleftrightarrow> settled g"
| "write_args (FE f) (FE g) \<longleftrightarrow> settled g"

fun op_for :: "array_op \<Rightarrow> cell_op \<Rightarrow> bool" where
  "op_for (OWrite k v ini fin) (CWrite h d ini' fin') \<longleftrightarrow>
     key_for k h \<and> value_ok v d \<and> ini' = ini \<and> fin' = fin \<and> write_args ini fin"
| "op_for (ORead k f g) (CRead h f' g') \<longleftrightarrow> key_for k h \<and> f' = f \<and> g' = g \<and> settled f \<and> settled g"
| "op_for (OPeek k) (CPeek h) \<longleftrightarrow> key_for k h"
| "op_for (OCas k old v) (CCas h e d) \<longleftrightarrow> key_for k h \<and> (\<forall>m. value_datum m old = Some e) \<and> value_ok v d"
| "op_for (OFaa k v) (CFaa h e) \<longleftrightarrow> key_for k h \<and> value_ok v e \<and> len v < 2 ^ 62"
| "op_for (OSet k b) (CSet h b') \<longleftrightarrow> key_for k h \<and> b' = b"
| "op_for _ _ \<longleftrightarrow> False"

text \<open>The sums a program asks for exist and their texts fit.\<close>

fun cell_ok :: "cell_op \<Rightarrow> cells \<Rightarrow> bool" where
  "cell_ok (CFaa h e) (n, st) \<longleftrightarrow> (let d = snd (st (h mod n)) in
     datum_add d e \<noteq> None \<and> sum_prints d e \<and> datum_bytes d < 2 ^ 62)"
| "cell_ok _ _ \<longleftrightarrow> True"

text \<open>Only the storing of a text can fail.\<close>

fun text_datum :: "datum \<Rightarrow> bool" where
  "text_datum (DStr s) \<longleftrightarrow> True"
| "text_datum (DJson s) \<longleftrightarrow> True"
| "text_datum _ \<longleftrightarrow> False"

fun cell_text :: "cell_op \<Rightarrow> cells \<Rightarrow> bool" where
  "cell_text (CWrite h d ini fin) _ \<longleftrightarrow> text_datum d"
| "cell_text (CCas h e d) _ \<longleftrightarrow> text_datum d"
| "cell_text (CFaa h e) (n, st) \<longleftrightarrow> text_datum (snd (st (h mod n))) \<or> text_datum e"
| "cell_text _ _ \<longleftrightarrow> False"

lemma value_ok_text: "value_ok v d \<Longrightarrow> is_text (vtype v) \<longleftrightarrow> text_datum d"
  by (cases "vtype v") (auto simp: value_ok_def value_datum_def is_text_def)

section \<open>Operations that wait\<close>

lemma blocked:
  assumes q: "quiet w" and rep: "array_rep (mem w) st" and key: "key_ok (mem w) key h" "i = h mod nelem (mem w)"
  shows "fst (st i) \<noteq> f \<Longrightarrow> EMSwriteUsingTags fuel key v (FE f) fin w = None"
    "fst (st i) \<noteq> EMS_TAG_FULL \<Longrightarrow> EMScas fuel key old v ret w = None"
    "fst (st i) \<noteq> EMS_TAG_FULL \<Longrightarrow> EMSfaa fuel key v ret w = None"
    "fst (st i) \<noteq> f \<Longrightarrow> f \<noteq> EMS_TAG_RW_LOCK \<Longrightarrow> EMSreadUsingTags fuel nt key ret (FE f) fin w = None"
proof -
  note sl = array_slot [OF rep key(2)]
  note ix = unmapped_index [OF sl(1,2) key(1), folded key(2)]
  have tr: "EMStransitionFEtag fuel (dataIdx i) None f g EMS_TAG_ANY_code w = None" if "fst (st i) \<noteq> f" for f g
    using q that sl(7) by (intro transition_blocked) simp_all
  show "EMSwriteUsingTags fuel key v (FE f) fin w = None" if "fst (st i) \<noteq> f"
    using ix(2) sl(1,3) tr [OF that] by (simp add: EMSwriteUsingTags_def write_at_def)
  show "EMScas fuel key old v ret w = None" if "fst (st i) \<noteq> EMS_TAG_FULL"
    using ix(1) sl(1,3,4) tr [OF that] by (simp add: EMScas_def cas_at_def map_tag_of_def)
  show "EMSfaa fuel key v ret w = None" if "fst (st i) \<noteq> EMS_TAG_FULL"
    using ix(2) sl(1,3,4) tr [OF that] by (simp add: EMSfaa_def faa_at_def map_tag_of_def Let_def)
  show "EMSreadUsingTags fuel nt key ret (FE f) fin w = None" if "fst (st i) \<noteq> f" "f \<noteq> EMS_TAG_RW_LOCK"
    using quiet_blocked_read [OF q sl(1) that(2)] that(1) sl(7) EMSread_index [OF sl(1,2) key] by simp
qed

section \<open>Each operation simulates its abstract one\<close>

lemma cells_update:
  assumes "array_cells w (n, st)" "quiet w'" "libc_malloc w' = libc_malloc w" "nelem (mem w') = nelem (mem w)"
    "array_rep (mem w') (st(i := (g, d)))"
  shows "array_cells w' (n, st(i := (g, d)))"
  using assms by (auto simp: array_cells.simps)

lemma cells_key:
  assumes "array_cells w (n, st)" "key_for k h"
  shows "quiet w" "array_rep (mem w) st" "key_ok (mem w) k h" "h mod n = h mod nelem (mem w)"
    "old_copy_ok w d"
  using assms by (simp_all add: array_cells.simps key_for_def old_copy_ok_def)

text \<open>The two laws of the interface, for one operation.\<close>

definition simulates :: "nat \<Rightarrow> EMStag_t \<Rightarrow> array_op \<Rightarrow> cell_op \<Rightarrow> bool" where
  "simulates fuel nt x y \<longleftrightarrow> (\<forall>w a. array_cells w a \<longrightarrow>
     (case cell_step y a of
        None \<Rightarrow> array_step fuel nt x w = None
      | Some (out, a') \<Rightarrow> cell_ok y a \<longrightarrow>
          (\<exists>w'. array_step fuel nt x w = Some (Some out, w') \<and> array_cells w' a') \<or>
          (\<exists>w'. array_step fuel nt x w = Some (None, w')) \<and> cell_text y a))"

lemma simulatesI:
  assumes "\<And>w n st. array_cells w (n, st) \<Longrightarrow> cell_step y (n, st) = None \<Longrightarrow> array_step fuel nt x w = None"
    and "\<And>w n st out a'. array_cells w (n, st) \<Longrightarrow> cell_ok y (n, st) \<Longrightarrow> cell_step y (n, st) = Some (out, a') \<Longrightarrow>
      (\<exists>w'. array_step fuel nt x w = Some (Some out, w') \<and> array_cells w' a') \<or>
      (\<exists>w'. array_step fuel nt x w = Some (None, w')) \<and> cell_text y (n, st)"
  shows "simulates fuel nt x y"
  unfolding simulates_def
proof (intro allI impI)
  fix w and a :: cells assume c: "array_cells w a"
  obtain n st where a: "a = (n, st)" by (cases a)
  show "case cell_step y a of
        None \<Rightarrow> array_step fuel nt x w = None
      | Some (out, a') \<Rightarrow> cell_ok y a \<longrightarrow>
          (\<exists>w'. array_step fuel nt x w = Some (Some out, w') \<and> array_cells w' a') \<or>
          (\<exists>w'. array_step fuel nt x w = Some (None, w')) \<and> cell_text y a"
    using assms c unfolding a by (auto split: option.splits)
qed

lemma blocked_write_busy:
  assumes "quiet w" "0 \<le> i" "i < nelem (mem w)" "fe (tag (mem w) (dataIdx i)) = EMS_TAG_BUSY"
  shows "write_loop fuel i v EMS_TAG_ANY (FE g) w = None"
  using assms
proof (induction fuel arbitrary: w)
  case (Suc fuel)
  then show ?case using Suc.IH [of "yield w"] by (simp add: Let_def smod_nonneg)
qed simp

lemma sim_write:
  assumes "0 < fuel" "key_for k h" "value_ok v d" "write_args ini fin"
  shows "simulates fuel nt (OWrite k v ini fin) (CWrite h d ini fin)"
proof (rule simulatesI)
  fix w n st assume c: "array_cells w (n, st)" and none: "cell_step (CWrite h d ini fin) (n, st) = None"
  note ck = cells_key [OF c assms(2)]
  note sl = array_slot [OF ck(2,4)]
  consider f where "ini = FE f" "fst (st (h mod n)) \<noteq> f"
    | g where "ini = EMS_TAG_ANY" "fin = FE g" "fst (st (h mod n)) = EMS_TAG_BUSY"
    using none by (cases ini; cases fin) (auto simp: split_beta split: if_splits)
  then show "array_step fuel nt (OWrite k v ini fin) w = None"
  proof cases
    case 1
    then show ?thesis using ck blocked(1) [of w st k h "h mod n" _ fuel v fin] by simp
  next
    case 2
    then show ?thesis
      using unmapped_index(2) [OF sl(1,2) ck(3), of fuel, folded ck(4)] sl(3,4,7) ck(1)
        blocked_write_busy [OF ck(1) sl(3,4), of fuel v] by (simp add: EMSwriteUsingTags_def write_at_def)
  qed
next
  fix w n st out a' assume c: "array_cells w (n, st)" and "cell_step (CWrite h d ini fin) (n, st) = Some (out, a')"
  note ck = cells_key [OF c assms(2)]
  let ?f = "fst (st (h mod n))" let ?s = "st(h mod n := (state_after fin ?f, d))"
  have st: "state_after ini ?f = ?f" "?f = EMS_TAG_BUSY \<longrightarrow> ini \<noteq> EMS_TAG_ANY \<or> fin = EMS_TAG_ANY"
    "out = None" "a' = (n, ?s)"
    using \<open>cell_step _ _ = _\<close> by (auto simp: split_beta Let_def split: if_splits)
  have "fe (tag (mem w) (dataIdx (h mod n))) = ?f" using array_slot(7) [OF ck(2,4)] .
  then have can: "can_write ini fin (tag (mem w) (dataIdx (h mod n)))"
    using st(1,2) assms(4) by (cases ini; cases fin) (auto simp: can_write_def)
  have up: "array_cells w' (n, ?s)" if "quiet w'" "nelem (mem w') = nelem (mem w)" "libc_malloc w' = libc_malloc w"
    "array_rep (mem w') ?s" for w'
    using cells_update [OF c that(1,3,2,4)] by blast
  have "(case fin of EMS_TAG_ANY \<Rightarrow> ?f | FE g \<Rightarrow> g) = state_after fin ?f" by (cases fin) simp_all
  with EMSwriteUsingTags_spec [OF ck(1,2) assms(1) ck(3,4) assms(3) can]
  show "(\<exists>w'. array_step fuel nt (OWrite k v ini fin) w = Some (Some out, w') \<and> array_cells w' a') \<or>
      (\<exists>w'. array_step fuel nt (OWrite k v ini fin) w = Some (None, w')) \<and> cell_text (CWrite h d ini fin) (n, st)"
    using st(3,4) up value_ok_text [OF assms(3)] by auto
qed

lemma sim_read:
  assumes "0 < fuel" "key_for k h" "settled f" "settled g"
  shows "simulates fuel nt (ORead k f g) (CRead h f g)"
proof (rule simulatesI)
  have f: "f \<noteq> EMS_TAG_RW_LOCK" using assms(3) by (auto simp: settled_def)
  {
    fix w n st assume "array_cells w (n, st)" "cell_step (CRead h f g) (n, st) = None"
    then show "array_step fuel nt (ORead k f g) w = None"
      using cells_key [of w n st, OF _ assms(2)] f blocked(4) [of w st k h "h mod n" f fuel nt no_value "FE g"]
      by (auto simp: split_beta Let_def split: if_splits)
  }
  fix w n st out a' assume c: "array_cells w (n, st)" and "cell_step (CRead h f g) (n, st) = Some (out, a')"
  then have st: "fst (st (h mod n)) = f" "out = Some (norm_datum (snd (st (h mod n))))"
    "a' = (n, st(h mod n := (g, snd (st (h mod n)))))"
    by (auto simp: split_beta Let_def split: if_splits)
  note ck = cells_key [OF c assms(2)]
  from EMSreadUsingTags_spec [OF ck(1,2) assms(1) ck(3,4) st(1) f, of nt no_value g]
  show "(\<exists>w'. array_step fuel nt (ORead k f g) w = Some (Some out, w') \<and> array_cells w' a') \<or>
      (\<exists>w'. array_step fuel nt (ORead k f g) w = Some (None, w')) \<and> cell_text (CRead h f g) (n, st)"
    using st(2,3) cells_update [OF c] by fastforce
qed

lemma sim_peek:
  assumes "0 < fuel" "key_for k h"
  shows "simulates fuel nt (OPeek k) (CPeek h)"
proof (rule simulatesI)
  fix w n st out a' assume c: "array_cells w (n, st)" and st: "cell_step (CPeek h) (n, st) = Some (out, a')"
  note ck = cells_key [OF c assms(2)]
  have "array_cells w' (n, st)" if "quiet w'" "mem w' = mem w" "libc_malloc w' = libc_malloc w" for w'
    using c that by (auto simp: array_cells.simps)
  with EMSread_spec [OF ck(1,2) assms(1) ck(3,4), of nt no_value]
  show "(\<exists>w'. array_step fuel nt (OPeek k) w = Some (Some out, w') \<and> array_cells w' a') \<or>
      (\<exists>w'. array_step fuel nt (OPeek k) w = Some (None, w')) \<and> cell_text (CPeek h) (n, st)"
    using st by fastforce
qed simp

lemma sim_cas:
  assumes "0 < fuel" "key_for k h" "\<forall>m. value_datum m old = Some e" "value_ok v d"
  shows "simulates fuel nt (OCas k old v) (CCas h e d)"
proof (rule simulatesI)
  fix w n st assume "array_cells w (n, st)" "cell_step (CCas h e d) (n, st) = None"
  then show "array_step fuel nt (OCas k old v) w = None"
    using cells_key [of w n st, OF _ assms(2)] blocked(2) [of w st k h "h mod n" fuel old v no_value]
    by (auto simp: split_beta Let_def split: if_splits)
next
  fix w n st out a' assume c: "array_cells w (n, st)" and st: "cell_step (CCas h e d) (n, st) = Some (out, a')"
  let ?d = "snd (st (h mod n))"
  have st: "fst (st (h mod n)) = EMS_TAG_FULL" "out = Some ?d"
    "a' = (n, st(h mod n := (EMS_TAG_FULL, if ?d = e then d else ?d)))"
    using st by (auto simp: split_beta Let_def split: if_splits)
  note ck = cells_key [OF c assms(2)]
  have up: "array_cells w' a'" if "quiet w'" "libc_malloc w' = libc_malloc w" "nelem (mem w') = nelem (mem w)"
    "array_rep (mem w') (st(h mod n := (EMS_TAG_FULL, if ?d = e then d else ?d)))" for w'
    unfolding st(3) using cells_update [OF c that] .
  from EMScas_spec [OF ck(1,2) assms(1) ck(3,4) st(1) ck(5) assms(3,4), of no_value]
  show "(\<exists>w'. array_step fuel nt (OCas k old v) w = Some (Some out, w') \<and> array_cells w' a') \<or>
      (\<exists>w'. array_step fuel nt (OCas k old v) w = Some (None, w')) \<and> cell_text (CCas h e d) (n, st)"
  proof (elim disjE exE conjE)
    fix u w' assume "EMScas fuel k old v no_value w = Some (True, u, w')" "quiet w'" "libc_malloc w' = libc_malloc w"
      "nelem (mem w') = nelem (mem w)" "value_datum (mem w') u = Some ?d"
      "array_rep (mem w') (st(h mod n := (EMS_TAG_FULL, if ?d = e then d else ?d)))"
    then show ?thesis using up [of w'] st(2) by (intro disjI1 exI [of _ w']) simp
  qed (simp add: value_ok_text [OF assms(4)])
qed

lemma faa_request: "datum_bytes d < 2 ^ 62 \<Longrightarrow> len v < 2 ^ 62 \<Longrightarrow> request_ok (faa_bytes d v)"
  by (cases d) (auto simp: request_ok_def faa_bytes_def MAX_NUMBER2STR_LEN_def faa_suffix_len_def)

lemma sim_faa:
  assumes "0 < fuel" "key_for k h" "value_ok v e" "len v < 2 ^ 62"
  shows "simulates fuel nt (OFaa k v) (CFaa h e)"
proof (rule simulatesI)
  fix w n st assume "array_cells w (n, st)" "cell_step (CFaa h e) (n, st) = None"
  then show "array_step fuel nt (OFaa k v) w = None"
    using cells_key [of w n st, OF _ assms(2)] blocked(3) [of w st k h "h mod n" fuel v no_value]
    by (auto simp: split_beta Let_def split: if_splits)
next
  fix w n st out a' assume c: "array_cells w (n, st)" and st: "cell_step (CFaa h e) (n, st) = Some (out, a')"
    and ok: "cell_ok (CFaa h e) (n, st)"
  let ?d = "snd (st (h mod n))" let ?r = "the (datum_add ?d e)"
  have st: "fst (st (h mod n)) = EMS_TAG_FULL" "out = Some (norm_datum ?d)" "a' = (n, st(h mod n := (EMS_TAG_FULL, ?r)))"
    using st by (auto simp: split_beta Let_def split: if_splits)
  have ok: "datum_add ?d e = Some ?r" "sum_prints ?d e" "datum_bytes ?d < 2 ^ 62"
    using ok by (auto simp: Let_def)
  have n: "request_ok (faa_bytes ?d v)" by (rule faa_request [OF ok(3) assms(4)])
  note ck = cells_key [OF c assms(2)]
  have up: "array_cells w' a'" if "quiet w'" "libc_malloc w' = libc_malloc w" "nelem (mem w') = nelem (mem w)"
    "array_rep (mem w') (st(h mod n := (EMS_TAG_FULL, ?r)))" for w'
    unfolding st(3) using cells_update [OF c that] .
  from EMSfaa_spec [OF ck(1,2) assms(1) ck(3,4) st(1) ck(5) assms(3) ok(1,2) n, of no_value]
  show "(\<exists>w'. array_step fuel nt (OFaa k v) w = Some (Some out, w') \<and> array_cells w' a') \<or>
      (\<exists>w'. array_step fuel nt (OFaa k v) w = Some (None, w')) \<and> cell_text (CFaa h e) (n, st)"
  proof (elim disjE exE conjE)
    fix u w' assume "EMSfaa fuel k v no_value w = Some (True, u, w')" "quiet w'" "libc_malloc w' = libc_malloc w"
      "nelem (mem w') = nelem (mem w)" "value_datum (mem w') u = Some (norm_datum ?d)"
      "array_rep (mem w') (st(h mod n := (EMS_TAG_FULL, ?r)))"
    then show ?thesis using up [of w'] st(2) by (intro disjI1 exI [of _ w']) simp
  qed (auto simp: faa_no_memory_def)
qed

lemma sim_set:
  assumes "key_for k h"
  shows "simulates fuel nt (OSet k b) (CSet h b)"
proof (rule simulatesI)
  fix w n st out a' assume c: "array_cells w (n, st)" and st: "cell_step (CSet h b) (n, st) = Some (out, a')"
  let ?g = "if b then EMS_TAG_FULL else EMS_TAG_EMPTY" let ?a = "dataIdx (h mod n)"
  note ck = cells_key [OF c assms]
  note sl = array_slot [OF ck(2,4)]
  let ?w = "upd (set_fe ?a ?g) w"
  have "EMSsetTag fuel k b w = Some (True, ?w)"
    using unmapped_index(1) [OF sl(1,2) ck(3), of fuel, folded ck(4)] sl(1,3,4) by (simp add: EMSsetTag_def)
  moreover have "array_rep (mem ?w) (st(h mod n := (?g, snd (st (h mod n)))))"
    using array_rep_set_fe [OF ck(2) sl(3,4), of "(tag (mem w) ?a)\<lparr>fe := ?g\<rparr>" ?g] by (simp add: set_fe_def upd_def)
  then have "array_cells ?w (n, st(h mod n := (?g, snd (st (h mod n)))))"
    using ck(1) by (intro cells_update [OF c]) simp_all
  ultimately show "(\<exists>w'. array_step fuel nt (OSet k b) w = Some (Some out, w') \<and> array_cells w' a') \<or>
      (\<exists>w'. array_step fuel nt (OSet k b) w = Some (None, w')) \<and> cell_text (CSet h b) (n, st)"
    using st by auto
qed simp

lemma op_for_simulates: "0 < fuel \<Longrightarrow> op_for x y \<Longrightarrow> simulates fuel nt x y"
  by (cases x; cases y) (auto intro: sim_write sim_read sim_peek sim_cas sim_faa sim_set)

interpretation array: simulation array_cells "array_step (Suc fuel) nt" cell_step op_for cell_ok cell_text for fuel nt
proof
  fix w :: world and a :: cells and x y
  assume a: "array_cells w a" "op_for x y"
  then have s: "simulates (Suc fuel) nt x y" by (intro op_for_simulates) simp_all
  show "(\<exists>w'. array_step (Suc fuel) nt x w = Some (Some out, w') \<and> array_cells w' a') \<or>
      (\<exists>w'. array_step (Suc fuel) nt x w = Some (None, w')) \<and> cell_text y a"
    if "cell_ok y a" "cell_step y a = Some (out, a')" for out a'
    using s [unfolded simulates_def, rule_format, OF a(1)] that by simp
  show "array_step (Suc fuel) nt x w = None \<or>
      (\<exists>w'. array_step (Suc fuel) nt x w = Some (None, w')) \<and> cell_text y a" if "cell_step y a = None"
    using s [unfolded simulates_def, rule_format, OF a(1)] that by simp
qed

section \<open>Property\<close>

text \<open>
  C1: any sequence of writes, reads, compare and swaps, fetch and adds and tag changes by a client
  that is alone on an array gives exactly the results of the same operations on a memory of
  full/empty cells, and waits for ever exactly where that one is stuck, however long it may try.
  It may also stop earlier, at the storing of a text for which the heap has no room; then what it
  got so far is right.
\<close>

theorem EMS_array_refines_cells:
  assumes "array_cells w (n, st)" "list_all2 op_for ops cops" "along cell_step cell_ok cops (n, st)" "0 < fuel"
  shows "crun (array_step fuel newTag) ops w = arun cell_step cops (n, st) \<or>
    (\<exists>outs. crun (array_step fuel newTag) ops w = (outs, Failed) \<and> prefix outs (fst (arun cell_step cops (n, st))) \<and>
       \<not> along cell_step (\<lambda>y a. \<not> cell_text y a) cops (n, st))"
  using array.run_sim [OF assms(1-3), of "fuel - 1" newTag] assms(4) by simp

text \<open>
  A producer and a consumer in one: write 42 into the empty element, add 1, take it out, and try
  to take it out once more.
\<close>

theorem EMS_array_refines_cells_witness:
  "crun (array_step 1000 (byte_tag 0))
     [OWrite (int_value 6) (int_value 42) (FE EMS_TAG_EMPTY) (FE EMS_TAG_FULL),
      OFaa (int_value 6) (int_value 1), ORead (int_value 6) EMS_TAG_FULL EMS_TAG_EMPTY,
      ORead (int_value 6) EMS_TAG_FULL EMS_TAG_EMPTY] (alone (blank_ems 4 2)) =
   ([None, Some (DInt 42), Some (DInt 43)], Blocked)"
proof -
  let ?st = "\<lambda>_. (EMS_TAG_EMPTY, DInt 0)"
  let ?ops = "[OWrite (int_value 6) (int_value 42) (FE EMS_TAG_EMPTY) (FE EMS_TAG_FULL),
      OFaa (int_value 6) (int_value 1), ORead (int_value 6) EMS_TAG_FULL EMS_TAG_EMPTY,
      ORead (int_value 6) EMS_TAG_FULL EMS_TAG_EMPTY]"
  let ?cops = "[CWrite 6 (DInt 42) (FE EMS_TAG_EMPTY) (FE EMS_TAG_FULL), CFaa 6 (DInt 1),
      CRead 6 EMS_TAG_FULL EMS_TAG_EMPTY, CRead 6 EMS_TAG_FULL EMS_TAG_EMPTY]"
  have c: "array_cells (alone (blank_ems 4 2)) (4, ?st)"
    using blank_array [of 4 2] by (simp add: array_cells.simps)
  have k: "key_for (int_value 6) 6" using int_key(1) [of 6] by (simp add: key_for_def)
  have o: "list_all2 op_for ?ops ?cops"
    using k by (simp add: int_value_ok settled_def) (simp add: int_value_def)
  have r: "arun cell_step ?cops (4, ?st) = ([None, Some (DInt 42), Some (DInt 43)], Blocked)" by simp
  have ok: "along cell_step cell_ok ?cops (4, ?st)" "along cell_step (\<lambda>y a. \<not> cell_text y a) ?cops (4, ?st)"
    by simp_all
  have "(0::nat) < 1000" by simp
  from EMS_array_refines_cells [OF c o ok(1) this, of "byte_tag 0"] ok(2) show ?thesis unfolding r by blast
qed

end
