(* ===== verification/EmsNodeFacts.thy ===== *)
theory EmsNodeFacts
  imports EmsNode EmsMemory
begin

text \<open>
  The binding and the arrays together: what a JavaScript program writes to an array and reads back.
\<close>

section \<open>Numbers\<close>

text \<open>What the N-API documents of numbers: an integer that a double holds exactly is converted to itself.\<close>

definition napi_numbers :: "napi \<Rightarrow> bool" where
  "napi_numbers api \<longleftrightarrow> (\<forall>i. \<bar>i\<bar> < 2 ^ 53 \<longrightarrow> to_int64 api (js_int i) = i)"

lemma js_int_inj:
  assumes "js_int i = js_int j" "\<bar>i\<bar> < 2 ^ 53" "\<bar>j\<bar> < 2 ^ 53"
  shows "i = j"
proof -
  have "dbl_of_int i = dbl_of_int j" using assms(1) by (simp add: js_int_def)
  then have "i * 2 ^ 1074 = j * 2 ^ 1074"
    using dbl_of_int_exact [OF assms(2)] dbl_of_int_exact [OF assms(3)] by metis
  then show ?thesis by (subst (asm) mult_cancel_right) simp
qed

lemma js_int_integer:
  assumes "napi_numbers api" "\<bar>i\<bar> < 2 ^ 53"
  shows "IS_INTEGER api (dbl_of_int i)" "to_int64 api (JSNumber (dbl_of_int i)) = i"
proof -
  show i: "to_int64 api (JSNumber (dbl_of_int i)) = i" using assms by (simp add: napi_numbers_def js_int_def)
  have "\<not> dbl_is_nan (dbl_of_int i)" using dbl_of_int_exact [OF assms(2)] by blast
  then show "IS_INTEGER api (dbl_of_int i)" by (simp add: IS_INTEGER_def i dbl_eq_def)
qed

lemma js_int_value:
  assumes "napi_numbers api" "\<bar>i\<bar> < 2 ^ 53"
  shows "NAPI_OBJ_2_EMS_OBJ api (js_int i) sj = Inr (int_value i)"
  using js_int_integer [OF assms] by (simp add: js_int_def int_value_def EMS_VALUE_TYPE_INITIALIZER_def)

section \<open>Values\<close>

text \<open>What an element holds for a JavaScript value, and what JavaScript is given for a datum.\<close>

fun js_stored :: "napi \<Rightarrow> js \<Rightarrow> datum option" where
  "js_stored api (JSNumber b) =
     Some (if IS_INTEGER api b then DInt (to_int64 api (JSNumber b)) else DFloat b)"
| "js_stored api (JSString s) = (if length s < 2 ^ 62 then Some (DStr (c_str s)) else None)"
| "js_stored api (JSBool x) = Some (DBool (if x then 1 else 0))"
| "js_stored api JSUndefined = Some DUndef"
| "js_stored api _ = None"

fun datum_js :: "datum \<Rightarrow> js" where
  "datum_js (DBool i) = JSBool (i \<noteq> 0)"
| "datum_js (DInt i) = js_int (wrap32 i)"
| "datum_js (DFloat b) = JSNumber b"
| "datum_js (DStr s) = JSString s"
| "datum_js (DJson s) = JSObject [(''data'', JSString s)]"
| "datum_js DUndef = JSUndefined"

lemma js_value:
  assumes "js_stored api j = Some d"
  obtains v where "NAPI_OBJ_2_EMS_OBJ api j False = Inr v" "value_ok v d" "is_text (vtype v) \<longleftrightarrow> (\<exists>s. j = JSString s)"
proof -
  have len: "length (c_str s) \<le> length s" for s by (simp add: c_str_def length_takeWhile_le)
  show thesis
  proof (cases j)
    case (JSString s)
    then have "length s < 2 ^ 62" "d = DStr (c_str s)" using assms by (simp_all split: if_splits)
    with JSString len [of s] show thesis
      by (intro that) (auto simp: value_ok_def local_key_def value_datum_def is_text_def request_ok_def)
  qed (use assms that in \<open>auto simp: value_ok_def local_key_def value_datum_def is_text_def request_ok_def
      EMS_VALUE_TYPE_INITIALIZER_def split: if_splits\<close>)
qed

lemma ems2napi_datum:
  assumes "value_datum m v = Some d"
  shows "ems2napiReturnValue m v = Some (Inr (datum_js d))"
  using assms by (cases "vtype v") (auto simp: value_datum_def ems2napiReturnValue_def)

section \<open>Writing and reading back\<close>

lemma node_write_read:
  assumes api: "napi_numbers api" and c: "array_cells w (n, st)" and fuel: "0 < fuel"
    and k: "0 \<le> k" "k < 2 ^ 53" and idle: "fst (st (k mod n)) \<noteq> EMS_TAG_BUSY" and j: "js_stored api j = Some d"
  shows "(\<exists>w'. NodeJSwriteXF api fuel [js_int k, j] w = Some (Inr (JSBool False), w') \<and> (\<exists>s. j = JSString s)) \<or>
    (\<exists>w' w''. NodeJSwriteXF api fuel [js_int k, j] w = Some (Inr (JSBool True), w') \<and>
       NodeJSreadFF api fuel newTag [js_int k] w' = Some (Inr (datum_js (norm_datum d)), w'') \<and>
       array_cells w'' (n, st(k mod n := (EMS_TAG_FULL, d))))"
proof -
  let ?k = "int_value k" let ?st = "st(k mod n := (EMS_TAG_FULL, d))"
  have "\<bar>k\<bar> < 2 ^ 53" using k by simp
  note kv = js_int_value [OF api this]
  have key: "key_for ?k k" using k by (simp add: key_for_def int_key)
  from j obtain v where v: "NAPI_OBJ_2_EMS_OBJ api j False = Inr v" "value_ok v d" "is_text (vtype v) \<longleftrightarrow> (\<exists>s. j = JSString s)"
    by (rule js_value)
  have wr: "NodeJSwriteXF api fuel [js_int k, j] w = node_flag (EMSwriteXF fuel ?k v w)"
    by (simp add: NodeJSwriteXF_def key_arg_def value_arg_def info_arg_def kv v(1) pending_def option.map_ident split_beta')
  note ck = cells_key [OF c key]
  have "fe (tag (mem w) (dataIdx (k mod n))) = fst (st (k mod n))" using array_slot(7) [OF ck(2,4)] .
  then have can: "can_write EMS_TAG_ANY (FE EMS_TAG_FULL) (tag (mem w) (dataIdx (k mod n)))"
    using idle by (simp add: can_write_def)
  from EMSwriteUsingTags_spec [OF ck(1,2) fuel ck(3,4) v(2) can] show ?thesis
  proof (elim disjE exE conjE)
    fix w' assume "EMSwriteUsingTags fuel ?k v EMS_TAG_ANY (FE EMS_TAG_FULL) w = Some (False, w')" "is_text (vtype v)"
    then show ?thesis using v(3) by (intro disjI1) (simp add: wr EMSwriteXF_def node_flag_def)
  next
    fix w' assume w': "EMSwriteUsingTags fuel ?k v EMS_TAG_ANY (FE EMS_TAG_FULL) w = Some (True, w')" "quiet w'"
      "nelem (mem w') = nelem (mem w)" "libc_malloc w' = libc_malloc w"
      "array_rep (mem w') (st(k mod n := (case FE EMS_TAG_FULL of EMS_TAG_ANY \<Rightarrow> fst (st (k mod n)) | FE g \<Rightarrow> g, d)))"
    then have ar: "array_rep (mem w') ?st" by simp
    have c': "array_cells w' (n, ?st)"
      using cells_update [OF c w'(2,4,3) ar] .
    note ck' = cells_key [OF c' key]
    have full: "fst (?st (k mod n)) = EMS_TAG_FULL" "snd (?st (k mod n)) = d" by simp_all
    have idem: "?st(k mod n := (EMS_TAG_FULL, d)) = ?st" by simp
    from EMSreadUsingTags_spec [OF ck'(1,2) fuel ck'(3,4) full(1), of newTag EMS_VALUE_TYPE_INITIALIZER EMS_TAG_FULL,
        unfolded full(2) idem]
    obtain u w'' where r: "EMSreadFF fuel newTag ?k EMS_VALUE_TYPE_INITIALIZER w' = Some (True, u, w'')" "quiet w''"
      "libc_malloc w'' = libc_malloc w'" "nelem (mem w'') = nelem (mem w')" "array_rep (mem w'') ?st"
      "value_datum (mem w'') u = Some (norm_datum d)" unfolding EMSreadFF_def by blast
    have "array_cells w'' (n, ?st(k mod n := (EMS_TAG_FULL, d)))"
      using r(5) by (intro cells_update [OF c' r(2,3,4)]) (simp add: idem)
    then have "array_cells w'' (n, ?st)" unfolding idem .
    moreover have "NodeJSreadFF api fuel newTag [js_int k] w' = Some (Inr (datum_js (norm_datum d)), w'')"
      using r(1) ems2napi_datum [OF r(6)]
      by (simp add: NodeJSreadFF_def key_arg_def info_arg_def kv node_value_def pending_def)
    ultimately show ?thesis using w'(1) by (simp add: wr EMSwriteXF_def node_flag_def)
  qed
qed

text \<open>The values that come back as they were.\<close>

fun js_exact :: "napi \<Rightarrow> js \<Rightarrow> bool" where
  "js_exact api (JSNumber b) \<longleftrightarrow> \<not> IS_INTEGER api b \<or> (\<exists>i. b = dbl_of_int i \<and> - (2 ^ 31) \<le> i \<and> i < 2 ^ 31)"
| "js_exact api (JSString s) \<longleftrightarrow> NUL \<notin> set s \<and> length s < 2 ^ 62"
| "js_exact api (JSBool x) \<longleftrightarrow> True"
| "js_exact api JSUndefined \<longleftrightarrow> True"
| "js_exact api _ \<longleftrightarrow> False"

lemma js_exact_back:
  assumes "napi_numbers api" "js_exact api j"
  shows "\<exists>d. js_stored api j = Some d \<and> datum_js (norm_datum d) = j"
proof (cases j)
  case (JSNumber b)
  show ?thesis
  proof (cases "IS_INTEGER api b")
    case True
    then obtain i where i: "b = dbl_of_int i" "- (2 ^ 31) \<le> i" "i < 2 ^ 31" using assms(2) JSNumber by auto
    then have "\<bar>i\<bar> < 2 ^ 53" by simp
    from js_int_integer [OF assms(1) this] JSNumber i True show ?thesis by (simp add: js_int_def)
  qed (simp add: JSNumber)
qed (use assms(2) in \<open>auto simp: c_str_id\<close>)

section \<open>Properties\<close>

text \<open>
  C16: a boolean, undefined, a number that is no integer, an integer of 32 bits or a text without
  NUL that a JavaScript program writes to an array is what it reads back under the same key, and
  no other element changes; the element must not be locked. The only other outcome is \<open>false\<close>
  for a text there is no room for.
  (The N-API converts integers that a double holds exactly to themselves.)
\<close>

theorem NodeJS_write_read:
  assumes "napi_numbers api" "array_cells w (n, st)" "0 < fuel" "0 \<le> k" "k < 2 ^ 53"
    and "fst (st (k mod n)) \<noteq> EMS_TAG_BUSY" "js_exact api j"
  shows "(\<exists>w'. NodeJSwriteXF api fuel [js_int k, j] w = Some (Inr (JSBool False), w') \<and> (\<exists>s. j = JSString s)) \<or>
    (\<exists>w' w'' d. NodeJSwriteXF api fuel [js_int k, j] w = Some (Inr (JSBool True), w') \<and>
       NodeJSreadFF api fuel newTag [js_int k] w' = Some (Inr j, w'') \<and>
       array_cells w'' (n, st(k mod n := (EMS_TAG_FULL, d))))"
proof -
  from js_exact_back [OF assms(1,7)] obtain d where d: "js_stored api j = Some d" "datum_js (norm_datum d) = j" by blast
  from node_write_read [OF assms(1-6) d(1), of newTag] show ?thesis unfolding d(2) by blast
qed

text \<open>An N-API that does what is documented, and an array of four elements.\<close>

definition sample_napi :: napi where
  "sample_napi =
     \<lparr>to_int64 = (\<lambda>x. case x of JSNumber b \<Rightarrow> dbl_units b div 2 ^ 1074 | _ \<Rightarrow> 0),
      to_int32 = (\<lambda>x. case x of JSNumber b \<Rightarrow> wrap32 (dbl_units b div 2 ^ 1074) | _ \<Rightarrow> 0),
      to_bool = (\<lambda>x. x = JSBool True), to_utf8 = (\<lambda>x. case x of JSString s \<Rightarrow> s | _ \<Rightarrow> [])\<rparr>"

lemma sample_napi_numbers: "napi_numbers sample_napi"
  unfolding napi_numbers_def
proof (intro allI impI)
  fix i :: int assume "\<bar>i\<bar> < 2 ^ 53"
  then have "dbl_units (dbl_of_int i) = i * 2 ^ 1074" using dbl_of_int_exact by blast
  then show "to_int64 sample_napi (js_int i) = i" by (simp only: sample_napi_def js_int_def napi.simps js.simps) simp
qed

lemma blank_cells: "array_cells (alone (blank_ems 4 2)) (4, \<lambda>_. (EMS_TAG_EMPTY, DInt 0))"
  using blank_array [of 4 2] by (simp add: array_cells.simps)

theorem NodeJS_write_read_witness:
  "\<exists>w' w''. NodeJSwriteXF sample_napi 1 [js_int 6, js_int (- 5)] (alone (blank_ems 4 2)) = Some (Inr (JSBool True), w') \<and>
     NodeJSreadFF sample_napi 1 (byte_tag 0) [js_int 6] w' = Some (Inr (js_int (- 5)), w'')"
proof -
  have "js_exact sample_napi (js_int (- 5))" by (auto simp: js_int_def intro!: exI [of _ "- 5"])
  moreover have "js_int (- 5) \<noteq> JSString s" for s by (simp add: js_int_def)
  ultimately show ?thesis
    using NodeJS_write_read [OF sample_napi_numbers blank_cells, of 1 6 "js_int (- 5)" "byte_tag 0"] by auto
qed

text \<open>
  C37: an integer outside of 32 bits is stored as it is, but comes back as another number, its low
  32 bits read as a signed integer.
\<close>

theorem NodeJS_integer_truncated:
  assumes "napi_numbers api" "array_cells w (n, st)" "0 < fuel" "0 \<le> k" "k < 2 ^ 53"
    and "fst (st (k mod n)) \<noteq> EMS_TAG_BUSY" "\<bar>i\<bar> < 2 ^ 53" "i < - (2 ^ 31) \<or> 2 ^ 31 \<le> i"
  shows "\<exists>w' w''. NodeJSwriteXF api fuel [js_int k, js_int i] w = Some (Inr (JSBool True), w') \<and>
    NodeJSreadFF api fuel newTag [js_int k] w' = Some (Inr (js_int (wrap32 i)), w'') \<and>
    array_cells w'' (n, st(k mod n := (EMS_TAG_FULL, DInt i))) \<and> js_int (wrap32 i) \<noteq> js_int i"
proof -
  have d: "js_stored api (js_int i) = Some (DInt i)" using js_int_integer [OF assms(1,7)] by (simp add: js_int_def)
  have r: "- (2 ^ 31) \<le> wrap32 i" "wrap32 i < 2 ^ 31" using wrap32_range [of i] by blast+
  then have "\<bar>wrap32 i\<bar> < 2 ^ 53" "wrap32 i \<noteq> i" using assms(8) by auto
  then have "js_int (wrap32 i) \<noteq> js_int i" using js_int_inj assms(7) by blast
  moreover have "js_int i \<noteq> JSString s" for s by (simp add: js_int_def)
  ultimately show ?thesis using node_write_read [OF assms(1-6) d, of newTag] by auto
qed

theorem NodeJS_integer_truncated_witness:
  "\<exists>w' w''. NodeJSwriteXF sample_napi 1 [js_int 6, js_int (2 ^ 31)] (alone (blank_ems 4 2)) = Some (Inr (JSBool True), w') \<and>
     NodeJSreadFF sample_napi 1 (byte_tag 0) [js_int 6] w' = Some (Inr (js_int (- (2 ^ 31))), w'')"
  using NodeJS_integer_truncated [OF sample_napi_numbers blank_cells, of 1 6 "2 ^ 31" "byte_tag 0"]
  by (auto simp: wrap32_def)

end
