(* ===== verification/EmsTable.thy ===== *)
theory EmsTable
  imports EmsMemory
begin

text \<open>
  The index map as an abstract hash table with open addressing: which keys may stand where, and
  what a table of keys beside a table of cells says of a dictionary from keys to cells.
\<close>

section \<open>Keys\<close>

text \<open>
  The keys of a dictionary and the index where the search of a key starts. A double is found again
  unless it is a NaN; the bits of minus zero have no absolute value in 64 bits.
\<close>

fun key_hash :: "datum \<Rightarrow> int" where
  "key_hash (DBool b) = (if b \<noteq> 0 then 1 else 0)"
| "key_hash (DInt i) = llabs i"
| "key_hash (DFloat x) = llabs x"
| "key_hash (DStr s) = EMShashString s"
| "key_hash _ = 0"

fun is_key :: "datum \<Rightarrow> bool" where
  "is_key (DBool b) \<longleftrightarrow> b = 0 \<or> b = 1"
| "is_key (DInt i) \<longleftrightarrow> \<bar>i\<bar> < 2 ^ 63"
| "is_key (DFloat x) \<longleftrightarrow> \<bar>x\<bar> < 2 ^ 63 \<and> \<not> dbl_is_nan x"
| "is_key (DStr s) \<longleftrightarrow> NUL \<notin> set s \<and> 0 \<le> EMShashString s"
| "is_key _ \<longleftrightarrow> False"

lemma is_key_not_undef [simp]: "is_key DUndef \<longleftrightarrow> False" "is_key k \<Longrightarrow> k \<noteq> DUndef"
  by auto

lemma key_hash_nonneg: "is_key k \<Longrightarrow> 0 \<le> key_hash k"
  by (cases k) (auto simp: llabs_def)

text \<open>Among these keys the equality of doubles is that of their bits.\<close>

lemma dbl_eq_key:
  assumes "is_key (DFloat x)" "is_key (DFloat y)"
  shows "dbl_eq x y \<longleftrightarrow> x = y"
proof -
  have r: "\<bar>x\<bar> < 2 ^ 63" "\<bar>y\<bar> < 2 ^ 63" using assms by simp_all
  have zero: "dbl_is_zero z \<longleftrightarrow> z = 0" if "\<bar>z\<bar> < 2 ^ 63" for z
  proof
    assume "dbl_is_zero z"
    then have "2 ^ 63 dvd z" by (simp add: dbl_is_zero_def mod_eq_0_iff_dvd)
    then show "z = 0" using that zdvd_imp_le [of "2 ^ 63" "\<bar>z\<bar>"] by force
  qed (simp add: dbl_is_zero_def)
  have "x = y" if "x mod 2 ^ 64 = y mod 2 ^ 64"
  proof -
    have "2 ^ 64 dvd \<bar>x - y\<bar>" using that by (simp add: mod_eq_dvd_iff)
    then show ?thesis using r zdvd_imp_le [of "2 ^ 64" "\<bar>x - y\<bar>"] by force
  qed
  then show ?thesis using assms zero [OF r(1)] zero [OF r(2)] by (auto simp: dbl_eq_def)
qed

section \<open>Placement\<close>

text \<open>\<open>K j\<close> is the key in the entry \<open>j\<close>, undefined in an unused one.\<close>

definition probe :: "int \<Rightarrow> datum \<Rightarrow> nat \<Rightarrow> int" where
  "probe n k d = (key_hash k + int d) mod n"

definition unused :: "(int \<Rightarrow> datum option) \<Rightarrow> int \<Rightarrow> bool" where
  "unused K j \<longleftrightarrow> K j = Some DUndef"

definition placed :: "int \<Rightarrow> (int \<Rightarrow> datum option) \<Rightarrow> datum \<Rightarrow> nat \<Rightarrow> bool" where
  "placed n K k d \<longleftrightarrow> K (probe n k d) = Some k \<and>
     (\<forall>e < d. K (probe n k e) \<noteq> Some k \<and> \<not> unused K (probe n k e))"

text \<open>The first unused entry of the probe sequence of a key that is not there.\<close>

definition vacancy :: "int \<Rightarrow> (int \<Rightarrow> datum option) \<Rightarrow> datum \<Rightarrow> nat \<Rightarrow> bool" where
  "vacancy n K k d \<longleftrightarrow> unused K (probe n k d) \<and> (\<forall>e < d. \<not> unused K (probe n k e))"

lemma probe_range: "0 < n \<Longrightarrow> 0 \<le> probe n k d \<and> probe n k d < n"
  by (simp add: probe_def)

section \<open>Tables and dictionaries\<close>

text \<open>
  The entries with keys \<open>K\<close> and the cells \<open>C\<close> beside them stand for the dictionary \<open>D\<close>; a cell
  whose entry is unused is the blank cell \<open>c0\<close>.
\<close>

type_synonym cell = "fe_state \<times> datum"
type_synonym dict = "datum \<Rightarrow> cell option"

definition table_of :: "int \<Rightarrow> cell \<Rightarrow> (int \<Rightarrow> datum option) \<Rightarrow> (int \<Rightarrow> cell option) \<Rightarrow> dict \<Rightarrow> bool" where
  "table_of n c0 K C D \<longleftrightarrow> 1 < n \<and>
     (\<forall>j. 0 \<le> j \<longrightarrow> j < n \<longrightarrow>
        (unused K j \<and> C j = Some c0 \<or>
         (\<exists>k d. is_key k \<and> d < MAX_OPEN_HASH_STEPS \<and> probe n k d = j \<and> placed n K k d \<and> D k = C j)) \<and>
        (\<exists>c. C j = Some c \<and> settled (fst c))) \<and>
     (\<forall>k. D k \<noteq> None \<longrightarrow> is_key k \<and> (\<exists>j. 0 \<le> j \<and> j < n \<and> K j = Some k))"

lemma table_entry:
  assumes "table_of n c0 K C D" "0 \<le> j" "j < n" "K j = Some k" "k \<noteq> DUndef"
  obtains d where "is_key k" "d < MAX_OPEN_HASH_STEPS" "probe n k d = j" "placed n K k d" "D k = C j"
proof -
  from assms(1-3) have "unused K j \<and> C j = Some c0 \<or>
      (\<exists>k d. is_key k \<and> d < MAX_OPEN_HASH_STEPS \<and> probe n k d = j \<and> placed n K k d \<and> D k = C j)"
    unfolding table_of_def by blast
  then obtain k' d where k': "is_key k'" "d < MAX_OPEN_HASH_STEPS" "probe n k' d = j" "placed n K k' d" "D k' = C j"
    using assms(4,5) unfolding unused_def by auto
  then have "k' = k" using assms(4) unfolding placed_def by simp
  with k' that show thesis by blast
qed

lemma table_found:
  assumes "table_of n c0 K C D" "D k = Some c"
  obtains d where "is_key k" "d < MAX_OPEN_HASH_STEPS" "placed n K k d" "C (probe n k d) = Some c"
proof -
  from assms obtain j where j: "0 \<le> j" "j < n" "K j = Some k" and "is_key k" unfolding table_of_def by blast
  then have "k \<noteq> DUndef" by auto
  from table_entry [OF assms(1) j this] assms(2) that show thesis by metis
qed

lemma table_absent:
  assumes "table_of n c0 K C D" "D k = None" "is_key k" "0 \<le> j" "j < n"
  shows "K j \<noteq> Some k"
proof
  assume "K j = Some k"
  moreover have "k \<noteq> DUndef" using assms(3) by auto
  ultimately obtain d where "D k = C j" using table_entry [OF assms(1,4,5)] by metis
  then show False using assms(1,2,4,5) unfolding table_of_def by (metis option.distinct(1))
qed

lemma table_cell: "table_of n c0 K C D \<Longrightarrow> 0 \<le> j \<Longrightarrow> j < n \<Longrightarrow> \<exists>c. C j = Some c \<and> settled (fst c)"
  unfolding table_of_def by blast

lemma table_cong:
  assumes "table_of n c0 K C D" "\<And>j. 0 \<le> j \<Longrightarrow> j < n \<Longrightarrow> K' j = K j" "\<And>j. 0 \<le> j \<Longrightarrow> j < n \<Longrightarrow> C' j = C j"
  shows "table_of n c0 K' C' D"
proof -
  have n: "0 < n" using assms(1) by (simp add: table_of_def)
  have K: "K' (probe n k d) = K (probe n k d)" for k d using probe_range [OF n] assms(2) by blast
  then have "placed n K' k d = placed n K k d" for k d by (simp add: placed_def unused_def)
  with assms show ?thesis unfolding table_of_def unused_def by metis
qed

text \<open>A cell overwritten.\<close>

lemma table_update:
  assumes t: "table_of n c0 K C D" and p: "placed n K k d" "d < MAX_OPEN_HASH_STEPS" "is_key k" and s: "settled (fst c)"
  shows "table_of n c0 K (C(probe n k d := Some c)) (D(k := Some c))"
proof -
  let ?j = "probe n k d"
  have n: "0 < n" using t by (simp add: table_of_def)
  have j: "0 \<le> ?j" "?j < n" "K ?j = Some k" using probe_range [OF n] p(1) by (simp_all add: placed_def)
  have "(unused K i \<and> (C(?j := Some c)) i = Some c0 \<or>
         (\<exists>k' d'. is_key k' \<and> d' < MAX_OPEN_HASH_STEPS \<and> probe n k' d' = i \<and> placed n K k' d' \<and>
            (D(k := Some c)) k' = (C(?j := Some c)) i)) \<and>
        (\<exists>c'. (C(?j := Some c)) i = Some c' \<and> settled (fst c'))" if i: "0 \<le> i" "i < n" for i
  proof (cases "i = ?j")
    case True
    then show ?thesis using p s by auto
  next
    case False
    from t i consider "unused K i" "C i = Some c0"
      | k' d' where "is_key k'" "d' < MAX_OPEN_HASH_STEPS" "probe n k' d' = i" "placed n K k' d'" "D k' = C i"
      unfolding table_of_def by blast
    then show ?thesis
    proof cases
      case 1
      then show ?thesis using False table_cell [OF t i] by simp
    next
      case (2 k' d')
      have "k' \<noteq> k"
      proof
        assume "k' = k"
        then have "d' = d" using 2(4) p(1) unfolding placed_def by (metis linorder_neqE_nat)
        then show False using 2(3) \<open>k' = k\<close> False by simp
      qed
      then show ?thesis using 2 False table_cell [OF t i] by auto
    qed
  qed
  moreover have "is_key k' \<and> (\<exists>i. 0 \<le> i \<and> i < n \<and> K i = Some k')" if "(D(k := Some c)) k' \<noteq> None" for k'
    using that t j p(3) unfolding table_of_def by (cases "k' = k") auto
  ultimately show ?thesis using t unfolding table_of_def by blast
qed

text \<open>A key added in the first unused entry of its probe sequence.\<close>

lemma table_insert:
  assumes t: "table_of n c0 K C D" and v: "vacancy n K k d" "d < MAX_OPEN_HASH_STEPS" "is_key k" and D: "D k = None"
  shows "table_of n c0 (K(probe n k d := Some k)) C (D(k := Some c0))" "placed n (K(probe n k d := Some k)) k d"
proof -
  let ?j = "probe n k d" let ?K = "K(probe n k d := Some k)"
  have n: "0 < n" using t by (simp add: table_of_def)
  have j: "0 \<le> ?j" "?j < n" "unused K ?j" using probe_range [OF n] v(1) by (simp_all add: vacancy_def)
  have nk: "K i \<noteq> Some k" if "0 \<le> i" "i < n" for i using table_absent [OF t D v(3) that] .
  have "k \<noteq> DUndef" using v(3) by auto
  then show self: "placed n ?K k d"
    using v(1) nk probe_range [OF n] unfolding placed_def vacancy_def unused_def by auto
  have keep: "placed n ?K k' d'" if "placed n K k' d'" "is_key k'" for k' d'
  proof -
    have "probe n k' d' \<noteq> ?j" using that j(3) unfolding placed_def unused_def by auto
    moreover have "probe n k' e \<noteq> ?j" if "e < d'" for e
      using that \<open>placed n K k' d'\<close> j(3) unfolding placed_def by auto
    ultimately show ?thesis using that(1) unfolding placed_def unused_def by simp
  qed
  have Cj: "C ?j = Some c0"
    using t j unfolding table_of_def placed_def unused_def by (metis is_key_not_undef(1) option.inject)
  have "(unused ?K i \<and> C i = Some c0 \<or>
         (\<exists>k' d'. is_key k' \<and> d' < MAX_OPEN_HASH_STEPS \<and> probe n k' d' = i \<and> placed n ?K k' d' \<and> (D(k := Some c0)) k' = C i))"
    if i: "0 \<le> i" "i < n" for i
  proof (cases "i = ?j")
    case True
    then show ?thesis using self v Cj by auto
  next
    case False
    from t i consider "unused K i" "C i = Some c0"
      | k' d' where "is_key k'" "d' < MAX_OPEN_HASH_STEPS" "probe n k' d' = i" "placed n K k' d'" "D k' = C i"
      unfolding table_of_def by blast
    then show ?thesis
    proof cases
      case 1
      then show ?thesis using False by (simp add: unused_def)
    next
      case (2 k' d')
      then have "k' \<noteq> k" using nk [OF i] by (auto simp: placed_def)
      then show ?thesis using 2 keep [OF 2(4,1)] by auto
    qed
  qed
  moreover have "is_key k' \<and> (\<exists>i. 0 \<le> i \<and> i < n \<and> ?K i = Some k')" if k': "(D(k := Some c0)) k' \<noteq> None" for k'
  proof (cases "k' = k")
    case True
    then show ?thesis using j v(3) by (intro conjI exI [of _ ?j]) simp_all
  next
    case False
    then obtain c where "D k' = Some c" using k' by (auto simp del: split_paired_Ex)
    from table_found [OF t this] obtain d' where d': "is_key k'" "placed n K k' d'" by metis
    then have "?K (probe n k' d') = Some k'" using keep [OF d'(2,1)] by (simp only: placed_def)
    then show ?thesis using d'(1) probe_range [OF n, of k' d'] by blast
  qed
  moreover have "1 < n" using t by (simp add: table_of_def)
  ultimately show "table_of n c0 ?K C (D(k := Some c0))" using table_cell [OF t] unfolding table_of_def by blast
qed

section \<open>Capacity\<close>

text \<open>With fewer keys than entries that are probed, a new key has a vacancy.\<close>

lemma table_vacancy:
  assumes t: "table_of n c0 K C D" and k: "card (dom D) < nat (min n (int MAX_OPEN_HASH_STEPS))"
  shows "\<exists>d < MAX_OPEN_HASH_STEPS. vacancy n K k d"
proof -
  let ?b = "nat (min n (int MAX_OPEN_HASH_STEPS))"
  have n: "0 < n" using t by (simp add: table_of_def)
  have "\<exists>d < ?b. unused K (probe n k d)"
  proof (rule ccontr)
    assume none: "\<not> ?thesis"
    let ?f = "\<lambda>d. the (K (probe n k d))"
    have key: "K (probe n k d) = Some (?f d) \<and> ?f d \<in> dom D" if d: "d < ?b" for d
    proof -
      let ?j = "probe n k d"
      have j: "0 \<le> ?j" "?j < n" using probe_range [OF n] by simp_all
      have "\<not> unused K ?j" using none d by blast
      then obtain k' e where "placed n K k' e" "probe n k' e = ?j" "D k' = C ?j"
        using t j unfolding table_of_def by metis
      moreover obtain c where "C ?j = Some c" using table_cell [OF t j] by blast
      ultimately show ?thesis by (auto simp: placed_def)
    qed
    have "inj_on ?f {..<?b}"
    proof (rule inj_onI)
      fix d e assume de: "d \<in> {..<?b}" "e \<in> {..<?b}" "?f d = ?f e"
      let ?x = "?f d"
      have K: "K (probe n k d) = Some ?x" "K (probe n k e) = Some ?x" using key [of d] key [of e] de by simp_all
      have "?x \<noteq> DUndef" using none de(1) K(1) by (auto simp: unused_def)
      have pr: "0 \<le> probe n k d" "probe n k d < n" "0 \<le> probe n k e" "probe n k e < n" using probe_range [OF n] by simp_all
      obtain a where a: "probe n ?x a = probe n k d" "placed n K ?x a"
        using table_entry [OF t pr(1,2) K(1) \<open>?x \<noteq> DUndef\<close>] by metis
      obtain b where b: "probe n ?x b = probe n k e" "placed n K ?x b"
        using table_entry [OF t pr(3,4) K(2) \<open>?x \<noteq> DUndef\<close>] by metis
      have "a = b" using a(2) b(2) unfolding placed_def by (metis linorder_neqE_nat)
      then have "(key_hash k + int d) mod n = (key_hash k + int e) mod n" using a(1) b(1) by (simp add: probe_def)
      then have "int d mod n = int e mod n" by (metis add_diff_cancel_left' mod_diff_cong)
      then show "d = e" using de(1,2) by simp
    qed
    moreover have "?f ` {..<?b} \<subseteq> dom D" using key by auto
    moreover have "finite (dom D)"
    proof (rule finite_subset)
      show "dom D \<subseteq> (\<lambda>j. the (K j)) ` {0..<n}" using t unfolding table_of_def by force
    qed simp
    ultimately have "card {..<?b} \<le> card (dom D)" by (metis card_inj_on_le)
    then show False using k by simp
  qed
  then obtain d where d: "d < ?b" "unused K (probe n k d)" by blast
  let ?d = "LEAST d. unused K (probe n k d)"
  have "vacancy n K k ?d" unfolding vacancy_def using LeastI [of "\<lambda>d. unused K (probe n k d)"] d(2) not_less_Least by blast
  moreover have "?d \<le> d" using d(2) by (rule Least_le)
  ultimately show ?thesis using d(1) by (intro exI [of _ ?d]) auto
qed

end
