(* ===== verification/EmsDict.thy ===== *)
theory EmsDict
  imports EmsTable
begin

text \<open>
  A mapped array as a whole: its index map (\<open>EMSwriteIndexMap\<close>, \<open>EMSkey2index\<close>) and its elements
  together are a dictionary from keys to full/empty cells.
\<close>

section \<open>The array stands for a dictionary\<close>

definition map_slots :: "ems \<Rightarrow> nat set" where
  "map_slots m = mapIdx m ` {0..<nelem m}"

definition all_texts :: "ems \<Rightarrow> nat set" where
  "all_texts m = texts m (data_slots m \<union> map_slots m)"

definition map_keys :: "ems \<Rightarrow> int \<Rightarrow> datum option" where
  "map_keys m j = slot_datum m (mapIdx m j)"

definition map_cells :: "ems \<Rightarrow> int \<Rightarrow> cell option" where
  "map_cells m j = map_option (Pair (fe (tag m (dataIdx j)))) (slot_datum m (dataIdx j))"

type_synonym dictionary = "int \<times> cell \<times> dict"

fun dict_rep :: "ems \<Rightarrow> dictionary \<Rightarrow> bool" where
  "dict_rep m (n, c0, D) \<longleftrightarrow> map_ok m \<and> nelem m = n \<and> owned m (all_texts m) \<and>
     table_of n c0 (map_keys m) (map_cells m) D"

declare dict_rep.simps [simp del]

lemma dict_repD:
  assumes "dict_rep m (n, c0, D)"
  shows "map_ok m" "nelem m = n" "owned m (all_texts m)" "table_of n c0 (map_keys m) (map_cells m) D"
    "1 < n" "EMSisMapped m"
  using assms by (simp_all add: dict_rep.simps map_ok_def table_of_def)

section \<open>Keys\<close>

definition dict_key :: "EMSvalueType \<Rightarrow> datum \<Rightarrow> bool" where
  "dict_key k \<kappa> \<longleftrightarrow> value_ok k \<kappa> \<and> is_key \<kappa>"

lemma dict_key_type:
  assumes "dict_key k \<kappa>"
  shows "(\<exists>b. vtype k = EMS_TYPE_BOOLEAN \<and> val k = PInt b \<and> \<kappa> = DBool b) \<or>
    (\<exists>i. vtype k = EMS_TYPE_INTEGER \<and> val k = PInt i \<and> \<kappa> = DInt i) \<or>
    (\<exists>i. vtype k = EMS_TYPE_FLOAT \<and> val k = PInt i \<and> \<kappa> = DFloat i) \<or>
    (\<exists>s. vtype k = EMS_TYPE_STRING \<and> (\<forall>m. cstring m (val k) = Some s) \<and> \<kappa> = DStr s)"
proof -
  have v: "value_datum m k = Some \<kappa>" for m using assms by (simp add: dict_key_def value_ok_def)
  have p: "\<exists>i. val k = PInt i" if "as_int64 (val k) = Some x" for x using that by (cases "val k") auto
  show ?thesis
  proof (cases "vtype k")
    case EMS_TYPE_STRING
    with v have c: "map_option DStr (cstring m (val k)) = Some \<kappa>" for m by (simp add: value_datum_def)
    from c [of undefined] obtain s where "\<kappa> = DStr s" by auto
    with c EMS_TYPE_STRING show ?thesis by simp
  qed (use v [of undefined] p assms in \<open>auto simp: value_datum_def dict_key_def\<close>)
qed

lemma dict_key_facts:
  assumes "dict_key k \<kappa>"
  shows "key_ok m k (key_hash \<kappa>)" "self_equal k" "local_key k" "request_ok (len k + 1)"
    "\<forall>s. cstring m (val k) = Some s \<longrightarrow> vtype k = EMS_TYPE_STRING \<longrightarrow> length s \<le> len k" "0 \<le> key_hash \<kappa>"
    "vtype k = EMS_TYPE_STRING \<longleftrightarrow> text_datum \<kappa>" "is_key \<kappa>"
  using assms dict_key_type [OF assms] key_hash_nonneg [of \<kappa>]
  by (auto simp: key_ok_def key_home_def dict_key_def value_ok_def self_equal_def llabs_def)

lemma dict_key_len:
  assumes "dict_key k \<kappa>"
  shows "\<forall>s. cstring m (val k) = Some s \<longrightarrow> length s \<le> len k"
  using dict_key_type [OF assms] dict_key_facts(5) [OF assms] by auto

lemma dict_keys:
  assumes "dict_rep m (n, c0, D)" "0 \<le> j" "j < n"
  shows "map_keys m j = Some DUndef \<or> (\<exists>\<kappa>. is_key \<kappa> \<and> map_keys m j = Some \<kappa>)"
  using dict_repD(4) [OF assms(1)] assms(2,3) unfolding table_of_def placed_def unused_def by metis

lemma matches_datum:
  assumes "dict_key k \<kappa>" "dict_rep m (n, c0, D)"
  shows "entry_matches m k (probe n \<kappa>' d) \<longleftrightarrow> map_keys m (probe n \<kappa>' d) = Some \<kappa>"
proof -
  let ?j = "probe n \<kappa>' d"
  have "0 \<le> ?j" "?j < n" using probe_range dict_repD(5) [OF assms(2)] by simp_all
  note keys = dict_keys [OF assms(2) this]
  have "dbl_eq i x \<longleftrightarrow> i = x" if "\<kappa> = DFloat i" "map_keys m ?j = Some (DFloat x)" for i x
    using dbl_eq_key [of i x] that keys assms(1) by (auto simp: dict_key_def)
  then show ?thesis
    using dict_key_type [OF assms(1)]
    by (cases "ty (tag m (mapIdx m ?j))")
      (auto simp: entry_matches_def map_matches_def map_keys_def slot_datum_def split: Option.bind_splits)
qed

lemma stored_datum:
  assumes "key_stored m k j T f m'" "dict_key k \<kappa>" "mapIdx m' j = mapIdx m j"
  shows "map_keys m' j = Some \<kappa>"
  using assms(1,3) dict_key_type [OF assms(2)] by (auto simp: key_stored_def Let_def map_keys_def slot_datum_def)

lemma free_datum: "entry_free m j \<longleftrightarrow> unused (map_keys m) j"
  by (cases "ty (tag m (mapIdx m j))") (auto simp: entry_free_def unused_def map_keys_def slot_datum_def)

lemma entry_probe: "entry m (key_hash \<kappa>) d = probe (nelem m) \<kappa> d"
  by (simp add: entry_def probe_def)

lemma found_placed:
  assumes "dict_key k \<kappa>" "dict_rep m (n, c0, D)"
  shows "found_at m k (key_hash \<kappa>) d \<longleftrightarrow> placed n (map_keys m) \<kappa> d"
  using dict_repD(2) [OF assms(2)]
  by (simp add: found_at_def placed_def matches_datum [OF assms] free_datum entry_probe)

lemma vacancy_free:
  assumes "dict_key k \<kappa>" "dict_rep m (n, c0, D)" "D \<kappa> = None" "vacancy n (map_keys m) \<kappa> d"
  shows "free_at m k (key_hash \<kappa>) d"
proof -
  note r = dict_repD [OF assms(2)]
  have "map_keys m (probe n \<kappa> e) \<noteq> Some \<kappa>" for e
    using table_absent [OF r(4) assms(3)] dict_key_facts(8) [OF assms(1)] probe_range [of n \<kappa> e] r(5) by simp
  then show ?thesis
    using assms(4) by (simp add: free_at_def vacancy_def matches_datum [OF assms(1,2)] free_datum entry_probe r(2))
qed

lemma dict_map_owned:
  assumes "dict_rep m (n, c0, D)"
  shows "map_owned m (all_texts m)"
proof -
  note r = dict_repD [OF assms]
  have "mapIdx m j \<in> all_texts m \<longleftrightarrow> ty (tag m (mapIdx m j)) = EMS_TYPE_STRING" if j: "0 \<le> j" "j < nelem m" for j
  proof -
    have "map_keys m j = Some DUndef \<or> (\<exists>\<kappa>. is_key \<kappa> \<and> map_keys m j = Some \<kappa>)"
      using dict_keys [OF assms] r(2) j by simp
    then have "ty (tag m (mapIdx m j)) \<noteq> EMS_TYPE_JSON"
      by (auto simp: map_keys_def slot_datum_def)
    moreover have "mapIdx m j \<in> map_slots m" using j by (simp add: map_slots_def)
    ultimately show ?thesis by (auto simp: all_texts_def texts_def is_text_def)
  qed
  then show ?thesis using r(3) by (simp add: map_owned_def)
qed

section \<open>A new key\<close>

lemma key_stored_dict:
  assumes rep: "dict_rep m (n, c0, D)" and k: "dict_key k \<kappa>" and D: "D \<kappa> = None"
    and v: "vacancy n (map_keys m) \<kappa> d" "d < MAX_OPEN_HASH_STEPS"
    and st: "key_stored m k (probe n \<kappa> d) (all_texts m) EMS_TAG_FULL m'"
  shows "dict_rep m' (n, c0, D(\<kappa> := Some c0))" "placed n (map_keys m') \<kappa> d"
proof -
  let ?j = "probe n \<kappa> d" let ?T = "all_texts m"
  note r = dict_repD [OF rep] and kf = dict_key_facts [OF k]
  have j: "0 \<le> ?j" "?j < nelem m" using probe_range [of n \<kappa> d] r(2,5) by simp_all
  have free: "entry_free m ?j" using v(1) by (simp add: vacancy_def free_datum)
  note own = dict_map_owned [OF rep]
  note fr = key_stored_frame [OF st r(1) own j]
  note ok = key_stored_ok [OF st r(1) kf(1) own j free kf(2,3)]
  note other = key_stored_other [OF st r(1) own j]
  have keys: "map_keys m' i = ((map_keys m)(?j := Some \<kappa>)) i" if i: "0 \<le> i" "i < n" for i
  proof (cases "i = ?j")
    case True
    then show ?thesis using stored_datum [OF st k fr(3)] by simp
  next
    case False
    have "i < nelem m" using i r(2) by simp
    note o = other [OF i(1) this False]
    have "mapIdx m i \<in> ?T \<longleftrightarrow> ty (tag m (mapIdx m i)) = EMS_TYPE_STRING"
      using own i r(2) by (simp add: map_owned_def)
    moreover have "mapIdx m i \<in> map_slots m" using i r(2) by (simp add: map_slots_def)
    ultimately have "is_text (ty (tag m (mapIdx m i))) \<Longrightarrow> ty (tag m (mapIdx m i)) = EMS_TYPE_STRING"
      by (simp add: all_texts_def texts_def)
    then have "slot_datum m' (mapIdx m' i) = slot_datum m (mapIdx m i)"
      unfolding slot_datum_def using o(1-3) by (auto intro!: datum_at_cong)
    then show ?thesis using False by (simp add: map_keys_def)
  qed
  obtain x where x: "tag m' = (tag m)(mapIdx m ?j := (tag m (mapIdx m ?j))\<lparr>ty := vtype k, fe := EMS_TAG_FULL\<rparr>)"
    "word m' = (word m)(mapIdx m ?j := x)" "\<forall>b \<in> ?T. heapStr m' (word m b) = heapStr m (word m b)"
    "owned m' (if vtype k = EMS_TYPE_STRING then insert (mapIdx m ?j) ?T else ?T)"
    using st by (auto simp: key_stored_def Let_def)
  have cells: "map_cells m' i = map_cells m i" if i: "0 \<le> i" "i < n" for i
  proof -
    have ne: "dataIdx i \<noteq> mapIdx m ?j" using data_not_map i j r(2) by simp
    have "dataIdx i \<in> ?T" if "is_text (ty (tag m (dataIdx i)))"
      using that i r(2) by (simp add: all_texts_def texts_def data_slots_def)
    then have "slot_datum m' (dataIdx i) = slot_datum m (dataIdx i)"
      unfolding slot_datum_def using x(1-3) ne by (auto intro!: datum_at_cong)
    then show ?thesis using x(1) ne by (simp add: map_cells_def)
  qed
  have "data_slots m' = data_slots m" "map_slots m' = map_slots m"
    by (simp_all add: data_slots_def map_slots_def fr(1,3))
  moreover have "mapIdx m ?j \<in> map_slots m" using j by (simp add: map_slots_def)
  moreover have "ty (tag m (mapIdx m ?j)) = EMS_TYPE_UNDEFINED" using free by (simp add: entry_free_def)
  ultimately have T: "all_texts m' = (if vtype k = EMS_TYPE_STRING then insert (mapIdx m ?j) ?T else ?T)"
    using x(1) kf(1) key_home_type [OF kf(1)] dict_key_type [OF k] by (auto simp: all_texts_def texts_def is_text_def)
  note ins = table_insert [OF r(4) v kf(8) D]
  have "table_of n c0 (map_keys m') (map_cells m') (D(\<kappa> := Some c0))"
    by (rule table_cong [OF ins(1)]) (simp_all add: keys cells)
  then show "dict_rep m' (n, c0, D(\<kappa> := Some c0))" using ok(1) x(4) fr(1) r(2) by (simp add: dict_rep.simps T)
  have "map_keys m' (probe n \<kappa> e) = ((map_keys m)(?j := Some \<kappa>)) (probe n \<kappa> e)" for e
    using keys probe_range [of n] r(5) by simp
  then show "placed n (map_keys m') \<kappa> d" using ins(2) by (simp add: placed_def unused_def)
qed

section \<open>The entry of a key\<close>

lemma writeIndexMap_loop_none:
  assumes "quiet w" "map_ok (mem w)" "key_ok (mem w) key h" "0 < fuel" "0 \<le> idx"
    and "\<forall>e < k. \<not> entry_matches (mem w) key (entry (mem w) idx e) \<and> \<not> entry_free (mem w) (entry (mem w) idx e)"
  shows "\<exists>w'. writeIndexMap_loop fuel k key idx w = Some (- 1, w')"
  using assms
proof (induction k arbitrary: idx w)
  case (Suc k)
  let ?m = "mem w" let ?j = "idx mod nelem ?m"
  have n: "0 < nelem ?m" using Suc.prems(2) by (simp add: map_ok_def)
  have e0: "entry ?m idx 0 = ?j" by (simp add: entry_def)
  have nm: "\<not> entry_matches ?m key ?j" "\<not> entry_free ?m ?j" using Suc.prems(6) e0 by auto
  have eq: "writeIndexMap_loop fuel (Suc k) key idx w = writeIndexMap_loop fuel k key (?j + 1) (yield w)"
    using writeIndex_step [OF Suc.prems(1-3,5,4)] nm by simp
  have pos: "0 \<le> ?j + 1" using n by (simp add: add_increasing2)
  have path: "\<forall>e < k. \<not> entry_matches ?m key (entry ?m (?j + 1) e) \<and> \<not> entry_free ?m (entry ?m (?j + 1) e)"
    using Suc.prems(6) by (simp add: entry_Suc)
  have my: "mem (yield w) = ?m" using Suc.prems(1) by simp
  from Suc.IH [of "yield w" "?j + 1", unfolded my] Suc.prems(1-4) pos path show ?case unfolding eq by simp
qed simp

text \<open>No room for a new key: its text, or the entries that are probed.\<close>

definition no_room :: "dictionary \<Rightarrow> datum \<Rightarrow> bool" where
  "no_room x \<kappa> \<longleftrightarrow> (case x of (n, c0, D) \<Rightarrow>
     D \<kappa> = None \<and> (text_datum \<kappa> \<or> nat (min n (int MAX_OPEN_HASH_STEPS)) \<le> card (dom D)))"

text \<open>
  \<open>at_entry w x \<kappa> j\<close>: the operation has the entry \<open>j\<close> of the key, whose tag it will set back to
  full; then the array stands for \<open>x\<close>.
\<close>

definition at_entry :: "world \<Rightarrow> dictionary \<Rightarrow> datum \<Rightarrow> int \<Rightarrow> bool" where
  "at_entry w x \<kappa> j \<longleftrightarrow> quiet w \<and> dict_rep (maptag_full j (mem w)) x \<and> is_key \<kappa> \<and>
     (\<exists>d < MAX_OPEN_HASH_STEPS. j = probe (fst x) \<kappa> d \<and> placed (fst x) (map_keys (maptag_full j (mem w))) \<kappa> d)"

definition cell_of :: "cell \<Rightarrow> dict \<Rightarrow> datum \<Rightarrow> cell" where
  "cell_of c0 D \<kappa> = (case D \<kappa> of None \<Rightarrow> c0 | Some c \<Rightarrow> c)"

lemma maptag_full_same:
  assumes "map_ok m" "0 \<le> j" "j < nelem m"
  shows "maptag_full j m = m"
proof -
  have "fe (tag m (mapIdx m j)) = EMS_TAG_FULL" using assms by (simp add: map_ok_def)
  then have "set_fe (mapIdx m j) EMS_TAG_FULL m = m" by (intro ems_eqI) (simp_all add: fe_update_same)
  then show ?thesis by (simp add: maptag_full_def)
qed

lemma at_entry_found:
  assumes rep: "dict_rep (mem w) (n, c0, D)" and w: "quiet w" and p: "placed n (map_keys (mem w)) \<kappa> d" "d < MAX_OPEN_HASH_STEPS"
    and k: "is_key \<kappa>"
  shows "at_entry w (n, c0, D) \<kappa> (probe n \<kappa> d)"
proof -
  note r = dict_repD [OF rep]
  have j: "0 \<le> probe n \<kappa> d" "probe n \<kappa> d < nelem (mem w)" using probe_range [of n \<kappa> d] r(2,5) by simp_all
  show ?thesis using maptag_full_same [OF r(1) j] rep w p k unfolding at_entry_def by auto
qed

lemma dict_index_write:
  assumes q: "quiet w" and rep: "dict_rep (mem w) (n, c0, D)" and k: "dict_key k \<kappa>" and fuel: "0 < fuel"
  shows "(\<exists>w'. EMSwriteIndexMap fuel k w = Some (- 1, w')) \<and> no_room (n, c0, D) \<kappa> \<or>
    (\<exists>j w'. EMSwriteIndexMap fuel k w = Some (j, w') \<and> libc_malloc w' = libc_malloc w \<and>
       at_entry w' (n, c0, D(\<kappa> := Some (cell_of c0 D \<kappa>))) \<kappa> j)"
proof (cases "D \<kappa>")
  case (Some c)
  note r = dict_repD [OF rep] and kf = dict_key_facts [OF k]
  from table_found [OF r(4) Some] obtain d where d: "d < MAX_OPEN_HASH_STEPS" "placed n (map_keys (mem w)) \<kappa> d" by metis
  have "found_at (mem w) k (key_hash \<kappa>) d" using d(2) by (simp add: found_placed [OF k rep] r(2))
  from EMSwriteIndexMap_existing_spec [OF q r(1) kf(1) fuel d(1) this] obtain w' where
    w': "EMSwriteIndexMap fuel k w = Some (probe n \<kappa> d, w')" "quiet w'" "mem w' = mem w" "libc_malloc w' = libc_malloc w"
    by (auto simp: entry_probe r(2))
  have "dict_rep (mem w') (n, c0, D)" "placed n (map_keys (mem w')) \<kappa> d" using rep d(2) w'(3) by simp_all
  from at_entry_found [OF this(1) w'(2) this(2) d(1) kf(8)] have "at_entry w' (n, c0, D) \<kappa> (probe n \<kappa> d)" .
  moreover have "D(\<kappa> := Some (cell_of c0 D \<kappa>)) = D" using Some by (auto simp: cell_of_def)
  ultimately show ?thesis using w'(1,4) by auto
next
  case None
  note r = dict_repD [OF rep] and kf = dict_key_facts [OF k]
  have N: "0 < n" using r(5) by simp
  have absent: "map_keys (mem w) (probe n \<kappa> e) \<noteq> Some \<kappa>" for e
    using table_absent [OF r(4) None kf(8)] probe_range [OF N] by blast
  show ?thesis
  proof (cases "\<exists>d < MAX_OPEN_HASH_STEPS. vacancy n (map_keys (mem w)) \<kappa> d")
    case True
    then obtain d where d: "d < MAX_OPEN_HASH_STEPS" "vacancy n (map_keys (mem w)) \<kappa> d" by blast
    let ?j = "probe n \<kappa> d"
    from EMSwriteIndexMap_new_spec [OF q r(1) kf(1) dict_map_owned [OF rep] fuel d(1) vacancy_free [OF k rep None d(2)]
        kf(4) dict_key_len [OF k]]
    show ?thesis
    proof (elim disjE exE conjE)
      fix w' assume "EMSwriteIndexMap fuel k w = Some (- 1, w')" "vtype k = EMS_TYPE_STRING"
      then show ?thesis using kf(7) None by (simp add: no_room_def)
    next
      fix w' assume w': "EMSwriteIndexMap fuel k w = Some (entry (mem w) (key_hash \<kappa>) d, w')" "quiet w'"
        "libc_malloc w' = libc_malloc w"
        and st: "key_stored (mem w) k (entry (mem w) (key_hash \<kappa>) d) (all_texts (mem w)) EMS_TAG_BUSY (mem w')"
      have e: "entry (mem w) (key_hash \<kappa>) d = ?j" by (simp add: entry_probe r(2))
      have j: "0 \<le> ?j" "?j < nelem (mem w)" using probe_range [OF N] r(2) by simp_all
      note fr = key_stored_frame [OF st [unfolded e] r(1) dict_map_owned [OF rep] j]
      have "key_stored (mem w) k ?j (all_texts (mem w)) EMS_TAG_FULL (maptag_full ?j (mem w'))"
        using st fr r(6) unfolding e by (auto simp: key_stored_def Let_def maptag_full_def)
      note kd = key_stored_dict [OF rep k None d(2,1) this]
      have "at_entry w' (n, c0, D(\<kappa> := Some c0)) \<kappa> ?j"
        using kd w'(2) d(1) kf(8) unfolding at_entry_def by auto
      then show ?thesis using w'(1,3) None unfolding e by (auto simp: cell_of_def)
    qed
  next
    case False
    then have full: "nat (min n (int MAX_OPEN_HASH_STEPS)) \<le> card (dom D)" using table_vacancy [OF r(4)] by (metis not_le)
    have unused: "\<not> unused (map_keys (mem w)) (probe n \<kappa> d)" if "d < MAX_OPEN_HASH_STEPS" for d
    proof
      assume u: "unused (map_keys (mem w)) (probe n \<kappa> d)"
      let ?d = "LEAST d. unused (map_keys (mem w)) (probe n \<kappa> d)"
      have "vacancy n (map_keys (mem w)) \<kappa> ?d" unfolding vacancy_def
        using LeastI [of "\<lambda>d. unused (map_keys (mem w)) (probe n \<kappa> d)", OF u] not_less_Least by blast
      moreover have "?d \<le> d" using u by (rule Least_le)
      ultimately show False using False that by (metis order_le_less_trans)
    qed
    have nf: "\<not> found_at (mem w) k (key_hash \<kappa>) d" for d
      using absent by (simp add: found_placed [OF k rep] r(2) placed_def)
    from EMSwriteIndexMap_start [OF q r(1) kf(1) fuel] nf obtain w' where w': "quiet w'" "mem w' = mem w"
      "EMSwriteIndexMap fuel k w = writeIndexMap_loop fuel MAX_OPEN_HASH_STEPS k (key_hash \<kappa> mod nelem (mem w)) w'"
      by metis
    have "\<exists>w''. writeIndexMap_loop fuel MAX_OPEN_HASH_STEPS k (key_hash \<kappa> mod nelem (mem w)) w' = Some (- 1, w'')"
      using w'(1,2) r(1) fuel N absent unused
      by (intro writeIndexMap_loop_none [of _ _ "key_hash \<kappa>"])
        (simp_all add: kf(1) r(2) entry_mod [of "mem w", unfolded r(2)] entry_probe matches_datum [OF k rep] free_datum)
    then show ?thesis using w'(3) full None by (auto simp: no_room_def)
  qed
qed

section \<open>A cell overwritten\<close>

lemma at_entryD:
  assumes "at_entry w (n, c0, D) \<kappa> j"
  shows "quiet w" "dict_rep (maptag_full j (mem w)) (n, c0, D)" "0 \<le> j" "j < n" "nelem (mem w) = n"
    "EMSisMapped (mem w)" "mapIdx (maptag_full j (mem w)) = mapIdx (mem w)" "dataIdx j \<noteq> mapIdx (mem w) j"
proof -
  note r = dict_repD [of "maptag_full j (mem w)" n c0 D]
  show rep: "quiet w" "dict_rep (maptag_full j (mem w)) (n, c0, D)" using assms by (simp_all add: at_entry_def)
  show j: "0 \<le> j" "j < n" using assms r(5) [OF rep(2)] probe_range [of n] by (auto simp: at_entry_def)
  show n: "nelem (mem w) = n" "EMSisMapped (mem w)" using r(2,6) [OF rep(2)] by simp_all
  show "mapIdx (maptag_full j (mem w)) = mapIdx (mem w)" by (rule ext) (simp add: mapIdx_def)
  show "dataIdx j \<noteq> mapIdx (mem w) j" using data_not_map j n by simp
qed

text \<open>The cell of the entry, read off the buffer.\<close>

lemma at_entry_cell:
  assumes "at_entry w (n, c0, D) \<kappa> j"
  obtains f d where "D \<kappa> = Some (f, d)" "settled f" "fe (tag (mem w) (dataIdx j)) = f" "slot_datum (mem w) (dataIdx j) = Some d"
proof -
  let ?m = "maptag_full j (mem w)"
  note e = at_entryD [OF assms]
  note t = dict_repD(4) [OF e(2)]
  obtain d where "placed n (map_keys ?m) \<kappa> d" "j = probe n \<kappa> d" "is_key \<kappa>" using assms by (auto simp: at_entry_def)
  then have "map_keys ?m j = Some \<kappa>" "\<kappa> \<noteq> DUndef" by (auto simp: placed_def)
  then have D: "D \<kappa> = map_cells ?m j" by (rule table_entry [OF t e(3,4)])
  obtain c where c: "map_cells ?m j = Some c" "settled (fst c)" using table_cell [OF t e(3,4)] by blast
  obtain f d where fd: "c = (f, d)" by (cases c)
  have tag: "tag ?m (dataIdx j) = tag (mem w) (dataIdx j)" using e(3-5) by simp
  have "fe (tag (mem w) (dataIdx j)) = f" "slot_datum (mem w) (dataIdx j) = Some d"
    using c(1) fd tag by (auto simp: map_cells_def slot_datum_def)
  moreover have "D \<kappa> = Some (f, d)" "settled f" using D c fd by simp_all
  ultimately show thesis using that by blast
qed

text \<open>
  Any change of one element that keeps the rest gives the dictionary with that cell changed; the
  set of words that own texts follows the types.
\<close>

lemma dict_element:
  assumes rep: "dict_rep m (n, c0, D)" and p: "placed n (map_keys m) \<kappa> d" "d < MAX_OPEN_HASH_STEPS" "is_key \<kappa>"
    and j: "j = probe n \<kappa> d" and a: "a = dataIdx j"
    and tg: "tag m' = (tag m)(a := t)" "settled (fe t)" and wd: "word m' = (word m)(a := x)"
    and dt: "datum_at m' (ty t) x = Some \<delta>"
    and own: "owned m' (if is_text (ty t) then insert a (all_texts m) else all_texts m - {a})"
    and hs: "\<forall>b \<in> all_texts m - {a}. heapStr m' (word m b) = heapStr m (word m b)"
  shows "dict_rep m' (n, c0, D(\<kappa> := Some (fe t, \<delta>)))" "map_keys m' i = map_keys m i \<or> \<not> (0 \<le> i \<and> i < n)"
proof -
  note r = dict_repD [OF rep]
  have jr: "0 \<le> j" "j < n" using j probe_range [of n \<kappa> d] r(5) by simp_all
  have wl: "nelem m' = nelem m" "EMSisMapped m' = EMSisMapped m" using wd a jr(1) by (simp_all add: nelem_def EMSisMapped_def)
  have mi: "mapIdx m' i = mapIdx m i" for i using wl(1) by (simp add: mapIdx_def)
  have ne: "mapIdx m i \<noteq> a" if "0 \<le> i" for i using data_not_map [OF jr(1) _ that, of m] jr r(2) a by simp
  have other: "slot_datum m' b = slot_datum m b" if b: "b \<noteq> a" "b \<in> data_slots m \<union> map_slots m" for b
    unfolding slot_datum_def using b tg(1) wd hs by (auto simp: all_texts_def texts_def intro!: datum_at_cong)
  have keys: "map_keys m' i = map_keys m i" if i: "0 \<le> i" "i < n" for i
    using other [OF ne [OF i(1)]] i r(2) by (simp add: map_keys_def mi map_slots_def)
  then show "map_keys m' i = map_keys m i \<or> \<not> (0 \<le> i \<and> i < n)" by blast
  have cells: "map_cells m' i = ((map_cells m)(j := Some (fe t, \<delta>))) i" if i: "0 \<le> i" "i < n" for i
  proof (cases "i = j")
    case True
    then show ?thesis using tg(1) wd dt a by (simp add: map_cells_def slot_datum_def)
  next
    case False
    then have "dataIdx i \<noteq> a" using i jr a by simp
    with other [OF this] i r(2) tg(1) False show ?thesis by (simp add: map_cells_def data_slots_def)
  qed
  have "table_of n c0 (map_keys m') (map_cells m') (D(\<kappa> := Some (fe t, \<delta>)))"
  proof (rule table_cong)
    show "table_of n c0 (map_keys m) ((map_cells m)(probe n \<kappa> d := Some (fe t, \<delta>))) (D(\<kappa> := Some (fe t, \<delta>)))"
      using table_update [OF r(4) p] tg(2) by simp
  qed (simp_all add: keys cells j)
  moreover have "all_texts m' = (if is_text (ty t) then insert a (all_texts m) else all_texts m - {a})"
    using tg(1) jr r(2) wl(1) a by (auto simp: all_texts_def texts_def data_slots_def map_slots_def mi)
  moreover have "map_ok m'"
  proof -
    have "heapStr m' (word m' (mapIdx m' i)) = heapStr m (word m (mapIdx m i))"
      if i: "0 \<le> i" "i < n" "ty (tag m (mapIdx m i)) = EMS_TYPE_STRING" for i
      using i ne [OF i(1)] hs wd r(2) by (simp add: mi all_texts_def texts_def map_slots_def is_text_def)
    then show ?thesis using r(1,2) wl tg(1) wd ne unfolding map_ok_def mi by simp
  qed
  ultimately show "dict_rep m' (n, c0, D(\<kappa> := Some (fe t, \<delta>)))" using own r(2) wl(1) by (simp add: dict_rep.simps)
qed

lemma all_texts_maptag [simp]: "all_texts (maptag_full j m) = all_texts m"
  by (simp add: all_texts_def texts_def data_slots_def map_slots_def mapIdx_def [abs_def])

text \<open>The same for the buffer of an operation at the entry \<open>j\<close>, which may go on or end.\<close>

lemma at_entry_change:
  assumes e: "at_entry w (n, c0, D) \<kappa> j" and a: "a = dataIdx j"
    and tg: "tag m' = (tag (mem w))(a := t)" "settled (fe t)" and wd: "word m' = (word (mem w))(a := x)"
    and dt: "datum_at m' (ty t) x = Some \<delta>"
    and own: "owned m' (if is_text (ty t) then insert a (all_texts (mem w)) else all_texts (mem w) - {a})"
    and hs: "\<forall>b \<in> all_texts (mem w) - {a}. heapStr m' (word (mem w) b) = heapStr (mem w) (word (mem w) b)"
  shows "dict_rep (maptag_full j m') (n, c0, D(\<kappa> := Some (fe t, \<delta>)))"
    "mem w' = m' \<Longrightarrow> quiet w' \<Longrightarrow> at_entry w' (n, c0, D(\<kappa> := Some (fe t, \<delta>))) \<kappa> j"
proof -
  let ?m = "maptag_full j (mem w)"
  note ed = at_entryD [OF e]
  obtain d where d: "placed n (map_keys ?m) \<kappa> d" "d < MAX_OPEN_HASH_STEPS" "is_key \<kappa>" "j = probe n \<kappa> d"
    using e by (auto simp: at_entry_def)
  have wl: "nelem m' = nelem (mem w)" "EMSisMapped m' = EMSisMapped (mem w)"
    using wd a ed(3) by (simp_all add: nelem_def EMSisMapped_def)
  have "mapIdx m' j = mapIdx (mem w) j" using wl(1) by (simp add: mapIdx_def)
  then have "tag (maptag_full j m') = (tag ?m)(a := t)"
    using tg(1) wl(2) ed(6,8) a by (auto simp: maptag_full_def)
  note el = dict_element [OF ed(2) d a this tg(2), of x \<delta>, unfolded all_texts_maptag]
  show rep: "dict_rep (maptag_full j m') (n, c0, D(\<kappa> := Some (fe t, \<delta>)))" using el(1) wd dt own hs by simp
  have "map_keys (maptag_full j m') (probe n \<kappa> i) = map_keys ?m (probe n \<kappa> i)" for i
    using el(2) [of "probe n \<kappa> i"] wd dt own hs probe_range [of n \<kappa> i] dict_repD(5) [OF rep] by simp
  then have "placed n (map_keys (maptag_full j m')) \<kappa> d" using d(1) by (simp add: placed_def unused_def)
  then show "at_entry w' (n, c0, D(\<kappa> := Some (fe t, \<delta>))) \<kappa> j" if "mem w' = m'" "quiet w'"
    using that rep d by (auto simp: at_entry_def)
qed

lemma at_entry_element:
  assumes e: "at_entry w (n, c0, D) \<kappa> j" and a: "a = dataIdx j" and m': "mem w' = maptag_full j m'"
    and "tag m' = (tag (mem w))(a := t)" "settled (fe t)" "word m' = (word (mem w))(a := x)"
    and "datum_at m' (ty t) x = Some \<delta>"
    and "owned m' (if is_text (ty t) then insert a (all_texts (mem w)) else all_texts (mem w) - {a})"
    and "\<forall>b \<in> all_texts (mem w) - {a}. heapStr m' (word (mem w) b) = heapStr (mem w) (word (mem w) b)"
  shows "dict_rep (mem w') (n, c0, D(\<kappa> := Some (fe t, \<delta>)))"
  unfolding m' by (rule at_entry_change(1) [OF e a assms(4-9)])

lemma at_entry_written:
  assumes "at_entry w (n, c0, D) \<kappa> j" "mem w' = maptag_full j m'"
    and "elem_written (mem w) (dataIdx j) v \<delta> t (all_texts (mem w)) m'" "ty t = vtype v" "settled (fe t)"
  shows "dict_rep (mem w') (n, c0, D(\<kappa> := Some (fe t, \<delta>)))"
proof -
  let ?a = "dataIdx j" let ?T = "all_texts (mem w)"
  from assms(3) obtain x where x: "tag m' = (tag (mem w))(?a := t)" "word m' = (word (mem w))(?a := x)"
    "datum_at m' (ty t) x = Some \<delta>" "owned m' (if is_text (ty t) then insert ?a ?T else ?T - {?a})"
    "\<forall>b \<in> ?T - {?a}. heapStr m' (word (mem w) b) = heapStr (mem w) (word (mem w) b)"
    unfolding elem_written_def assms(4) by blast
  show ?thesis by (rule at_entry_element [OF assms(1) refl assms(2) x(1) assms(5) x(2-5)])
qed

section \<open>Writing\<close>

lemma dict_write:
  assumes e: "at_entry w (n, c0, D) \<kappa> j" and fuel: "0 < fuel" and v: "value_ok v \<delta>" and D: "D \<kappa> = Some (f, d)"
    and can: "state_after ini f = f" "write_args ini fin"
  shows "(\<exists>w'. write_at fuel j v ini fin w = Some (False, w')) \<and> text_datum \<delta> \<or>
    (\<exists>w'. write_at fuel j v ini fin w = Some (True, w') \<and> quiet w' \<and> libc_malloc w' = libc_malloc w \<and>
       dict_rep (mem w') (n, c0, D(\<kappa> := Some (state_after fin f, \<delta>))))"
proof -
  let ?a = "dataIdx j" let ?T = "all_texts (mem w)" let ?t = "tag (mem w) ?a"
  note ed = at_entryD [OF e]
  obtain f' d' where c: "D \<kappa> = Some (f', d')" "settled f'" "fe ?t = f'" using at_entry_cell [OF e] by metis
  then have f: "fe ?t = f" "settled f" using D by simp_all
  have own: "owned (mem w) ?T" using dict_repD(3) [OF ed(2)] by simp
  have T: "?a \<in> ?T \<longleftrightarrow> is_text (ty ?t)" using ed(3-5) by (auto simp: all_texts_def texts_def data_slots_def)
  have cw: "can_write ini fin ?t" using can f by (cases ini; cases fin) (auto simp: can_write_def settled_def)
  have idx: "j < nelem (mem w)" using ed(4,5) by simp
  let ?wt = "written_tag fin v ?t"
  have t: "ty ?wt = vtype v" "fe ?wt = state_after fin f" using f(1) by (cases fin; simp add: written_tag_def)+
  have s: "settled (fe ?wt)" using t(2) f(2) can(2) by (cases fin; cases ini) simp_all
  from write_at_quiet [OF ed(1) own fuel v ed(3) idx refl T cw] show ?thesis
  proof (elim disjE exE conjE)
    fix w' m' assume w': "write_at fuel j v ini fin w = Some (True, w')" "quiet w'" "mem w' = maptag_full j m'"
      "libc_malloc w' = libc_malloc w" and ew: "elem_written (mem w) ?a v \<delta> ?wt ?T m'"
    have "dict_rep (mem w') (n, c0, D(\<kappa> := Some (fe ?wt, \<delta>)))"
      by (rule at_entry_written [OF e w'(3) ew t(1) s])
    then show ?thesis using w'(1,2,4) t(2) by simp
  qed (simp add: value_ok_text [OF v])
qed

section \<open>Reading\<close>

lemma read_at_quiet:
  assumes q: "quiet w" and fuel: "0 < fuel" and t: "fe (tag (mem w) (dataIdx j)) = f" "f \<noteq> EMS_TAG_RW_LOCK"
    and d: "slot_datum (mem w) (dataIdx j) = Some \<delta>"
  shows "\<exists>v w'. read_loop fuel j (FE f) (FE g) ret nt w = Some (True, v, w') \<and> quiet w' \<and>
    libc_malloc w' = libc_malloc w \<and> value_datum (mem w') v = Some (norm_datum \<delta>) \<and>
    mem w' = maptag_full j (set_tag (dataIdx j) ((tag (mem w) (dataIdx j))\<lparr>fe := g\<rparr>) (mem w))"
proof -
  let ?a = "dataIdx j" let ?t = "tag (mem w) ?a" let ?b = "?t\<lparr>fe := EMS_TAG_BUSY\<rparr>"
  obtain k where k: "fuel = Suc k" using fuel by (cases fuel) auto
  define w1 where "w1 = upd (set_tag ?a ?b) (yield w)"
  have w1: "quiet w1" "mem w1 = set_tag ?a ?b (mem w)" "libc_malloc w1 = libc_malloc w" using q by (simp_all add: w1_def)
  have "?t\<lparr>fe := f\<rparr> = ?t" using t(1) by (rule fe_update_same)
  then have loop: "read_loop fuel j (FE f) (FE g) ret nt w = read_finish j (FE g) ret ?b w1"
    using k q t by (simp add: Let_def read_may_try_def w1_def)
  have "datum_at (mem w1) (ty ?b) (word (mem w1) ?a) = Some \<delta>" using d w1(2) by (simp add: slot_datum_def)
  from read_finish_maps [OF this, of "FE g" ret] obtain v where
    v: "read_finish j (FE g) ret ?b w1 = Some (True, v, upd (maptag_full j) (upd (set_tag ?a (?b\<lparr>fe := g\<rparr>)) w1))"
    "\<And>m. heap m = heap (mem w1) \<Longrightarrow> malloc m = malloc (mem w1) \<Longrightarrow> value_datum m v = Some (norm_datum \<delta>)"
    by auto
  then show ?thesis
    using loop w1 by (intro exI [of _ v] exI [of _ "upd (maptag_full j) (upd (set_tag ?a (?b\<lparr>fe := g\<rparr>)) w1)"]) simp
qed

text \<open>Changing the tag of the element at the entry, whose datum stays.\<close>

lemma dict_set_tag:
  assumes e: "at_entry w (n, c0, D) \<kappa> j" and D: "D \<kappa> = Some (f, \<delta>)"
    and t: "ty t = ty (tag (mem w) (dataIdx j))" "settled (fe t)"
    and m': "mem w' = maptag_full j (set_tag (dataIdx j) t (mem w))"
  shows "dict_rep (mem w') (n, c0, D(\<kappa> := Some (fe t, \<delta>)))"
proof -
  let ?a = "dataIdx j" let ?T = "all_texts (mem w)"
  note ed = at_entryD [OF e]
  have own: "owned (mem w) ?T" using dict_repD(3) [OF ed(2)] by simp
  have "?a \<in> ?T \<longleftrightarrow> is_text (ty t)" using ed(3-5) t(1) by (auto simp: all_texts_def texts_def data_slots_def)
  then have T: "(if is_text (ty t) then insert ?a ?T else ?T - {?a}) = ?T" by auto
  have sd: "slot_datum (mem w) ?a = Some \<delta>" using at_entry_cell [OF e] D by (metis Pair_inject option.inject)
  show ?thesis
  proof (rule at_entry_element [OF e refl m', of t "word (mem w) ?a"])
    show "owned (set_tag ?a t (mem w)) (if is_text (ty t) then insert ?a ?T else ?T - {?a})" unfolding T using own by simp
  qed (use t sd in \<open>simp_all add: slot_datum_def\<close>)
qed

lemma dict_read:
  assumes e: "at_entry w (n, c0, D) \<kappa> j" and fuel: "0 < fuel" and D: "D \<kappa> = Some (f, \<delta>)" and g: "settled g"
  shows "\<exists>v w'. read_loop fuel j (FE f) (FE g) ret nt w = Some (True, v, w') \<and> quiet w' \<and>
    libc_malloc w' = libc_malloc w \<and> value_datum (mem w') v = Some (norm_datum \<delta>) \<and>
    dict_rep (mem w') (n, c0, D(\<kappa> := Some (g, \<delta>)))"
proof -
  note ed = at_entryD [OF e]
  obtain f' d' where c: "D \<kappa> = Some (f', d')" "settled f'" "fe (tag (mem w) (dataIdx j)) = f'"
    "slot_datum (mem w) (dataIdx j) = Some d'" using at_entry_cell [OF e] by metis
  have t: "fe (tag (mem w) (dataIdx j)) = f" "f \<noteq> EMS_TAG_RW_LOCK" "slot_datum (mem w) (dataIdx j) = Some \<delta>"
    using c D by (auto simp: settled_def)
  from read_at_quiet [OF ed(1) fuel t, of g ret nt] obtain v w' where r:
    "read_loop fuel j (FE f) (FE g) ret nt w = Some (True, v, w')" "quiet w'" "libc_malloc w' = libc_malloc w"
    "value_datum (mem w') v = Some (norm_datum \<delta>)"
    "mem w' = maptag_full j (set_tag (dataIdx j) ((tag (mem w) (dataIdx j))\<lparr>fe := g\<rparr>) (mem w))" by blast
  have "dict_rep (mem w') (n, c0, D(\<kappa> := Some (g, \<delta>)))"
    using dict_set_tag [OF e D _ _ r(5)] g by simp
  with r(1-4) show ?thesis by blast
qed

section \<open>Waiting\<close>

text \<open>
  An access that waits gives up the tag of the map entry and takes it again; the tag of the element
  does not change.
\<close>

lemma blocked_read_map:
  assumes "quiet w" "f \<noteq> EMS_TAG_RW_LOCK" "fe (tag (mem w) (dataIdx j)) \<noteq> f" "mapIdx (mem w) j \<noteq> dataIdx j"
  shows "read_loop fuel j (FE f) fin ret nt w = None"
  using assms
proof (induction fuel arbitrary: w)
  case (Suc fuel)
  let ?mt = "mapIdx (mem w) j"
  define w1 where "w1 = yield (if EMSisMapped (mem w) then upd (\<lambda>m. set_fe (mapIdx m j) EMS_TAG_FULL m) (yield w) else yield w)"
  have w1: "quiet w1" "mapIdx (mem w1) j = ?mt" "tag (mem w1) (dataIdx j) = tag (mem w) (dataIdx j)"
    "EMSisMapped (mem w1) = EMSisMapped (mem w)" "EMSisMapped (mem w) \<Longrightarrow> fe (tag (mem w1) ?mt) = EMS_TAG_FULL"
    using Suc.prems by (simp_all add: w1_def)
  have step: "read_loop (Suc fuel) j (FE f) fin ret nt w = do {
      (_, w) \<leftarrow> (if EMSisMapped (mem w1) then
          EMStransitionFEtag fuel (mapIdx (mem w1) j) None EMS_TAG_FULL EMS_TAG_BUSY EMS_TAG_ANY_code w1 else Some (nt, w1));
      read_loop fuel j (FE f) fin ret nt w }"
    using Suc.prems(1-3) by (simp add: Let_def read_may_try_def w1_def)
  show ?case
  proof (cases "EMSisMapped (mem w) \<and> 0 < fuel")
    case True
    let ?w2 = "upd (set_fe ?mt EMS_TAG_BUSY) (yield w1)"
    have "read_loop fuel j (FE f) fin ret nt ?w2 = None"
      using w1 Suc.prems by (intro Suc.IH) simp_all
    moreover have "fe (tag (mem w1) ?mt) = EMS_TAG_FULL" using w1(5) True by blast
    ultimately show ?thesis
      using step transition_quiet [OF w1(1), of ?mt EMS_TAG_FULL fuel None EMS_TAG_BUSY] w1(2,4) True by simp
  next
    case False
    then show ?thesis
      using step w1 Suc.IH [OF w1(1)] Suc.prems by (cases fuel) (auto simp: EMStransitionFEtag_def)
  qed
qed simp

lemma blocked_transition_map:
  assumes "quiet w" "fe (tag (mem w) t) \<noteq> f" "mt \<noteq> t"
  shows "transition_loop fuel t (Some mt) f g EMS_TAG_ANY_code (tag (mem w) t) w = None"
  using assms
proof (induction fuel arbitrary: w)
  case (Suc fuel)
  have ne: "tag (mem w) t \<noteq> (tag (mem w) t)\<lparr>fe := f\<rparr>" using Suc.prems(2) fe_update_eq_iff by blast
  let ?w1 = "yield (upd (set_fe mt EMS_TAG_FULL) (yield w))"
  have w1: "quiet ?w1" "fe (tag (mem ?w1) mt) = EMS_TAG_FULL" "tag (mem ?w1) t = tag (mem w) t" using Suc.prems by simp_all
  show ?case
  proof (cases "0 < fuel")
    case True
    let ?w2 = "upd (set_fe mt EMS_TAG_BUSY) (yield ?w1)"
    have tr: "transition_loop fuel mt None EMS_TAG_FULL EMS_TAG_BUSY EMS_TAG_ANY_code (tag (mem ?w1) mt) ?w1 =
        Some ((tag (mem ?w1) mt)\<lparr>fe := EMS_TAG_BUSY\<rparr>, ?w2)"
      using transition_quiet [OF w1(1,2) True, of None EMS_TAG_BUSY] by (simp add: EMStransitionFEtag_def)
    have "quiet ?w2" "fe (tag (mem ?w2) t) \<noteq> f" using w1 Suc.prems by simp_all
    from Suc.IH [OF this Suc.prems(3)] show ?thesis
      using ne Suc.prems(1) tr by (simp add: transition_Suc Let_def)
  qed (use ne Suc.prems(1) in \<open>simp add: transition_Suc Let_def\<close>)
qed simp

lemma dict_blocked:
  assumes e: "at_entry w (n, c0, D) \<kappa> j" and D: "D \<kappa> = Some (f, \<delta>)"
  shows "f' \<noteq> f \<Longrightarrow> f' \<noteq> EMS_TAG_RW_LOCK \<Longrightarrow> read_loop fuel j (FE f') fin ret nt w = None"
    "f' \<noteq> f \<Longrightarrow> write_at fuel j v (FE f') fin w = None"
proof -
  note ed = at_entryD [OF e]
  have t: "fe (tag (mem w) (dataIdx j)) = f" using at_entry_cell [OF e] D by (metis Pair_inject option.inject)
  show "read_loop fuel j (FE f') fin ret nt w = None" if "f' \<noteq> f" "f' \<noteq> EMS_TAG_RW_LOCK"
    using that t ed(8) by (intro blocked_read_map [OF ed(1)]) auto
  show "write_at fuel j v (FE f') fin w = None" if "f' \<noteq> f"
    using blocked_transition_map [OF ed(1), of "dataIdx j" f' "mapIdx (mem w) j" fuel EMS_TAG_BUSY] that t ed(6,8)
    by (auto simp: write_at_def EMStransitionFEtag_def)
qed

section \<open>Atomic operations\<close>

lemma dict_blocked_rmw:
  assumes e: "at_entry w (n, c0, D) \<kappa> j" and D: "D \<kappa> = Some (f, \<delta>)" and f: "f \<noteq> EMS_TAG_FULL"
  shows "cas_at fuel j old v ret w = None" "faa_at fuel j v ret w = None"
proof -
  note ed = at_entryD [OF e]
  have t: "fe (tag (mem w) (dataIdx j)) \<noteq> EMS_TAG_FULL" using at_entry_cell [OF e] D f by (metis Pair_inject option.inject)
  have "EMStransitionFEtag fuel (dataIdx j) (map_tag_of j (mem w)) EMS_TAG_FULL EMS_TAG_BUSY EMS_TAG_ANY_code w = None"
    using blocked_transition_map [OF ed(1) t, of "mapIdx (mem w) j"] ed(6,8)
    by (simp add: map_tag_of_def EMStransitionFEtag_def)
  then show "cas_at fuel j old v ret w = None" "faa_at fuel j v ret w = None" by (simp_all add: cas_at_def faa_at_def)
qed

text \<open>What the facts of \<open>EmsCasFacts\<close> and \<open>EmsFaaFacts\<close> ask for.\<close>

lemma at_entry_slot:
  assumes e: "at_entry w (n, c0, D) \<kappa> j" and D: "D \<kappa> = Some (f, \<delta>)"
  shows "owned (mem w) (all_texts (mem w))" "j < nelem (mem w)"
    "dataIdx j \<in> all_texts (mem w) \<longleftrightarrow> is_text (ty (tag (mem w) (dataIdx j)))"
    "fe (tag (mem w) (dataIdx j)) = f" "slot_datum (mem w) (dataIdx j) = Some \<delta>"
proof -
  note ed = at_entryD [OF e]
  show "owned (mem w) (all_texts (mem w))" "j < nelem (mem w)" using dict_repD(3) [OF ed(2)] ed(4,5) by simp_all
  show "dataIdx j \<in> all_texts (mem w) \<longleftrightarrow> is_text (ty (tag (mem w) (dataIdx j)))"
    using ed(3-5) by (auto simp: all_texts_def texts_def data_slots_def)
  show "fe (tag (mem w) (dataIdx j)) = f" "slot_datum (mem w) (dataIdx j) = Some \<delta>"
    using at_entry_cell [OF e] D by (metis Pair_inject option.inject)+
qed

lemma dict_cas:
  assumes e: "at_entry w (n, c0, D) \<kappa> j" and fuel: "0 < fuel" and D: "D \<kappa> = Some (EMS_TAG_FULL, \<delta>)"
    and copy: "old_copy_ok w \<delta>" and old: "\<forall>m. value_datum m oldValue = Some \<epsilon>" and new: "value_ok newValue d"
  shows "(\<exists>v w'. cas_at fuel j oldValue newValue ret w = Some (False, v, w')) \<and> text_datum d \<or>
    (\<exists>v w'. cas_at fuel j oldValue newValue ret w = Some (True, v, w') \<and> quiet w' \<and> libc_malloc w' = libc_malloc w \<and>
       value_datum (mem w') v = Some \<delta> \<and>
       dict_rep (mem w') (n, c0, D(\<kappa> := Some (EMS_TAG_FULL, if \<delta> = \<epsilon> then d else \<delta>))))"
proof -
  note ed = at_entryD [OF e] and sl = at_entry_slot [OF e D]
  from cas_at_quiet [OF ed(1) sl(1) fuel ed(3) sl(2) refl sl(3-5) copy old new, of ret] show ?thesis
  proof (elim disjE exE conjE)
    fix v w' m' assume r: "cas_at fuel j oldValue newValue ret w = Some (True, v, w')" "quiet w'"
      "libc_malloc w' = libc_malloc w" "\<forall>m. value_datum m v = Some \<delta>" "mem w' = maptag_full j m'"
      and c: "if \<delta> = \<epsilon> then elem_written (mem w) (dataIdx j) newValue d \<lparr>fe = EMS_TAG_FULL, ty = vtype newValue, rw = 0\<rparr> (all_texts (mem w)) m'
        else m' = set_tag (dataIdx j) \<lparr>fe = EMS_TAG_FULL, ty = ty (tag (mem w) (dataIdx j)), rw = 0\<rparr> (mem w)"
    have "dict_rep (mem w') (n, c0, D(\<kappa> := Some (EMS_TAG_FULL, if \<delta> = \<epsilon> then d else \<delta>)))"
    proof (cases "\<delta> = \<epsilon>")
      case True
      with c at_entry_written [OF e r(5)] show ?thesis by (fastforce simp: settled_def)
    next
      case False
      with c r(5) dict_set_tag [OF e D, of "\<lparr>fe = EMS_TAG_FULL, ty = ty (tag (mem w) (dataIdx j)), rw = 0\<rparr>" w']
      show ?thesis by (simp add: settled_def)
    qed
    then show ?thesis using r(1-4) by blast
  qed (use value_ok_text [OF new] in blast)
qed

lemma dict_faa:
  assumes e: "at_entry w (n, c0, D) \<kappa> j" and fuel: "0 < fuel" and D: "D \<kappa> = Some (EMS_TAG_FULL, \<delta>)"
    and copy: "old_copy_ok w \<delta>" and v: "value_ok v \<epsilon>" "datum_add \<delta> \<epsilon> = Some r"
    and pr: "sum_prints \<delta> \<epsilon>" and req: "request_ok (faa_bytes \<delta> v)"
  shows "(\<exists>old w'. faa_at fuel j v ret w = Some (False, old, w')) \<and> (text_datum \<delta> \<or> text_datum \<epsilon>) \<or>
    (\<exists>old w'. faa_at fuel j v ret w = Some (True, old, w') \<and> quiet w' \<and> libc_malloc w' = libc_malloc w \<and>
       value_datum (mem w') old = Some (norm_datum \<delta>) \<and> dict_rep (mem w') (n, c0, D(\<kappa> := Some (EMS_TAG_FULL, r))))"
proof -
  note ed = at_entryD [OF e] and sl = at_entry_slot [OF e D]
  from faa_at_quiet [OF ed(1) sl(1) fuel ed(3) sl(2) refl sl(3-5) copy v pr req, of ret] show ?thesis
  proof (elim disjE exE conjE)
    fix old w' m' u assume f: "faa_at fuel j v ret w = Some (True, old, w')" "quiet w'"
      "libc_malloc w' = libc_malloc w" "\<forall>m. value_datum m old = Some (norm_datum \<delta>)" "mem w' = maptag_full j m'"
      "elem_written (mem w) (dataIdx j) u r ((tag (mem w) (dataIdx j))\<lparr>fe := EMS_TAG_FULL, ty := vtype u\<rparr>) (all_texts (mem w)) m'"
    have "dict_rep (mem w') (n, c0, D(\<kappa> := Some (EMS_TAG_FULL, r)))"
      using at_entry_written [OF e f(5,6)] by (simp add: settled_def)
    then show ?thesis using f(1-4) by blast
  qed (auto simp: faa_no_memory_def)
qed

end
