(* ===== verification/EmsDictOps.thy ===== *)
theory EmsDictOps
  imports EmsDict
begin

text \<open>
  The operations of a dictionary of full/empty cells, and that each operation on a mapped array does
  what its dictionary operation says.
\<close>

section \<open>The abstract operations\<close>

text \<open>
  A read with a final state and a fetch and add make an absent key, with the blank cell; so does a
  compare and swap with undefined, whatever the blank cell holds. A plain read of an absent key is
  undefined.
\<close>

datatype dict_op =
    DWrite datum datum fe_arg fe_arg
  | DRead datum fe_state fe_state
  | DPeek datum
  | DCas datum datum datum
  | DFaa datum datum
  | DSet datum bool

fun dict_step :: "dict_op \<Rightarrow> dictionary \<Rightarrow> (datum option \<times> dictionary) option" where
  "dict_step (DWrite k d ini fin) (n, c0, D) = (let (f, _) = cell_of c0 D k in
     if state_after ini f = f then Some (None, n, c0, D(k := Some (state_after fin f, d))) else None)"
| "dict_step (DRead k f g) (n, c0, D) = (let (f', d) = cell_of c0 D k in
     if f' = f then Some (Some (norm_datum d), n, c0, D(k := Some (g, d))) else None)"
| "dict_step (DPeek k) (n, c0, D) =
     Some (Some (case D k of None \<Rightarrow> DUndef | Some (_, d) \<Rightarrow> norm_datum d), n, c0, D)"
| "dict_step (DCas k e d) (n, c0, D) = (case D k of
       None \<Rightarrow> Some (Some DUndef, n, c0, D(k := Some (EMS_TAG_FULL, d)))
     | Some (f, d') \<Rightarrow> if f = EMS_TAG_FULL
         then Some (Some d', n, c0, D(k := Some (f, if d' = e then d else d'))) else None)"
| "dict_step (DFaa k e) (n, c0, D) = (let (f, d) = cell_of c0 D k in
     if f = EMS_TAG_FULL then Some (Some (norm_datum d), n, c0, D(k := Some (f, the (datum_add d e)))) else None)"
| "dict_step (DSet k b) (n, c0, D) = (let (_, d) = cell_of c0 D k in
     Some (None, n, c0, D(k := Some (if b then EMS_TAG_FULL else EMS_TAG_EMPTY, d))))"

fun dict_for :: "array_op \<Rightarrow> dict_op \<Rightarrow> bool" where
  "dict_for (OWrite k v ini fin) (DWrite \<kappa> d ini' fin') \<longleftrightarrow>
     dict_key k \<kappa> \<and> value_ok v d \<and> ini' = ini \<and> fin' = fin \<and> write_args ini fin"
| "dict_for (ORead k f g) (DRead \<kappa> f' g') \<longleftrightarrow> dict_key k \<kappa> \<and> f' = f \<and> g' = g \<and> settled f \<and> settled g"
| "dict_for (OPeek k) (DPeek \<kappa>) \<longleftrightarrow> dict_key k \<kappa>"
| "dict_for (OCas k old v) (DCas \<kappa> e d) \<longleftrightarrow>
     dict_key k \<kappa> \<and> (\<forall>m. value_datum m old = Some e) \<and> value_ok v d"
| "dict_for (OFaa k v) (DFaa \<kappa> e) \<longleftrightarrow> dict_key k \<kappa> \<and> value_ok v e \<and> len v < 2 ^ 62"
| "dict_for (OSet k b) (DSet \<kappa> b') \<longleftrightarrow> dict_key k \<kappa> \<and> b' = b"
| "dict_for _ _ \<longleftrightarrow> False"

text \<open>
  Sums exist and their texts fit; an absent key is only swapped against undefined
  (\<open>EMScas_absent_key\<close> shows what the code does otherwise).
\<close>

fun dict_ok :: "dict_op \<Rightarrow> dictionary \<Rightarrow> bool" where
  "dict_ok (DCas k e d) (n, c0, D) \<longleftrightarrow> D k \<noteq> None \<or> e = DUndef"
| "dict_ok (DFaa k e) (n, c0, D) \<longleftrightarrow> (let d = snd (cell_of c0 D k) in
     datum_add d e \<noteq> None \<and> sum_prints d e \<and> datum_bytes d < 2 ^ 62)"
| "dict_ok _ _ \<longleftrightarrow> True"

text \<open>What can fail: storing a text, a new key without room, setting the tag of an absent key.\<close>

fun dict_may_fail :: "dict_op \<Rightarrow> dictionary \<Rightarrow> bool" where
  "dict_may_fail (DWrite k d ini fin) x \<longleftrightarrow> text_datum d \<or> no_room x k"
| "dict_may_fail (DRead k f g) x \<longleftrightarrow> no_room x k"
| "dict_may_fail (DPeek k) x \<longleftrightarrow> False"
| "dict_may_fail (DCas k e d) x \<longleftrightarrow> text_datum d \<or> no_room x k"
| "dict_may_fail (DFaa k e) (n, c0, D) \<longleftrightarrow>
     text_datum (snd (cell_of c0 D k)) \<or> text_datum e \<or> no_room (n, c0, D) k"
| "dict_may_fail (DSet k b) (n, c0, D) \<longleftrightarrow> D k = None"

fun dict_cells :: "world \<Rightarrow> dictionary \<Rightarrow> bool" where
  "dict_cells w x \<longleftrightarrow> quiet w \<and> dict_rep (mem w) x \<and> (\<forall>k. libc_malloc w k)"

declare dict_cells.simps [simp del]

section \<open>Lookups\<close>

lemma dict_lookup:
  assumes q: "quiet w" and rep: "dict_rep (mem w) (n, c0, D)" and k: "dict_key k \<kappa>" and fuel: "0 < fuel"
  shows "(D \<kappa> = None \<and> (\<exists>w'. EMSkey2index fuel k True w = Some (- 1, w') \<and> quiet w' \<and> mem w' = mem w \<and>
       libc_malloc w' = libc_malloc w)) \<or>
    (D \<kappa> \<noteq> None \<and> (\<exists>j w'. EMSkey2index fuel k True w = Some (j, w') \<and> mem w' = mem w \<and>
       libc_malloc w' = libc_malloc w \<and> at_entry w' (n, c0, D) \<kappa> j))"
proof -
  note r = dict_repD [OF rep] and kf = dict_key_facts [OF k]
  have m1: "(- 1) smod nelem (mem w) = - 1" by (simp only: r(2) smod_minus_one [OF r(5)])
  from EMSkey2index_mapped [OF q r(1) kf(1) fuel] obtain w' where w': "quiet w'" "mem w' = mem w" "libc_malloc w' = libc_malloc w"
    and c: "(\<exists>d < MAX_OPEN_HASH_STEPS. placed n (map_keys (mem w)) \<kappa> d \<and> EMSkey2index fuel k True w = Some (probe n \<kappa> d, w')) \<or>
     (\<forall>d < MAX_OPEN_HASH_STEPS. \<not> placed n (map_keys (mem w)) \<kappa> d) \<and> EMSkey2index fuel k True w = Some (- 1, w')"
    unfolding m1 by (auto simp: found_placed [OF k rep] r(2) entry_probe)
  from c show ?thesis
  proof (elim disjE exE conjE)
    fix d assume d: "d < MAX_OPEN_HASH_STEPS" "placed n (map_keys (mem w)) \<kappa> d" "EMSkey2index fuel k True w = Some (probe n \<kappa> d, w')"
    have "map_keys (mem w) (probe n \<kappa> d) = Some \<kappa>" using d(2) by (simp add: placed_def)
    moreover have "0 \<le> probe n \<kappa> d \<and> probe n \<kappa> d < n" using probe_range r(5) by simp
    ultimately have "D \<kappa> \<noteq> None" using table_absent [OF r(4) _ kf(8)] by metis
    moreover have "dict_rep (mem w') (n, c0, D)" "placed n (map_keys (mem w')) \<kappa> d" using rep d(2) w'(2) by simp_all
    from at_entry_found [OF this(1) w'(1) this(2) d(1) kf(8)] have "at_entry w' (n, c0, D) \<kappa> (probe n \<kappa> d)" .
    ultimately show ?thesis using d(3) w'(2,3) by blast
  next
    assume a: "\<forall>d < MAX_OPEN_HASH_STEPS. \<not> placed n (map_keys (mem w)) \<kappa> d" "EMSkey2index fuel k True w = Some (- 1, w')"
    have "D \<kappa> = None"
    proof (rule ccontr)
      assume "D \<kappa> \<noteq> None"
      then obtain c where "D \<kappa> = Some c" by (auto simp del: split_paired_Ex)
      from table_found [OF r(4) this] a(1) show False by metis
    qed
    then show ?thesis using a(2) w' by blast
  qed
qed

section \<open>Each operation simulates its abstract one\<close>

lemma dict_sim_write:
  assumes fuel: "0 < fuel" and o: "dict_for (OWrite k v ini fin) (DWrite \<kappa> \<delta> ini fin)"
    and c: "dict_cells w (n, c0, D)"
  shows "case dict_step (DWrite \<kappa> \<delta> ini fin) (n, c0, D) of
      None \<Rightarrow> array_step fuel nt (OWrite k v ini fin) w = None \<or>
        (\<exists>w'. array_step fuel nt (OWrite k v ini fin) w = Some (None, w')) \<and> no_room (n, c0, D) \<kappa>
    | Some (out, x) \<Rightarrow> (\<exists>w'. array_step fuel nt (OWrite k v ini fin) w = Some (Some out, w') \<and> dict_cells w' x) \<or>
        (\<exists>w'. array_step fuel nt (OWrite k v ini fin) w = Some (None, w')) \<and> (text_datum \<delta> \<or> no_room (n, c0, D) \<kappa>)"
proof -
  have k: "dict_key k \<kappa>" "value_ok v \<delta>" "write_args ini fin" using o by simp_all
  have q: "quiet w" "dict_rep (mem w) (n, c0, D)" using c by (simp_all add: dict_cells.simps)
  obtain f d where fd: "cell_of c0 D \<kappa> = (f, d)" by (cases "cell_of c0 D \<kappa>")
  from dict_index_write [OF q k(1) fuel] show ?thesis
  proof (elim disjE exE conjE)
    fix w' assume "EMSwriteIndexMap fuel k w = Some (- 1, w')" "no_room (n, c0, D) \<kappa>"
    then show ?thesis using fd by (simp add: EMSwriteUsingTags_def)
  next
    fix j w1 assume ix: "EMSwriteIndexMap fuel k w = Some (j, w1)" "libc_malloc w1 = libc_malloc w"
      and e: "at_entry w1 (n, c0, D(\<kappa> := Some (cell_of c0 D \<kappa>))) \<kappa> j"
    have eq: "EMSwriteUsingTags fuel k v ini fin w = write_at fuel j v ini fin w1"
      using ix(1) at_entryD(3) [OF e] by (simp add: EMSwriteUsingTags_def)
    have D': "(D(\<kappa> := Some (cell_of c0 D \<kappa>))) \<kappa> = Some (f, d)" using fd by simp
    show ?thesis
    proof (cases "state_after ini f = f")
      case True
      from dict_write [OF e fuel k(2) D' True k(3), unfolded fun_upd_upd] True eq fd ix(2) c show ?thesis
        by (auto simp: dict_cells.simps)
    next
      case False
      then obtain f' where "ini = FE f'" "f' \<noteq> f" by (cases ini) auto
      with dict_blocked(2) [OF e D'] eq fd show ?thesis by simp
    qed
  qed
qed

lemma dict_sim_read:
  assumes fuel: "0 < fuel" and o: "dict_for (ORead k f g) (DRead \<kappa> f g)" and c: "dict_cells w (n, c0, D)"
  shows "case dict_step (DRead \<kappa> f g) (n, c0, D) of
      None \<Rightarrow> array_step fuel nt (ORead k f g) w = None \<or>
        (\<exists>w'. array_step fuel nt (ORead k f g) w = Some (None, w')) \<and> no_room (n, c0, D) \<kappa>
    | Some (out, x) \<Rightarrow> (\<exists>w'. array_step fuel nt (ORead k f g) w = Some (Some out, w') \<and> dict_cells w' x) \<or>
        (\<exists>w'. array_step fuel nt (ORead k f g) w = Some (None, w')) \<and> no_room (n, c0, D) \<kappa>"
proof -
  have k: "dict_key k \<kappa>" "settled f" "settled g" using o by simp_all
  then have f: "f \<noteq> EMS_TAG_RW_LOCK" by (auto simp: settled_def)
  have q: "quiet w" "dict_rep (mem w) (n, c0, D)" using c by (simp_all add: dict_cells.simps)
  note r = dict_repD [OF q(2)]
  let ?ret = "no_value\<lparr>vtype := EMS_TYPE_UNDEFINED, val := PInt 0xdeafbeef\<rparr>"
  obtain f' d where fd: "cell_of c0 D \<kappa> = (f', d)" by (cases "cell_of c0 D \<kappa>")
  have "(\<exists>w'. EMSreadUsingTags fuel nt k no_value (FE f) (FE g) w = Some (False, ?ret, w')) \<and> no_room (n, c0, D) \<kappa> \<or>
    (\<exists>j w'. EMSreadUsingTags fuel nt k no_value (FE f) (FE g) w = read_loop fuel j (FE f) (FE g) ?ret nt w' \<and>
       libc_malloc w' = libc_malloc w \<and> at_entry w' (n, c0, D(\<kappa> := Some (cell_of c0 D \<kappa>))) \<kappa> j)"
    using dict_lookup [OF q k(1) fuel]
  proof (elim disjE exE conjE)
    fix w1 assume D: "D \<kappa> = None" and ix: "EMSkey2index fuel k True w = Some (- 1, w1)" "quiet w1" "mem w1 = mem w"
      "libc_malloc w1 = libc_malloc w"
    have rd: "EMSreadUsingTags fuel nt k no_value (FE f) (FE g) w = do {
        (idx, w) \<leftarrow> EMSwriteIndexMap fuel k w1;
        if idx < 0 \<or> idx \<ge> nelem (mem w) then Some (False, ?ret, w) else read_loop fuel idx (FE f) (FE g) ?ret nt w }"
      using ix r(6) by (simp add: EMSreadUsingTags_def Let_def)
    have "dict_rep (mem w1) (n, c0, D)" using q(2) ix(3) by simp
    from dict_index_write [OF ix(2) this k(1) fuel] show ?thesis
    proof (elim disjE exE conjE)
      fix j w2 assume w2: "EMSwriteIndexMap fuel k w1 = Some (j, w2)" "libc_malloc w2 = libc_malloc w1"
        "at_entry w2 (n, c0, D(\<kappa> := Some (cell_of c0 D \<kappa>))) \<kappa> j"
      from at_entryD(3-5) [OF this(3)] w2 ix(4) rd show ?thesis by (intro disjI2 exI [of _ j] exI [of _ w2]) simp
    qed (simp add: rd)
  next
    fix j w1 assume "D \<kappa> \<noteq> None" "EMSkey2index fuel k True w = Some (j, w1)" "mem w1 = mem w"
      "libc_malloc w1 = libc_malloc w" "at_entry w1 (n, c0, D) \<kappa> j"
    moreover from this have "D(\<kappa> := Some (cell_of c0 D \<kappa>)) = D" by (auto simp: cell_of_def fun_eq_iff)
    ultimately show ?thesis using at_entryD(3,4,5) [of w1 n c0 D \<kappa> j] r(6)
      by (intro disjI2 exI [of _ j] exI [of _ w1]) (simp add: EMSreadUsingTags_def Let_def)
  qed
  then show ?thesis
  proof (elim disjE exE conjE)
    fix j w1 assume eq: "EMSreadUsingTags fuel nt k no_value (FE f) (FE g) w = read_loop fuel j (FE f) (FE g) ?ret nt w1"
      "libc_malloc w1 = libc_malloc w" and e: "at_entry w1 (n, c0, D(\<kappa> := Some (cell_of c0 D \<kappa>))) \<kappa> j"
    have D': "(D(\<kappa> := Some (cell_of c0 D \<kappa>))) \<kappa> = Some (f', d)" using fd by simp
    show ?thesis
    proof (cases "f' = f")
      case True
      from dict_read [OF e fuel D' k(3), of ?ret nt, unfolded fun_upd_upd True] obtain v w' where
        "read_loop fuel j (FE f) (FE g) ?ret nt w1 = Some (True, v, w')" "quiet w'" "libc_malloc w' = libc_malloc w1"
        "value_datum (mem w') v = Some (norm_datum d)" "dict_rep (mem w') (n, c0, D(\<kappa> := Some (g, d)))" by blast
      then show ?thesis using True eq fd c by (auto simp: dict_cells.simps)
    next
      case False
      with dict_blocked(1) [OF e D', of f "fuel" "FE g" ?ret nt] f eq fd show ?thesis by auto
    qed
  qed (use fd in simp)
qed

section \<open>Plain reads and tags\<close>

lemma dict_sim_peek:
  assumes fuel: "0 < fuel" and k: "dict_key k \<kappa>" and c: "dict_cells w (n, c0, D)"
  shows "\<exists>w'. array_step fuel nt (OPeek k) w =
      Some (Some (Some (case D \<kappa> of None \<Rightarrow> DUndef | Some (_, d) \<Rightarrow> norm_datum d)), w') \<and> dict_cells w' (n, c0, D)"
proof -
  have q: "quiet w" "dict_rep (mem w) (n, c0, D)" using c by (simp_all add: dict_cells.simps)
  note r = dict_repD [OF q(2)]
  let ?ret = "no_value\<lparr>vtype := EMS_TYPE_UNDEFINED, val := PInt 0xdeafbeef\<rparr>"
  obtain fuel' where f: "fuel = Suc fuel'" using fuel by (cases fuel) auto
  from dict_lookup [OF q k fuel] show ?thesis
  proof (elim disjE exE conjE)
    fix w1 assume "D \<kappa> = None" "EMSkey2index fuel k True w = Some (- 1, w1)" "quiet w1" "mem w1 = mem w"
      "libc_malloc w1 = libc_malloc w"
    then show ?thesis using r(6) c
      by (intro exI [of _ w1]) (auto simp: EMSread_def EMSreadUsingTags_def Let_def value_datum_def dict_cells.simps)
  next
    fix j w1 assume ix: "EMSkey2index fuel k True w = Some (j, w1)" "mem w1 = mem w" "libc_malloc w1 = libc_malloc w"
      and e: "at_entry w1 (n, c0, D) \<kappa> j"
    note ed = at_entryD [OF e]
    obtain f d where cell: "D \<kappa> = Some (f, d)" "slot_datum (mem w1) (dataIdx j) = Some d" using at_entry_cell [OF e] by metis
    let ?b = "(tag (mem w1) (dataIdx j))\<lparr>fe := EMS_TAG_BUSY\<rparr>"
    have rd: "EMSread fuel nt k no_value w = read_finish j EMS_TAG_ANY ?ret ?b (yield w1)"
      using ix r(6) ed(3-5) f by (simp add: EMSread_def EMSreadUsingTags_def Let_def read_may_try_def)
    have "datum_at (mem (yield w1)) (ty ?b) (word (mem (yield w1)) (dataIdx j)) = Some d"
      using cell(2) ed(1) by (simp add: slot_datum_def)
    from read_finish_maps [OF this, of EMS_TAG_ANY ?ret] obtain v where
      v: "read_finish j EMS_TAG_ANY ?ret ?b (yield w1) = Some (True, v, upd (maptag_full j) (yield w1))"
      "\<And>m. heap m = heap (mem w1) \<Longrightarrow> malloc m = malloc (mem w1) \<Longrightarrow> value_datum m v = Some (norm_datum d)"
      using ed(1) by auto
    then show ?thesis using rd ed(1,2) cell(1) ix(3) c
      by (intro exI [of _ "upd (maptag_full j) (yield w1)"]) (auto simp: dict_cells.simps)
  qed
qed

lemma dict_sim_set:
  assumes fuel: "0 < fuel" and k: "dict_key k \<kappa>" and c: "dict_cells w (n, c0, D)"
  shows "(\<exists>w' f d. D \<kappa> = Some (f, d) \<and> array_step fuel nt (OSet k b) w = Some (Some None, w') \<and>
       dict_cells w' (n, c0, D(\<kappa> := Some (if b then EMS_TAG_FULL else EMS_TAG_EMPTY, d)))) \<or>
    (\<exists>w'. array_step fuel nt (OSet k b) w = Some (None, w')) \<and> D \<kappa> = None"
proof -
  have q: "quiet w" "dict_rep (mem w) (n, c0, D)" using c by (simp_all add: dict_cells.simps)
  note r = dict_repD [OF q(2)]
  let ?g = "if b then EMS_TAG_FULL else EMS_TAG_EMPTY"
  from dict_lookup [OF q k fuel] show ?thesis
  proof (elim disjE exE conjE)
    fix w1 assume "D \<kappa> = None" "EMSkey2index fuel k True w = Some (- 1, w1)" "quiet w1" "mem w1 = mem w"
    then show ?thesis using r(6) by (simp add: EMSsetTag_def)
  next
    fix j w1 assume ix: "EMSkey2index fuel k True w = Some (j, w1)" "mem w1 = mem w" "libc_malloc w1 = libc_malloc w"
      and e: "at_entry w1 (n, c0, D) \<kappa> j"
    note ed = at_entryD [OF e]
    obtain f d where cell: "D \<kappa> = Some (f, d)" using at_entry_cell [OF e] by metis
    let ?m = "set_tag (dataIdx j) ((tag (mem w1) (dataIdx j))\<lparr>fe := ?g\<rparr>) (mem w1)"
    have "map_ok (mem w1)" using r(1) ix(2) by simp
    then have "fe (tag (mem w1) (mapIdx (mem w1) j)) = EMS_TAG_FULL" using ed(3-5) by (simp add: map_ok_def)
    then have "maptag_full j ?m = ?m"
      using ed(8) by (intro ems_eqI) (auto simp: maptag_full_def fe_update_same)
    then have m: "mem (upd (\<lambda>m. set_fe (dataIdx j) ?g m) w1) = maptag_full j ?m" by (simp add: set_fe_def)
    have "settled ?g" by (simp add: settled_def)
    with dict_set_tag [OF e cell _ _ m] ed(1) ix(1,3) r(6) ed(3-5) cell c show ?thesis
      by (auto simp: EMSsetTag_def dict_cells.simps)
  qed
qed

section \<open>Compare and swap, fetch and add\<close>

lemma dict_sim_cas:
  assumes fuel: "0 < fuel" and o: "dict_for (OCas k old v) (DCas \<kappa> \<epsilon> \<delta>)" and c: "dict_cells w (n, c0, D)"
    and ok: "dict_ok (DCas \<kappa> \<epsilon> \<delta>) (n, c0, D)"
  shows "case dict_step (DCas \<kappa> \<epsilon> \<delta>) (n, c0, D) of
      None \<Rightarrow> array_step fuel nt (OCas k old v) w = None
    | Some (out, x) \<Rightarrow> (\<exists>w'. array_step fuel nt (OCas k old v) w = Some (Some out, w') \<and> dict_cells w' x) \<or>
        (\<exists>w'. array_step fuel nt (OCas k old v) w = Some (None, w')) \<and> (text_datum \<delta> \<or> no_room (n, c0, D) \<kappa>)"
proof -
  have k: "dict_key k \<kappa>" "\<forall>m. value_datum m old = Some \<epsilon>" "value_ok v \<delta>" using o by simp_all
  have q: "quiet w" "dict_rep (mem w) (n, c0, D)" "\<forall>x. libc_malloc w x" using c by (simp_all add: dict_cells.simps)
  note r = dict_repD [OF q(2)]
  from dict_lookup [OF q(1,2) k(1) fuel] show ?thesis
  proof (elim disjE exE conjE)
    fix j w1 assume ix: "EMSkey2index fuel k True w = Some (j, w1)" "mem w1 = mem w" "libc_malloc w1 = libc_malloc w"
      and e: "at_entry w1 (n, c0, D) \<kappa> j"
    have eq: "EMScas fuel k old v no_value w = cas_at fuel j old v no_value w1"
      using ix at_entryD(3-5) [OF e] r(6) by (simp add: EMScas_def)
    obtain f d where D: "D \<kappa> = Some (f, d)" using at_entry_cell [OF e] by metis
    have copy: "old_copy_ok w1 d" using q(3) ix(3) by (simp add: old_copy_ok_def)
    show ?thesis
    proof (cases "f = EMS_TAG_FULL")
      case True
      from dict_cas [OF e fuel D [unfolded True] copy k(2,3), of no_value] eq D True q(3) ix(3) show ?thesis
        by (fastforce simp: dict_cells.simps)
    next
      case False
      from dict_blocked_rmw(1) [OF e D False] eq D False show ?thesis by simp
    qed
  next
    fix w1 assume D: "D \<kappa> = None" and ix: "EMSkey2index fuel k True w = Some (- 1, w1)" "quiet w1" "mem w1 = mem w"
      "libc_malloc w1 = libc_malloc w"
    have \<epsilon>: "\<epsilon> = DUndef" using ok D by simp
    then have ot: "vtype old = EMS_TYPE_UNDEFINED" using k(2)
      by (cases "vtype old") (auto simp: value_datum_def)
    let ?ret = "no_value\<lparr>vtype := EMS_TYPE_UNDEFINED, val := PInt 0xf00dcafe\<rparr>"
    let ?undef = "\<lparr>fe = EMS_TAG_FULL, ty = EMS_TYPE_UNDEFINED, rw = 0\<rparr>"
    have eq: "EMScas fuel k old v no_value w = do {
        (idx, w) \<leftarrow> EMSwriteIndexMap fuel k w1;
        if idx < 0 then Some (False, ?ret, w)
        else cas_at fuel idx old v ?ret (upd (set_tag (dataIdx idx) ?undef) (upd (set_word (dataIdx idx) 0xcafebabe) w)) }"
      using ix r(2,5,6) ot by (simp add: EMScas_def cas_absent_def Let_def)
    have "dict_rep (mem w1) (n, c0, D)" using q(2) ix(3) by simp
    from dict_index_write [OF ix(2) this k(1) fuel] show ?thesis
    proof (elim disjE exE conjE)
      fix w2 assume "EMSwriteIndexMap fuel k w1 = Some (- 1, w2)" "no_room (n, c0, D) \<kappa>"
      then show ?thesis using eq D by simp
    next
      fix j w2 assume w2: "EMSwriteIndexMap fuel k w1 = Some (j, w2)" "libc_malloc w2 = libc_malloc w1"
        and e: "at_entry w2 (n, c0, D(\<kappa> := Some (cell_of c0 D \<kappa>))) \<kappa> j"
      let ?a = "dataIdx j" let ?w3 = "upd (set_tag ?a ?undef) (upd (set_word ?a 0xcafebabe) w2)"
      note ed = at_entryD [OF e]
      have "owned (mem w2) (all_texts (mem w2) - {?a})"
        using dict_repD(3) [OF ed(2)] by (auto intro: owned_subset)
      then have own: "owned (mem ?w3) (all_texts (mem w2) - {?a})" using ed(3) by (simp add: owned_set_word)
      have "at_entry ?w3 (n, c0, (D(\<kappa> := Some (cell_of c0 D \<kappa>)))(\<kappa> := Some (fe ?undef, DUndef))) \<kappa> j"
      proof (rule at_entry_change(2) [OF e refl, where m' = "mem ?w3" and t = ?undef and x = "0xcafebabe" and w' = ?w3])
        show "owned (mem ?w3) (if is_text (ty ?undef) then insert ?a (all_texts (mem w2)) else all_texts (mem w2) - {?a})"
          using own by (simp add: is_text_def)
      qed (use ed(1) in \<open>simp_all add: settled_def\<close>)
      then have e3: "at_entry ?w3 (n, c0, D(\<kappa> := Some (EMS_TAG_FULL, DUndef))) \<kappa> j" by simp
      have D3: "(D(\<kappa> := Some (EMS_TAG_FULL, DUndef))) \<kappa> = Some (EMS_TAG_FULL, DUndef)" by simp
      have mal: "libc_malloc ?w3 = libc_malloc w" using w2(2) ix(4) by simp
      have copy: "old_copy_ok ?w3 DUndef" using q(3) mal by (simp add: old_copy_ok_def)
      have "EMScas fuel k old v no_value w = cas_at fuel j old v ?ret ?w3" using eq w2(1) ed(3) by simp
      with dict_cas [OF e3 fuel D3 copy k(2,3), of ?ret, unfolded fun_upd_upd] mal q(3) D \<epsilon> show ?thesis
        by (fastforce simp: dict_cells.simps)
    qed
  qed
qed

lemma dict_sim_faa:
  assumes fuel: "0 < fuel" and o: "dict_for (OFaa k v) (DFaa \<kappa> \<epsilon>)" and c: "dict_cells w (n, c0, D)"
  shows "case dict_step (DFaa \<kappa> \<epsilon>) (n, c0, D) of
      None \<Rightarrow> array_step fuel nt (OFaa k v) w = None \<or>
        (\<exists>w'. array_step fuel nt (OFaa k v) w = Some (None, w')) \<and> no_room (n, c0, D) \<kappa>
    | Some (out, x) \<Rightarrow> dict_ok (DFaa \<kappa> \<epsilon>) (n, c0, D) \<longrightarrow>
        (\<exists>w'. array_step fuel nt (OFaa k v) w = Some (Some out, w') \<and> dict_cells w' x) \<or>
        (\<exists>w'. array_step fuel nt (OFaa k v) w = Some (None, w')) \<and> dict_may_fail (DFaa \<kappa> \<epsilon>) (n, c0, D)"
proof -
  have k: "dict_key k \<kappa>" "value_ok v \<epsilon>" "len v < 2 ^ 62" using o by simp_all
  have q: "quiet w" "dict_rep (mem w) (n, c0, D)" "\<forall>x. libc_malloc w x" using c by (simp_all add: dict_cells.simps)
  obtain f d where fd: "cell_of c0 D \<kappa> = (f, d)" by (cases "cell_of c0 D \<kappa>")
  from dict_index_write [OF q(1,2) k(1) fuel] show ?thesis
  proof (elim disjE exE conjE)
    fix w' assume "EMSwriteIndexMap fuel k w = Some (- 1, w')" "no_room (n, c0, D) \<kappa>"
    then show ?thesis using fd by (simp add: EMSfaa_def)
  next
    fix j w1 assume ix: "EMSwriteIndexMap fuel k w = Some (j, w1)" "libc_malloc w1 = libc_malloc w"
      and e: "at_entry w1 (n, c0, D(\<kappa> := Some (cell_of c0 D \<kappa>))) \<kappa> j"
    have eq: "EMSfaa fuel k v no_value w = faa_at fuel j v no_value w1"
      using ix at_entryD(3-5) [OF e] by (simp add: EMSfaa_def)
    have D': "(D(\<kappa> := Some (cell_of c0 D \<kappa>))) \<kappa> = Some (f, d)" using fd by simp
    show ?thesis
    proof (cases "f = EMS_TAG_FULL \<and> dict_ok (DFaa \<kappa> \<epsilon>) (n, c0, D)")
      case True
      then have True: "f = EMS_TAG_FULL" and ok: "dict_ok (DFaa \<kappa> \<epsilon>) (n, c0, D)" by simp_all
      have okd: "datum_add d \<epsilon> = Some (the (datum_add d \<epsilon>))" "sum_prints d \<epsilon>" "datum_bytes d < 2 ^ 62"
        using ok fd by (auto simp: Let_def)
      have rq: "request_ok (faa_bytes d v)" using faa_request [OF okd(3) k(3)] .
      have copy: "old_copy_ok w1 d" using q(3) ix(2) by (simp add: old_copy_ok_def)
      from dict_faa [OF e fuel D' [unfolded True] copy k(2) okd(1,2) rq, of no_value, unfolded fun_upd_upd] show ?thesis
      proof (elim disjE exE conjE)
        fix u w' assume "faa_at fuel j v no_value w1 = Some (True, u, w')" "quiet w'" "libc_malloc w' = libc_malloc w1"
          "value_datum (mem w') u = Some (norm_datum d)" "dict_rep (mem w') (n, c0, D(\<kappa> := Some (EMS_TAG_FULL, the (datum_add d \<epsilon>))))"
        then show ?thesis using eq fd True ix(2) q(3) by (auto simp: dict_cells.simps)
      qed (use eq fd True in \<open>simp_all\<close>)
    next
      case False
      then show ?thesis using dict_blocked_rmw(2) [OF e D'] eq fd by (cases "f = EMS_TAG_FULL") auto
    qed
  qed
qed

end
