(* ===== verification/EmsDictFacts.thy ===== *)
theory EmsDictFacts
  imports EmsDictOps
begin

text \<open>
  Sequences of reads and writes under keys refine the dictionary: the interface \<open>simulation\<close> of
  \<open>EmsMemory\<close> interpreted on mapped arrays.
\<close>

section \<open>The interface\<close>

lemma dict_step_sim:
  assumes fuel: "0 < fuel" and o: "dict_for x y" and c: "dict_cells w a"
  shows "case dict_step y a of
      None \<Rightarrow> array_step fuel nt x w = None \<or> (\<exists>w'. array_step fuel nt x w = Some (None, w')) \<and> dict_may_fail y a
    | Some (out, a') \<Rightarrow> dict_ok y a \<longrightarrow>
        (\<exists>w'. array_step fuel nt x w = Some (Some out, w') \<and> dict_cells w' a') \<or>
        (\<exists>w'. array_step fuel nt x w = Some (None, w')) \<and> dict_may_fail y a"
proof -
  obtain n c0 D where a: "a = (n, c0, D)" by (cases a)
  show ?thesis
  proof (cases y)
    case (DWrite \<kappa> \<delta> ini fin)
    with o obtain k v where x: "x = OWrite k v ini fin" by (cases x) auto
    have "dict_for (OWrite k v ini fin) (DWrite \<kappa> \<delta> ini fin)" using o x DWrite by simp
    from dict_sim_write [OF fuel this c [unfolded a], of nt] show ?thesis unfolding x DWrite a
      by (auto simp del: dict_step.simps array_step.simps split: option.splits)
  next
    case (DRead \<kappa> f g)
    with o obtain k where x: "x = ORead k f g" by (cases x) auto
    have "dict_for (ORead k f g) (DRead \<kappa> f g)" using o x DRead by simp
    from dict_sim_read [OF fuel this c [unfolded a], of nt] show ?thesis unfolding x DRead a
      by (auto simp del: dict_step.simps array_step.simps split: option.splits)
  next
    case (DPeek \<kappa>)
    with o obtain k where x: "x = OPeek k" "dict_key k \<kappa>" by (cases x) auto
    from dict_sim_peek [OF fuel x(2) c [unfolded a], of nt] show ?thesis unfolding x(1) DPeek a by simp
  next
    case (DCas \<kappa> e d)
    with o obtain k old v where x: "x = OCas k old v" by (cases x) auto
    have "dict_for (OCas k old v) (DCas \<kappa> e d)" using o x DCas by simp
    note sim = dict_sim_cas [OF fuel this c [unfolded a], of nt]
    have none: "dict_ok (DCas \<kappa> e d) (n, c0, D)" if "dict_step (DCas \<kappa> e d) (n, c0, D) = None"
      using that by (cases "D \<kappa>") auto
    show ?thesis
    proof (cases "dict_ok (DCas \<kappa> e d) (n, c0, D)")
      case True
      from sim [OF this] show ?thesis unfolding x DCas a
        by (auto simp del: dict_step.simps array_step.simps split: option.splits)
    next
      case False
      then show ?thesis using none unfolding x DCas a
        by (auto simp del: dict_step.simps array_step.simps dict_ok.simps split: option.splits)
    qed
  next
    case (DFaa \<kappa> e)
    with o obtain k v where x: "x = OFaa k v" by (cases x) auto
    have "dict_for (OFaa k v) (DFaa \<kappa> e)" using o x DFaa by simp
    moreover have "no_room (n, c0, D) \<kappa> \<Longrightarrow> dict_may_fail (DFaa \<kappa> e) (n, c0, D)" by simp
    ultimately show ?thesis using dict_sim_faa [OF fuel _ c [unfolded a], of k v \<kappa> e nt] unfolding x DFaa a
      by (auto simp del: dict_step.simps array_step.simps dict_ok.simps dict_may_fail.simps split: option.splits)
  next
    case (DSet \<kappa> b)
    with o obtain k where x: "x = OSet k b" "dict_key k \<kappa>" by (cases x) auto
    from dict_sim_set [OF fuel x(2) c [unfolded a], of nt b] show ?thesis unfolding x(1) DSet a
      by (cases c0) (auto simp: cell_of_def)
  qed
qed

interpretation dict: simulation dict_cells "array_step (Suc fuel) nt" dict_step dict_for dict_ok dict_may_fail for fuel nt
proof
  fix w :: world and a :: dictionary and x y
  assume a: "dict_cells w a" "dict_for x y"
  note s = dict_step_sim [OF zero_less_Suc a(2,1), of fuel nt]
  show "(\<exists>w'. array_step (Suc fuel) nt x w = Some (Some out, w') \<and> dict_cells w' a') \<or>
      (\<exists>w'. array_step (Suc fuel) nt x w = Some (None, w')) \<and> dict_may_fail y a"
    if "dict_ok y a" "dict_step y a = Some (out, a')" for out a'
    using s that by simp
  show "array_step (Suc fuel) nt x w = None \<or>
      (\<exists>w'. array_step (Suc fuel) nt x w = Some (None, w')) \<and> dict_may_fail y a" if "dict_step y a = None"
    using s that by simp
qed

section \<open>An empty map\<close>

lemma empty_dict:
  assumes "map_ok m" "nelem m = n" "1 < n" "owned m (all_texts m)" "settled (fst c0)"
    and "\<And>j. 0 \<le> j \<Longrightarrow> j < n \<Longrightarrow> entry_free m j" "\<And>j. 0 \<le> j \<Longrightarrow> j < n \<Longrightarrow> map_cells m j = Some c0"
  shows "dict_rep m (n, c0, \<lambda>_. None)"
  using assms by (simp add: dict_rep.simps table_of_def free_datum)

lemma blank_map_dict:
  assumes "1 < n" "n < 2 ^ 31" "level < 59"
  shows "dict_cells (alone (blank_map n level)) (n, (EMS_TAG_EMPTY, DInt 0), \<lambda>_. None)"
proof -
  let ?m = "blank_map n level"
  have N: "0 < n" using assms(1) by simp
  have tags: "tag ?m (dataIdx j) = \<lparr>fe = EMS_TAG_EMPTY, ty = EMS_TYPE_INTEGER, rw = 0\<rparr>" "word ?m (dataIdx j) = 0"
    if "0 \<le> j" "j < n" for j
    using that by (auto simp: blank_map_def Let_def blank_ems_def dataIdx_def ems_cb_defs nat_eq_iff2)
  have "all_texts ?m = {}" using N tags by (auto simp: all_texts_def texts_def data_slots_def map_slots_def is_text_def)
  moreover have "owned ?m {}" using blank_map_owned [OF N assms(3)] by (simp add: map_owned_def)
  moreover have "entry_free ?m j" if "0 \<le> j" for j using that N by (simp add: entry_free_def)
  moreover have "map_cells ?m j = Some (EMS_TAG_EMPTY, DInt 0)" if "0 \<le> j" "j < n" for j
    using tags [OF that] by (simp add: map_cells_def slot_datum_def)
  ultimately show ?thesis
    using empty_dict [of ?m n "(EMS_TAG_EMPTY, DInt 0)"] blank_map_ok [OF N assms(2)] assms(1) N
    by (simp add: dict_cells.simps settled_def)
qed

definition undef_value :: EMSvalueType where
  "undef_value = \<lparr>len = 0, val = PInt 0, vtype = EMS_TYPE_UNDEFINED\<rparr>"

lemma int_dict_key: "\<bar>i\<bar> < 2 ^ 63 \<Longrightarrow> dict_key (int_value i) (DInt i)"
  by (simp add: dict_key_def int_value_ok)

section \<open>Property\<close>

text \<open>
  C2: any sequence of writes, reads, compare and swaps, fetch and adds and tag changes under keys
  (booleans, integers, texts, doubles other than NaN and minus zero) by a client that is alone on a
  mapped array gives exactly the results of the same operations on a dictionary from keys to full/empty cells, and waits for ever exactly
  where that one is stuck: distinct keys never share an element, however they collide. It may stop
  earlier, only at the storing of a text, at the tag of an absent key, or at a new key when it is a
  text or the array holds as many keys as it has elements (or 200, if that is less).
\<close>

theorem EMS_map_refines_dictionary:
  assumes "dict_cells w x" "list_all2 dict_for ops dops" "along dict_step dict_ok dops x" "0 < fuel"
  shows "crun (array_step fuel newTag) ops w = arun dict_step dops x \<or>
    (\<exists>outs. crun (array_step fuel newTag) ops w = (outs, Failed) \<and> prefix outs (fst (arun dict_step dops x)) \<and>
       \<not> along dict_step (\<lambda>y x. \<not> dict_may_fail y x) dops x)"
  using dict.run_sim [OF assms(1-3), of "fuel - 1" newTag] assms(4) by simp

text \<open>
  The keys 5 and 9 collide in an array of four elements. 5 is written; 9 is made by a compare and
  swap with undefined, then 1 is added to it; both are taken out. The key 13 is not there, and the
  last read waits for a new value under 5.
\<close>

theorem EMS_map_refines_dictionary_witness:
  "crun (array_step 1000 (byte_tag 0))
     [OWrite (int_value 5) (int_value 50) (FE EMS_TAG_EMPTY) (FE EMS_TAG_FULL),
      OCas (int_value 9) undef_value (int_value 90), OFaa (int_value 9) (int_value 1),
      ORead (int_value 5) EMS_TAG_FULL EMS_TAG_EMPTY, ORead (int_value 9) EMS_TAG_FULL EMS_TAG_EMPTY,
      OPeek (int_value 13), ORead (int_value 5) EMS_TAG_FULL EMS_TAG_EMPTY] (alone (blank_map 4 2)) =
   ([None, Some DUndef, Some (DInt 90), Some (DInt 50), Some (DInt 91), Some DUndef], Blocked)"
proof -
  let ?x = "(4, (EMS_TAG_EMPTY, DInt 0), \<lambda>_. None) :: dictionary"
  let ?ops = "[OWrite (int_value 5) (int_value 50) (FE EMS_TAG_EMPTY) (FE EMS_TAG_FULL),
      OCas (int_value 9) undef_value (int_value 90), OFaa (int_value 9) (int_value 1),
      ORead (int_value 5) EMS_TAG_FULL EMS_TAG_EMPTY, ORead (int_value 9) EMS_TAG_FULL EMS_TAG_EMPTY,
      OPeek (int_value 13), ORead (int_value 5) EMS_TAG_FULL EMS_TAG_EMPTY]"
  let ?dops = "[DWrite (DInt 5) (DInt 50) (FE EMS_TAG_EMPTY) (FE EMS_TAG_FULL),
      DCas (DInt 9) DUndef (DInt 90), DFaa (DInt 9) (DInt 1),
      DRead (DInt 5) EMS_TAG_FULL EMS_TAG_EMPTY, DRead (DInt 9) EMS_TAG_FULL EMS_TAG_EMPTY,
      DPeek (DInt 13), DRead (DInt 5) EMS_TAG_FULL EMS_TAG_EMPTY]"
  have c: "dict_cells (alone (blank_map 4 2)) ?x" by (rule blank_map_dict) simp_all
  have o: "list_all2 dict_for ?ops ?dops"
    by (simp add: int_dict_key int_value_ok settled_def) (simp add: undef_value_def value_datum_def int_value_def)
  have r: "arun dict_step ?dops ?x = ([None, Some DUndef, Some (DInt 90), Some (DInt 50), Some (DInt 91), Some DUndef], Blocked)"
    by (simp add: cell_of_def)
  have ok: "along dict_step (\<lambda>y x. \<not> dict_may_fail y x) ?dops ?x"
    by (simp add: cell_of_def no_room_def MAX_OPEN_HASH_STEPS_def)
  have adm: "along dict_step dict_ok ?dops ?x" by (simp add: cell_of_def)
  have "(0::nat) < 1000" by simp
  from EMS_map_refines_dictionary [OF c o adm this, of "byte_tag 0"] ok show ?thesis unfolding r by blast
qed

end
