(* ===== verification/EmsInitFacts.thy ===== *)
theory EmsInitFacts
  imports EmsInit EmsStack EmsQueue EmsDictFacts EmsCollectives
begin

text \<open>
  What the initialisation establishes: the processes share out the elements, an array starts as
  the abstract cells, the empty stack, the empty queue and the empty map that the other theories
  work on, and the control block starts as the barrier, the critical region and the single
  execution expect it. The table of buffers hands out free entries.
\<close>

section \<open>The control block of an array\<close>

lemma ctzl_power [simp]: "ctzl (2 ^ k) = k"
  by (induction k) (subst ctzl.simps, simp)+

text \<open>The memory of a new file is zero, so the allocator's tree is all \<open>BUDDY_UNUSED\<close>.\<close>

definition fresh_tree :: "ems \<Rightarrow> bool" where
  "fresh_tree m \<longleftrightarrow> m_tree (malloc m) = (\<lambda>_. BUDDY_UNUSED)"

text \<open>The levels of the heap: its size is the bytes it was asked for, rounded up.\<close>

lemma heap_levels:
  assumes "heapSize ar < 2 ^ 63"
  obtains k where "emsNextPow2 (nMemBlocks (heapSize ar)) = Some (2 ^ k)" "k < 59"
    "heapSize ar < 2 ^ k * EMS_MEM_BLOCKSZ"
proof -
  let ?x = "nMemBlocks (heapSize ar)"
  have x: "0 < ?x" "?x \<le> 2 ^ 58" using assms by (simp_all add: nMemBlocks_def EMS_MEM_BLOCKSZ_def)
  then have "?x \<le> 2 ^ 63" by simp
  from emsNextPow2_spec [OF x(1) this] obtain k where
    k: "emsNextPow2 ?x = Some (2 ^ k)" "?x \<le> 2 ^ k" "2 ^ k < 2 * ?x" by blast
  have "(2::nat) ^ k < 2 ^ 59" using k(3) x(2) by simp
  then have "k < 59" by (subst (asm) power_strict_increasing_iff) simp_all
  moreover have "heapSize ar < 2 ^ k * 32" using k(2) by (simp add: nMemBlocks_def EMS_MEM_BLOCKSZ_def)
  ultimately show thesis using k(1) that by (simp add: EMS_MEM_BLOCKSZ_def)
qed

definition header_ok :: "init_args \<Rightarrow> ems \<Rightarrow> bool" where
  "header_ok ar m \<longleftrightarrow> nelem m = nElements ar \<and> EMSisMapped m = useMap ar \<and>
     word m EMS_ARR_STACKTOP = 0 \<and> word m EMS_ARR_Q_BOTTOM = 0 \<and>
     fe (tag m EMS_ARR_STACKTOP) = EMS_TAG_FULL \<and> fe (tag m EMS_ARR_Q_BOTTOM) = EMS_TAG_FULL"

lemma init_header_facts:
  assumes "0 < nElements ar" "heapSize ar < 2 ^ 63" "fresh_tree m"
  obtains m' where "init_header ar m = Some m'" "header_ok ar m'" "owned m' {}"
proof -
  from heap_levels [OF assms(2)] obtain k where
    k: "emsNextPow2 (nMemBlocks (heapSize ar)) = Some (2 ^ k)" "k < 59" .
  from k(1) obtain m' where m': "init_header ar m = Some m'" by (simp add: init_header_def Let_def)
  note def = m' [unfolded init_header_def k(1) Let_def, simplified, symmetric]
  have mem: "malloc m' = \<lparr>m_level = k, m_tree = \<lambda>_. BUDDY_UNUSED\<rparr>"
    using assms(3) by (simp add: def set_word_def set_tag_def fresh_tree_def)
  have "mem_inv (malloc m')" using wfT_new [of k 0 "\<lambda>_. BUDDY_UNUSED"] by (simp add: mem_inv_def mem)
  then have "owned m' {}"
    using k(2) by (simp add: owned_def mem unlocked_def) (simp add: def set_word_def set_tag_def ems_cb_defs low_byte_def)
  moreover have "EMSisMapped m' = useMap ar"
  proof -
    have "word m' EMS_ARR_MAPBOT * int EMSwordSize = int (mapbot_word (nat (nElements ar)) * EMSwordSize)"
      "word m' EMS_ARR_MALLOCBOT = int (bottomOfMalloc (nat (nElements ar)) (useMap ar))"
      by (simp_all add: def set_word_def set_tag_def ems_cb_defs)
    then show ?thesis using mapped_iff_useMap [of "nat (nElements ar)" "useMap ar"]
      unfolding EMSisMapped_def by (simp only: of_nat_eq_iff)
  qed
  then have "header_ok ar m'"
    unfolding header_ok_def by (simp add: nelem_def) (simp add: def set_word_def set_tag_def ems_cb_defs)
  ultimately show thesis using m' that by blast
qed

section \<open>Sharing out the elements\<close>

lemma div_range:
  assumes "0 < (k::int)"
  shows "k * p \<le> i \<and> i < k * (p + 1) \<longleftrightarrow> i div k = p"
proof
  assume "k * p \<le> i \<and> i < k * (p + 1)"
  then show "i div k = p" by (intro int_div_pos_eq [of _ _ _ "i - k * p"]) (simp_all add: algebra_simps)
next
  assume "i div k = p"
  then have "i = k * p + i mod k" by (metis mult_div_mod_eq)
  then show "k * p \<le> i \<and> i < k * (p + 1)"
    using pos_mod_bound [OF assms, of i] pos_mod_sign [OF assms, of i] by (simp add: algebra_simps)
qed

lemma iterPerThread_eq:
  assumes "0 < nElements ar" "0 < nThreads ar"
  shows "iterPerThread ar = nElements ar div nThreads ar + 1" "0 < iterPerThread ar"
proof -
  show eq: "iterPerThread ar = nElements ar div nThreads ar + 1"
    using assms by (simp add: iterPerThread_def sdiv_nonneg)
  have "0 \<le> nElements ar div nThreads ar" using assms by (simp add: pos_imp_zdiv_nonneg_iff)
  then show "0 < iterPerThread ar" unfolding eq by simp
qed

lemma share_bounds:
  assumes "0 < nElements ar" "0 < nThreads ar" "0 \<le> myID ar"
  shows "0 \<le> startIter ar" "endIter ar \<le> nElements ar"
    "startIter ar \<le> i \<and> i < endIter ar \<longleftrightarrow> i < nElements ar \<and> i div iterPerThread ar = myID ar"
proof -
  note it = iterPerThread_eq(2) [OF assms(1,2)]
  show "0 \<le> startIter ar" using it assms(3) by (simp add: startIter_def)
  show "endIter ar \<le> nElements ar" by (simp add: endIter_def Let_def)
  show "startIter ar \<le> i \<and> i < endIter ar \<longleftrightarrow> i < nElements ar \<and> i div iterPerThread ar = myID ar"
    unfolding div_range [OF it, symmetric] by (auto simp: startIter_def endIter_def Let_def)
qed

lemma iterPerThread_myID [simp]: "iterPerThread (ar\<lparr>myID := p\<rparr>) = iterPerThread ar"
  by (simp add: iterPerThread_def)

lemma share_owner:
  assumes "0 < nElements ar" "0 < nThreads ar" "0 \<le> i" "i < nElements ar"
  shows "0 \<le> i div iterPerThread ar" "i div iterPerThread ar < nThreads ar"
proof -
  note it = iterPerThread_eq [OF assms(1,2)]
  show "0 \<le> i div iterPerThread ar" using it(2) assms(3) by (simp add: pos_imp_zdiv_nonneg_iff)
  have "nElements ar < nThreads ar * iterPerThread ar"
    using div_range [OF assms(2), of "nElements ar div nThreads ar" "nElements ar"] it(1) by simp
  then have "i < iterPerThread ar * nThreads ar" using assms(4) by (simp add: mult.commute)
  then show "i div iterPerThread ar < nThreads ar"
  proof -
    have "iterPerThread ar * (i div iterPerThread ar) \<le> i" using div_range [OF it(2), of "i div iterPerThread ar" i] by simp
    then have "iterPerThread ar * (i div iterPerThread ar) < iterPerThread ar * nThreads ar"
      using \<open>i < iterPerThread ar * nThreads ar\<close> by simp
    then show ?thesis using it(2) by (simp add: mult_less_cancel_left_pos)
  qed
qed

section \<open>Filling the elements\<close>

text \<open>
  \<open>filled ar f d F m\<close>: of the array \<open>m\<close> with a valid control block, the elements \<open>F\<close> are in
  state \<open>f\<close> and hold the datum \<open>d\<close>, and with a map their entries are free.
\<close>

definition filled :: "init_args \<Rightarrow> fe_state \<Rightarrow> datum \<Rightarrow> int set \<Rightarrow> ems \<Rightarrow> bool" where
  "filled ar f d F m \<longleftrightarrow> header_ok ar m \<and> F \<subseteq> {0..<nElements ar} \<and> owned m (texts m (dataIdx ` F)) \<and>
     (\<forall>i \<in> F. fe (tag m (dataIdx i)) = f \<and> slot_datum m (dataIdx i) = Some d \<and>
        (useMap ar \<longrightarrow> fe (tag m (mapIdx m i)) = EMS_TAG_FULL \<and> ty (tag m (mapIdx m i)) = EMS_TYPE_UNDEFINED))"

text \<open>The arguments ask for state \<open>f\<close> and datum \<open>d\<close> in every element of a new array.\<close>

definition fill_args :: "init_args \<Rightarrow> fe_state \<Rightarrow> datum \<Rightarrow> bool" where
  "fill_args ar f d \<longleftrightarrow> \<not> useExisting ar \<and> doSetFEtags ar \<and>
     f = (if setFEtagsFull ar then EMS_TAG_FULL else EMS_TAG_EMPTY) \<and>
     (if doDataFill ar then value_ok (fillValue ar) d else d = DUndef)"

definition fill_type :: "init_args \<Rightarrow> ems_type" where
  "fill_type ar = (if doDataFill ar then vtype (fillValue ar) else EMS_TYPE_UNDEFINED)"

lemma data_map_disjoint:
  "0 \<le> i \<Longrightarrow> i < nelem m \<Longrightarrow> 0 \<le> j \<Longrightarrow> dataIdx i \<noteq> mapIdx m j"
  "0 \<le> i \<Longrightarrow> i < nelem m \<Longrightarrow> 0 \<le> j \<Longrightarrow> mapIdx m j \<noteq> dataIdx i"
  by (auto simp: dataIdx_def mapIdx_def)

lemma filled_step:
  assumes f: "filled ar f d F m" and i: "0 \<le> i" "i < nElements ar" "i \<notin> F"
    and new: "\<not> useExisting ar" and t: "fe t = f"
    and m1: "tag m1 = tag m" "word m1 = (word m)(dataIdx i := x)" "datum_at m1 (ty t) x = Some d"
      "owned m1 (if is_text (ty t) then insert (dataIdx i) (texts m (dataIdx ` F)) else texts m (dataIdx ` F))"
      "\<forall>b \<in> texts m (dataIdx ` F). heapStr m1 (word m b) = heapStr m (word m b)"
  shows "filled ar f d (insert i F) (fill_map ar i (set_tag (dataIdx i) t m1))"
proof -
  let ?a = "dataIdx i" let ?T = "texts m (dataIdx ` F)" let ?m = "fill_map ar i (set_tag ?a t m1)"
  have h: "header_ok ar m" and F: "F \<subseteq> {0..<nElements ar}" using f by (simp_all add: filled_def)
  then have n: "nelem m = nElements ar" "0 < nElements ar" "EMSisMapped m = useMap ar"
    using i by (simp_all add: header_ok_def)
  have n1: "nelem m1 = nElements ar" using m1(2) n(1) i(1) by (simp add: nelem_def)
  have mp: "mapIdx m' j = mapIdx m j" if "nelem m' = nElements ar" for m' j
    using that n(1) by (simp add: mapIdx_def)
  have w: "word ?m = (word m)(?a := x)" "malloc ?m = malloc m1" "heap ?m = heap m1" "nelem ?m = nElements ar"
    using n1 m1(2) by (simp_all add: fill_map_def set_tag_def set_fe_def Let_def nelem_def)
  let ?U = "(tag m)(?a := t)"
  have "mapIdx (set_tag ?a t m1) i = mapIdx m i" using mp [OF n1] by simp
  then have tag_eq: "tag ?m = (if useMap ar then ?U(mapIdx m i := (?U (mapIdx m i))\<lparr>fe := EMS_TAG_FULL, ty := EMS_TYPE_UNDEFINED\<rparr>) else ?U)"
    using new m1(1) by (simp add: fill_map_def Let_def set_fe_def)
  have ne: "?a \<noteq> mapIdx m i" using data_map_disjoint(1) [of i m i] i n(1) by simp
  have tg: "tag ?m ?a = t" "\<And>b. b \<noteq> ?a \<Longrightarrow> b \<noteq> mapIdx m i \<Longrightarrow> tag ?m b = tag m b"
    "useMap ar \<Longrightarrow> fe (tag ?m (mapIdx m i)) = EMS_TAG_FULL \<and> ty (tag ?m (mapIdx m i)) = EMS_TYPE_UNDEFINED"
    unfolding tag_eq using ne by simp_all
  have dj: "tag ?m (dataIdx j) = (if j = i then t else tag m (dataIdx j))" if "0 \<le> j" "j < nElements ar" for j
    using tg(1,2) that i n(1) data_map_disjoint [of j m i] by auto
  have mj: "tag ?m (mapIdx m j) = tag m (mapIdx m j)" if "j \<in> F" for j
  proof (rule tg(2))
    have j: "0 \<le> j" "j \<noteq> i" using that F i(3) by auto
    then show "mapIdx m j \<noteq> mapIdx m i" using i(1) n by simp
    show "mapIdx m j \<noteq> ?a" using data_map_disjoint(2) [of i m j] i j n(1) by simp
  qed
  have tx: "texts ?m (dataIdx ` insert i F) = (if is_text (ty t) then insert ?a ?T else ?T)"
  proof -
    have "tag ?m (dataIdx j) = tag m (dataIdx j)" if "j \<in> F" for j using that F i dj [of j] by auto
    then have "texts ?m (dataIdx ` F) = ?T" by (intro texts_cong) auto
    then show ?thesis using dj [of i] i by (simp add: texts_insert)
  qed
  have own: "owned ?m (texts ?m (dataIdx ` insert i F))"
  proof -
    have "owned ?m U = owned m1 U" for U
      using w(1-3) m1(2) by (simp add: owned_def string_at_def unlocked_def)
    then show ?thesis using m1(4) unfolding tx by simp
  qed
  have hs: "heapStr ?m y = heapStr m1 y" for y using w(2,3) by (simp add: heapStr_def)
  have el: "fe (tag ?m (dataIdx j)) = f \<and> slot_datum ?m (dataIdx j) = Some d" if j: "j \<in> insert i F" for j
  proof (cases "j = i")
    case True
    have "datum_at ?m (ty t) x = datum_at m1 (ty t) x" by (rule datum_at_cong) (rule hs)
    then show ?thesis using True tg(1) w(1) t m1(3) by (simp add: slot_datum_def)
  next
    case False
    then have jF: "j \<in> F" "0 \<le> j" "j < nElements ar" using j F by auto
    have ne: "dataIdx j \<noteq> ?a" using jF i False by simp
    have "datum_at ?m (ty (tag m (dataIdx j))) (word m (dataIdx j)) = datum_at m (ty (tag m (dataIdx j))) (word m (dataIdx j))"
      using jF(1) m1(5) hs by (intro datum_at_cong) (auto simp: texts_def)
    then show ?thesis using f jF ne dj [OF jF(2,3)] False w(1) by (simp add: filled_def slot_datum_def)
  qed
  have hd: "header_ok ar ?m"
  proof -
    have "tag ?m EMS_ARR_STACKTOP = tag m EMS_ARR_STACKTOP" "tag ?m EMS_ARR_Q_BOTTOM = tag m EMS_ARR_Q_BOTTOM"
      using tg(2) [of EMS_ARR_STACKTOP] tg(2) [of EMS_ARR_Q_BOTTOM] i n mapIdx_cb(2,3) [of i m, THEN not_sym]
      by simp_all
    then show ?thesis using h w(1,4) i(1) by (simp add: header_ok_def EMSisMapped_def)
  qed
  have "useMap ar \<longrightarrow> fe (tag ?m (mapIdx ?m j)) = EMS_TAG_FULL \<and> ty (tag ?m (mapIdx ?m j)) = EMS_TYPE_UNDEFINED"
    if "j \<in> insert i F" for j
    using that tg(3) mj f unfolding mp [OF w(4)] by (cases "j = i") (auto simp: filled_def)
  then show ?thesis using hd own el F i unfolding filled_def by auto
qed

lemma fill_store_eq:
  assumes "vtype v \<in> {EMS_TYPE_BOOLEAN, EMS_TYPE_INTEGER, EMS_TYPE_FLOAT, EMS_TYPE_STRING, EMS_TYPE_JSON, EMS_TYPE_UNDEFINED}"
  shows "fill_store fuel a v w = do {
    (stored, w) \<leftarrow> write_store fuel a v w;
    Some (if stored then None else Some 0, w)
  }"
  using assms by (auto simp: fill_store_def write_store_def bind_assoc)

lemma value_ok_type: "value_ok v d \<Longrightarrow> vtype v \<in>
    {EMS_TYPE_BOOLEAN, EMS_TYPE_INTEGER, EMS_TYPE_FLOAT, EMS_TYPE_STRING, EMS_TYPE_JSON, EMS_TYPE_UNDEFINED}"
  by (cases "vtype v") (simp_all add: value_ok_def value_datum_def)

lemma fill_tag_sel [simp]:
  "ty (fill_tag ar tg) = fill_type ar"
  "fill_args ar f d \<Longrightarrow> fe (fill_tag ar tg) = f"
  by (simp_all add: fill_tag_def fill_type_def fill_args_def Let_def)

lemma fill_elem_spec:
  assumes q: "quiet w" and f: "filled ar f d F (mem w)" and i: "0 \<le> i" "i < nElements ar" "i \<notin> F"
    and ar: "fill_args ar f d" and fuel: "0 < fuel"
  shows "(\<exists>w'. fill_elem fuel ar tg i w = Some (Some 0, w') \<and> doDataFill ar \<and> is_text (vtype (fillValue ar))) \<or>
    (\<exists>w'. fill_elem fuel ar tg i w = Some (None, w') \<and> quiet w' \<and> libc_malloc w' = libc_malloc w \<and>
       filled ar f d (insert i F) (mem w'))"
proof -
  let ?m = "mem w" let ?T = "texts ?m (dataIdx ` F)" let ?t = "fill_tag ar tg" let ?a = "dataIdx i"
  note step = filled_step [OF f i, of ?t]
  have new: "\<not> useExisting ar" "doSetFEtags ar" using ar by (simp_all add: fill_args_def)
  have own: "owned ?m ?T" and F: "F \<subseteq> {0..<nElements ar}" using f by (simp_all add: filled_def)
  have a: "?a \<notin> ?T" "?a \<noteq> EMS_ARR_MEM_MUTEX" using i F by (auto simp: texts_def)
  show ?thesis
  proof (cases "doDataFill ar")
    case True
    let ?v = "fillValue ar"
    have v: "value_ok ?v d" using True ar by (simp add: fill_args_def)
    note fs = fill_store_eq [OF value_ok_type [OF v], of fuel ?a w]
    from write_store_quiet [OF own a fuel v] show ?thesis
    proof (elim disjE exE conjE)
      fix m' x
      assume st: "write_store fuel ?a ?v w = Some (True, upd (\<lambda>_. m') w)" "tag m' = tag ?m"
        "word m' = (word ?m)(?a := x)" "datum_at m' (vtype ?v) x = Some d"
        "owned m' (if is_text (vtype ?v) then insert ?a ?T else ?T)"
        "\<forall>b \<in> ?T. heapStr m' (word ?m b) = heapStr ?m (word ?m b)"
      have "filled ar f d (insert i F) (fill_map ar i (set_tag ?a ?t m'))"
        using True st ar by (intro step new) (simp_all add: fill_type_def)
      then show ?thesis using True st(1) fs new q by (simp add: fill_elem_def quiet_def upd_def)
    qed (simp add: fill_elem_def fs True)
  next
    case False
    have "filled ar f d (insert i F) (fill_map ar i (set_tag ?a ?t ?m))"
      using False own ar by (intro step [where x = "word ?m ?a"] new) (simp_all add: fill_type_def fill_args_def is_text_def)
    then show ?thesis using False new q by (simp add: fill_elem_def quiet_def upd_def)
  qed
qed

lemma fill_loop_spec:
  assumes "quiet w" "filled ar f d F (mem w)" "0 \<le> idx" "stop \<le> nElements ar" "{idx..<stop} \<inter> F = {}"
    "fill_args ar f d" "0 < fuel"
  shows "(\<exists>w'. fill_loop fuel ar tg idx stop w = Some (Some 0, w') \<and> doDataFill ar \<and> is_text (vtype (fillValue ar))) \<or>
    (\<exists>w'. fill_loop fuel ar tg idx stop w = Some (None, w') \<and> quiet w' \<and> libc_malloc w' = libc_malloc w \<and>
       filled ar f d (F \<union> {idx..<stop}) (mem w'))"
  using assms
proof (induction fuel ar tg idx stop w arbitrary: F rule: fill_loop.induct)
  case (1 fuel ar tg idx stop w)
  show ?case
  proof (cases "idx < stop")
    case True
    with "1.prems"(5) have i: "idx < nElements ar" "idx \<notin> F" using "1.prems"(4) by auto
    note eq = fill_loop.simps [of fuel ar tg idx stop w]
    from fill_elem_spec [OF "1.prems"(1-3) i "1.prems"(6,7), of tg] show ?thesis
    proof (elim disjE exE conjE)
      fix w1 assume e: "fill_elem fuel ar tg idx w = Some (None, w1)" "quiet w1" "libc_malloc w1 = libc_malloc w"
        "filled ar f d (insert idx F) (mem w1)"
      have dj: "{idx + 1..<stop} \<inter> insert idx F = {}" using "1.prems"(5) by (fastforce simp: disjoint_iff)
      have un: "insert idx F \<union> {idx + 1..<stop} = F \<union> {idx..<stop}" using True by auto
      have "0 \<le> idx + 1" using "1.prems"(3) by simp
      from "1.IH" [OF True e(1) refl _ e(2,4) this "1.prems"(4) dj "1.prems"(6,7)]
      show ?thesis using True e eq unfolding un by simp
    qed (use True eq in auto)
  next
    case False
    then show ?thesis using "1.prems" by (simp add: fill_loop.simps)
  qed
qed

section \<open>All processes\<close>

text \<open>The processes \<open>ps\<close> initialise the array one after another.\<close>

fun init_all :: "nat \<Rightarrow> init_args \<Rightarrow> EMStag_t \<Rightarrow> int list \<Rightarrow> world \<Rightarrow> (int option \<times> world) option" where
  "init_all fuel ar tg [] w = Some (None, w)"
| "init_all fuel ar tg (p # ps) w = do {
     (early, w) \<leftarrow> init_array fuel (ar\<lparr>myID := p\<rparr>) tg w;
     if early \<noteq> None then Some (early, w) else init_all fuel ar tg ps w
   }"

definition shares :: "init_args \<Rightarrow> int set \<Rightarrow> int set" where
  "shares ar P = {i. 0 \<le> i \<and> i < nElements ar \<and> i div iterPerThread ar \<in> P}"

lemma filled_myID [simp]:
  "filled (ar\<lparr>myID := p\<rparr>) = filled ar" "fill_args (ar\<lparr>myID := p\<rparr>) = fill_args ar"
  by (intro ext; simp add: filled_def header_ok_def fill_args_def)+

lemma init_share_spec:
  assumes "quiet w" "filled ar f d (shares ar P) m" "0 \<le> p" "p \<notin> P"
    "fill_args ar f d" "0 < fuel" "0 < nElements ar" "0 < nThreads ar"
    and init: "init_array fuel (ar\<lparr>myID := p\<rparr>) tg w =
      fill_loop fuel (ar\<lparr>myID := p\<rparr>) (tg\<lparr>rw := 0\<rparr>) (startIter (ar\<lparr>myID := p\<rparr>)) (endIter (ar\<lparr>myID := p\<rparr>)) (upd (\<lambda>_. m) w)"
  shows "(\<exists>w'. init_array fuel (ar\<lparr>myID := p\<rparr>) tg w = Some (Some 0, w') \<and> doDataFill ar \<and> is_text (vtype (fillValue ar))) \<or>
    (\<exists>w'. init_array fuel (ar\<lparr>myID := p\<rparr>) tg w = Some (None, w') \<and> quiet w' \<and> libc_malloc w' = libc_malloc w \<and>
       filled ar f d (shares ar (insert p P)) (mem w'))"
proof -
  let ?ar = "ar\<lparr>myID := p\<rparr>"
  have n: "0 < nElements ?ar" "0 < nThreads ?ar" "0 \<le> myID ?ar" using assms(3,7,8) by simp_all
  note sb = share_bounds [OF n]
  have mine: "i \<in> {startIter ?ar..<endIter ?ar} \<longleftrightarrow> 0 \<le> i \<and> i < nElements ar \<and> i div iterPerThread ar = p" for i
  proof -
    have "i \<in> {startIter ?ar..<endIter ?ar} \<longleftrightarrow> startIter ?ar \<le> i \<and> i < endIter ?ar" by (rule atLeastLessThan_iff)
    also have "\<dots> \<longleftrightarrow> i < nElements ar \<and> i div iterPerThread ar = p" using sb(3) [of i] by simp
    finally show ?thesis using sb(1) by (meson atLeastLessThan_iff order_trans)
  qed
  have un: "shares ar P \<union> {startIter ?ar..<endIter ?ar} = shares ar (insert p P)"
    by (rule set_eqI) (simp only: Un_iff mine shares_def mem_Collect_eq insert_iff, blast)
  have dj: "{startIter ?ar..<endIter ?ar} \<inter> shares ar P = {}"
    using assms(4) by (simp only: disjoint_iff mine shares_def mem_Collect_eq, blast)
  let ?w = "upd (\<lambda>_. m) w"
  have w: "quiet ?w" "libc_malloc ?w = libc_malloc w" using assms(1) by (simp_all add: quiet_def upd_def)
  have f: "filled ?ar f d (shares ar P) (mem ?w)" "fill_args ?ar f d" using assms(2,5) by (simp_all add: upd_def)
  have e: "endIter ?ar \<le> nElements ?ar" by (rule sb(2))
  from fill_loop_spec [OF w(1) f(1) sb(1) e dj f(2) assms(6), of "tg\<lparr>rw := 0\<rparr>"]
  show ?thesis unfolding init un w(2) filled_myID by simp
qed

lemma init_all_spec:
  assumes "quiet w" "filled ar f d (shares ar P) (mem w)" "distinct ps" "set ps \<inter> P = {}" "\<forall>p \<in> set ps. 0 < p"
    "fill_args ar f d" "0 < fuel" "0 < nElements ar" "0 < nThreads ar"
  shows "(\<exists>w'. init_all fuel ar tg ps w = Some (Some 0, w') \<and> doDataFill ar \<and> is_text (vtype (fillValue ar))) \<or>
    (\<exists>w'. init_all fuel ar tg ps w = Some (None, w') \<and> quiet w' \<and> libc_malloc w' = libc_malloc w \<and>
       filled ar f d (shares ar (set ps \<union> P)) (mem w'))"
  using assms
proof (induction ps arbitrary: w P)
  case (Cons p ps)
  have "upd (\<lambda>_. mem w) w = w" by (simp add: upd_def)
  then have "init_array fuel (ar\<lparr>myID := p\<rparr>) tg w =
      fill_loop fuel (ar\<lparr>myID := p\<rparr>) (tg\<lparr>rw := 0\<rparr>) (startIter (ar\<lparr>myID := p\<rparr>)) (endIter (ar\<lparr>myID := p\<rparr>)) (upd (\<lambda>_. mem w) w)"
    using Cons.prems(5) by (simp add: init_array_def)
  moreover have "0 \<le> p" "p \<notin> P" using Cons.prems(4,5) by auto
  ultimately have "(\<exists>w'. init_array fuel (ar\<lparr>myID := p\<rparr>) tg w = Some (Some 0, w') \<and> doDataFill ar \<and> is_text (vtype (fillValue ar))) \<or>
    (\<exists>w'. init_array fuel (ar\<lparr>myID := p\<rparr>) tg w = Some (None, w') \<and> quiet w' \<and> libc_malloc w' = libc_malloc w \<and>
       filled ar f d (shares ar (insert p P)) (mem w'))"
    using init_share_spec [OF Cons.prems(1,2) _ _ Cons.prems(6-9)] by blast
  then show ?case
  proof (elim disjE exE conjE)
    fix w1 assume w1: "init_array fuel (ar\<lparr>myID := p\<rparr>) tg w = Some (None, w1)" "quiet w1" "libc_malloc w1 = libc_malloc w"
      "filled ar f d (shares ar (insert p P)) (mem w1)"
    have "distinct ps" "set ps \<inter> insert p P = {}" "\<forall>p \<in> set ps. 0 < p" using Cons.prems(3-5) by auto
    from Cons.IH [OF w1(2,4) this Cons.prems(6-9)] show ?thesis using w1(1,3) by simp
  qed simp
qed simp

text \<open>Everything is filled, once all processes are done.\<close>

lemma init_all_filled:
  assumes q: "quiet w" and fresh: "fresh_tree (mem w)" and fuel: "0 < fuel" and ar: "fill_args ar f d"
    and n: "0 < nElements ar" "heapSize ar < 2 ^ 63" "0 < nThreads ar"
    and ps: "distinct ps" "set ps = {1..<nThreads ar}"
  shows "(\<exists>w'. init_all fuel ar tg (0 # ps) w = Some (Some 0, w') \<and> doDataFill ar \<and> is_text (vtype (fillValue ar))) \<or>
    (\<exists>w'. init_all fuel ar tg (0 # ps) w = Some (None, w') \<and> quiet w' \<and> libc_malloc w' = libc_malloc w \<and>
       filled ar f d {0..<nElements ar} (mem w'))"
proof -
  let ?ar = "ar\<lparr>myID := 0\<rparr>"
  from init_header_facts [of ?ar "mem w"] n fresh obtain m where
    m: "init_header ?ar (mem w) = Some m" "header_ok ?ar m" "owned m {}" by auto
  have f0: "filled ar f d (shares ar {}) m" using m(2,3) by (simp add: filled_def shares_def header_ok_def)
  have init: "init_array fuel ?ar tg w =
      fill_loop fuel ?ar (tg\<lparr>rw := 0\<rparr>) (startIter ?ar) (endIter ?ar) (upd (\<lambda>_. m) w)"
    using m(1) n(1) ar by (simp add: init_array_def fill_args_def)
  have all: "shares ar (set ps \<union> {0}) = {0..<nElements ar}"
    using share_owner [OF n(1,3)] unfolding ps(2) shares_def by fastforce
  have "(0::int) \<le> 0" "(0::int) \<notin> {}" by simp_all
  from init_share_spec [OF q f0 this ar fuel n(1,3) init] show ?thesis
  proof (elim disjE exE conjE)
    fix w1 assume w1: "init_array fuel ?ar tg w = Some (None, w1)" "quiet w1" "libc_malloc w1 = libc_malloc w"
      "filled ar f d (shares ar {0}) (mem w1)"
    have "set ps \<inter> {0} = {}" "\<forall>p \<in> set ps. 0 < p" using ps(2) by auto
    from init_all_spec [OF w1(2,4) ps(1) this ar fuel n(1,3)] show ?thesis
      using w1(1,3) unfolding all by simp
  qed simp_all
qed

text \<open>What a filled array represents.\<close>

lemma filled_reps:
  assumes f: "filled ar f d {0..<nElements ar} m" and n: "0 < nElements ar" "nElements ar < 2 ^ 31"
  shows "\<not> useMap ar \<Longrightarrow> array_rep m (\<lambda>_. (f, d))"
    "useMap ar \<Longrightarrow> map_ok m \<and> (\<forall>j. 0 \<le> j \<and> j < nElements ar \<longrightarrow> entry_free m j)"
    "f = EMS_TAG_EMPTY \<Longrightarrow> stack_rep m []" "queue_rep m []"
    "useMap ar \<Longrightarrow> 1 < nElements ar \<Longrightarrow> settled f \<Longrightarrow> dict_rep m (nElements ar, (f, d), \<lambda>_. None)"
proof -
  have h: "nelem m = nElements ar" "EMSisMapped m = useMap ar" "word m EMS_ARR_STACKTOP = 0" "word m EMS_ARR_Q_BOTTOM = 0"
    "fe (tag m EMS_ARR_STACKTOP) = EMS_TAG_FULL" "fe (tag m EMS_ARR_Q_BOTTOM) = EMS_TAG_FULL"
    using f by (simp_all add: filled_def header_ok_def)
  have own: "owned m (texts m (data_slots m))" using f h(1) by (simp add: filled_def data_slots_def)
  then have own0: "owned m {}" by (rule owned_subset) simp
  have el: "fe (tag m (dataIdx i)) = f" "slot_datum m (dataIdx i) = Some d" if "0 \<le> i" "i < nelem m" for i
    using f that h(1) by (simp_all add: filled_def)
  show "array_rep m (\<lambda>_. (f, d))" if "\<not> useMap ar" using that h own el n by (simp add: array_rep_def)
  have mp: "map_ok m \<and> (\<forall>j. 0 \<le> j \<and> j < nElements ar \<longrightarrow> entry_free m j)" if "useMap ar"
    using that h n f by (simp add: map_ok_def entry_free_def filled_def)
  show "map_ok m \<and> (\<forall>j. 0 \<le> j \<and> j < nElements ar \<longrightarrow> entry_free m j)" if "useMap ar"
    using mp that by blast
  show "dict_rep m (nElements ar, (f, d), \<lambda>_. None)" if u: "useMap ar" "1 < nElements ar" "settled f"
  proof (rule empty_dict)
    show "entry_free m j" if "0 \<le> j" "j < nElements ar" for j using mp [OF u(1)] that by blast
    have "texts m (map_slots m) = {}"
      using mp [OF u(1)] h(1) by (auto simp: texts_def map_slots_def is_text_def entry_free_def)
    then have "all_texts m = texts m (data_slots m)" by (auto simp: all_texts_def texts_def)
    then show "owned m (all_texts m)" using own by simp
  qed (use u mp h(1) el in \<open>simp_all add: map_cells_def\<close>)
  show "stack_rep m []" if "f = EMS_TAG_EMPTY"
    using that h n own0 el by (simp add: stack_rep_def slots_rep_def stack_slot_def)
  show "queue_rep m []" using h n own0 by (simp add: queue_rep_def slots_rep_def)
qed

section \<open>Properties\<close>

text \<open>
  The elements of an array are shared out: every element is filled by exactly one of the
  processes.
\<close>

lemma EMSinitialize_shares:
  assumes "0 < nElements ar" "0 < nThreads ar" "0 \<le> i" "i < nElements ar"
  shows "\<exists>!p. 0 \<le> p \<and> p < nThreads ar \<and> startIter (ar\<lparr>myID := p\<rparr>) \<le> i \<and> i < endIter (ar\<lparr>myID := p\<rparr>)"
proof (rule ex1I)
  have sb: "startIter (ar\<lparr>myID := p\<rparr>) \<le> i \<and> i < endIter (ar\<lparr>myID := p\<rparr>) \<longleftrightarrow> i div iterPerThread ar = p" if "0 \<le> p" for p
    using share_bounds(3) [of "ar\<lparr>myID := p\<rparr>" i] assms that by simp
  let ?p = "i div iterPerThread ar"
  show "0 \<le> ?p \<and> ?p < nThreads ar \<and> startIter (ar\<lparr>myID := ?p\<rparr>) \<le> i \<and> i < endIter (ar\<lparr>myID := ?p\<rparr>)"
    using share_owner [OF assms] sb [of ?p] by simp
  show "p = ?p" if "0 \<le> p \<and> p < nThreads ar \<and> startIter (ar\<lparr>myID := p\<rparr>) \<le> i \<and> i < endIter (ar\<lparr>myID := p\<rparr>)" for p
    using sb [of p] that by simp
qed

text \<open>A program of two processes that makes an array, all elements empty and 42.\<close>

definition two_fillers :: "bool \<Rightarrow> init_args" where
  "two_fillers mapped =
     \<lparr>nElements = 5, heapSize = 100, useMap = mapped, useExisting = False, doDataFill = True,
      fillValue = int_value 42, doSetFEtags = True, setFEtagsFull = False, myID = 0, nThreads = 2\<rparr>"

definition zero_ems :: ems where
  "zero_ems = \<lparr>word = (\<lambda>_. 0), tag = (\<lambda>_. byte_tag 0),
     malloc = \<lparr>m_level = 0, m_tree = (\<lambda>_. BUDDY_UNUSED)\<rparr>, heap = (\<lambda>_. NUL)\<rparr>"

text \<open>
  A new array made by all processes: an array of elements, or an empty map that stands for the
  dictionary without keys; and the empty queue and the empty stack.
\<close>

lemma init_all_builds:
  assumes "quiet w" "fresh_tree (mem w)" "0 < fuel" "fill_args ar f d"
    and "0 < nElements ar" "nElements ar < 2 ^ 31" "heapSize ar < 2 ^ 63" "0 < nThreads ar"
    and "distinct ps" "set ps = {1..<nThreads ar}"
  shows "(\<exists>w'. init_all fuel ar tg (0 # ps) w = Some (Some 0, w') \<and> doDataFill ar \<and> is_text (vtype (fillValue ar))) \<or>
    (\<exists>w'. init_all fuel ar tg (0 # ps) w = Some (None, w') \<and> quiet w' \<and>
       (if useMap ar then map_ok (mem w') \<and> (\<forall>j. 0 \<le> j \<and> j < nElements ar \<longrightarrow> entry_free (mem w') j) \<and>
          (1 < nElements ar \<longrightarrow> dict_rep (mem w') (nElements ar, (f, d), \<lambda>_. None))
        else array_rep (mem w') (\<lambda>_. (f, d))) \<and>
       queue_rep (mem w') [] \<and> (f = EMS_TAG_EMPTY \<longrightarrow> stack_rep (mem w') []))"
  using init_all_filled [OF assms(1-5,7-10), of tg]
proof (elim disjE exE conjE)
  fix w' assume w': "init_all fuel ar tg (0 # ps) w = Some (None, w')" "quiet w'"
    "filled ar f d {0..<nElements ar} (mem w')"
  have "settled f" using assms(4) by (simp add: fill_args_def settled_def)
  then show ?thesis using w'(1,2) filled_reps [OF w'(3) assms(5,6)]
    by (intro disjI2 exI [of _ w']) simp
qed blast

text \<open>
  C30: the control block that process 0 initialises is a starting point of the barrier, of the
  critical region and of single execution for all \<open>n\<close> processes, and their locks are taken.
\<close>

theorem EMSinitialize_control:
  assumes "open_ok os" "ftruncate_ok os" "mmap_ok os" "nElements ar \<le> 0" "heapSize ar < 2 ^ 63" "myID ar = 0"
    and n: "nThreads ar = int n" "0 < n" "int n < 2 ^ 31"
  shows "\<exists>k tab' cb'. EMSinitialize fuel os addr fname ar tg tab cb w = Some (k, tab', cb', w) \<and>
    barrier_reach n \<lparr>blk = cb', bpc = (\<lambda>_. BOut), rounds = (\<lambda>_. 0)\<rparr> \<and> critical_reach (cb', {}) \<and>
    single_calls n cb' = (True # replicate (n - 1) False, cb') \<and>
    (\<forall>i < n. cb' (EMS_CB_LOCKS + i) = int (fe_code EMS_TAG_BUSY))"
proof -
  let ?cb = "init_control (int n) cb"
  have c: "?cb EMS_CB_NTHREADS = int n" "?cb EMS_CB_NBAR0 = int n" "?cb EMS_CB_NBAR1 = int n"
    "?cb EMS_CB_BARPHASE = 0" "?cb EMS_CB_CRITICAL = 0" "?cb EMS_CB_SINGLE = 0"
    by (simp_all add: init_control_def ems_ctl_defs)
  have "barrier_reach n \<lparr>blk = ?cb, bpc = (\<lambda>_. BOut), rounds = (\<lambda>_. 0)\<rparr>"
    using c by (intro br_start) (simp add: barrier_start_def)
  moreover have "critical_reach (?cb, {})" using c by (intro critical_reach.intros(1))
  moreover have "single_calls n ?cb = (True # replicate (n - 1) False, ?cb)"
    using single_calls_from [of ?cb n 0] c n by (simp add: fun_upd_idem)
  moreover have "\<forall>i < n. ?cb (EMS_CB_LOCKS + i) = int (fe_code EMS_TAG_BUSY)" by (simp add: init_control_def)
  moreover have "init_array fuel ar tg w = Some (None, w)"
  proof -
    have "endIter ar \<le> startIter ar" using assms(4,6) by (simp add: endIter_def startIter_def Let_def)
    then show ?thesis using assms(4) by (simp add: init_array_def fill_loop.simps upd_def)
  qed
  moreover obtain k where "emsNextPow2 (nMemBlocks (heapSize ar)) = Some (2 ^ k)"
    using heap_levels [OF assms(5)] by blast
  ultimately show ?thesis using assms by (simp add: EMSinitialize_def split_beta)
qed

definition all_ok :: os_calls where
  "all_ok = \<lparr>open_ok = True, ftruncate_ok = True, mmap_ok = True, munmap_ok = True, unlink_ok = True\<rparr>"

definition empty_table :: buf_table where
  "empty_table = \<lparr>emsBufs = (\<lambda>_. None), emsBufLengths = (\<lambda>_. 0), emsBufFilenames = (\<lambda>_. [])\<rparr>"

theorem EMSinitialize_control_witness:
  "\<exists>k tab' cb'. EMSinitialize 1 all_ok 4096 ''cb'' ((two_fillers False)\<lparr>nElements := - 1\<rparr>) (byte_tag 0) empty_table (\<lambda>_. 0)
      (alone zero_ems) = Some (k, tab', cb', alone zero_ems) \<and> single_calls 2 cb' = ([True, False], cb')"
  using EMSinitialize_control [of all_ok "(two_fillers False)\<lparr>nElements := - 1\<rparr>" 2 1 4096 "''cb''" "byte_tag 0"
      empty_table "\<lambda>_. 0" "alone zero_ems"]
  by (fastforce simp: all_ok_def two_fillers_def)

section \<open>The table of buffers\<close>

lemma free_slot_spec:
  "n \<le> EMS_MAX_N_BUFS \<Longrightarrow> free_slot bufs n \<le> EMS_MAX_N_BUFS \<and> n \<le> free_slot bufs n \<and>
     (\<forall>k. n \<le> k \<and> k < free_slot bufs n \<longrightarrow> bufs k \<noteq> None) \<and>
     (free_slot bufs n < EMS_MAX_N_BUFS \<longrightarrow> bufs (free_slot bufs n) = None)"
proof (induction bufs n rule: free_slot.induct)
  case (1 bufs n)
  show ?case
  proof (cases "n < EMS_MAX_N_BUFS \<and> bufs n \<noteq> None")
    case True
    then have eq: "free_slot bufs n = free_slot bufs (n + 1)" by (subst free_slot.simps) simp
    have "bufs k \<noteq> None" if "n \<le> k" "n + 1 \<le> k \<longrightarrow> bufs k \<noteq> None" for k
      using that True by (cases "k = n") auto
    then show ?thesis using "1.IH" [OF True] True unfolding eq by force
  next
    case False
    then have "free_slot bufs n = n" by (subst free_slot.simps) auto
    then show ?thesis using False "1.prems" by auto
  qed
qed

lemma free_slot_first:
  assumes "bufs k = None" "k < EMS_MAX_N_BUFS"
  shows "free_slot bufs 0 < EMS_MAX_N_BUFS" "bufs (free_slot bufs 0) = None" "\<forall>j < free_slot bufs 0. bufs j \<noteq> None"
proof -
  note fs = free_slot_spec [of 0 bufs]
  then show "\<forall>j < free_slot bufs 0. bufs j \<noteq> None" by simp
  with assms have "free_slot bufs 0 \<le> k" by (metis not_le)
  then show "free_slot bufs 0 < EMS_MAX_N_BUFS" using assms(2) by simp
  then show "bufs (free_slot bufs 0) = None" using fs by simp
qed

text \<open>
  C29: a new buffer gets the first free number; destroying it makes the table of buffers what it
  was, so the number is free again. When the file cannot be removed the number stays taken,
  with the address of memory that is no longer mapped.
\<close>

theorem EMSdestroy_releases:
  assumes "emsBufs tab k = None" "k < EMS_MAX_N_BUFS" "munmap_ok os"
  shows "\<exists>n tab'. register_buf addr bytes fname tab = (int n, tab') \<and> n < EMS_MAX_N_BUFS \<and>
    emsBufs tab n = None \<and> (\<forall>j < n. emsBufs tab j \<noteq> None) \<and>
    emsBufs tab' n = Some addr \<and> (\<forall>j. j \<noteq> n \<longrightarrow> emsBufs tab' j = emsBufs tab j) \<and>
    (if u \<and> \<not> unlink_ok os then EMSdestroy os n u tab' = (False, tab')
     else fst (EMSdestroy os n u tab') \<and> emsBufs (snd (EMSdestroy os n u tab')) = emsBufs tab)"
proof -
  note fs = free_slot_first [of "emsBufs tab" k, OF assms(1,2)]
  define n where "n = free_slot (emsBufs tab) 0"
  obtain tab' where r: "register_buf addr bytes fname tab = (int n, tab')" "emsBufs tab' = (emsBufs tab)(n := Some addr)"
    using fs(1) by (simp add: register_buf_def Let_def n_def)
  then show ?thesis using fs assms(3) unfolding n_def [symmetric]
    by (intro exI [of _ n] exI [of _ tab']) (auto simp: EMSdestroy_def)
qed

theorem EMSdestroy_releases_witness:
  "emsBufs (snd (EMSdestroy all_ok 0 True (snd (register_buf 4096 64 ''a'' empty_table)))) = emsBufs empty_table"
  using EMSdestroy_releases [of empty_table 0 all_ok 4096 64 "''a''" True]
  by (force simp: empty_table_def all_ok_def EMS_MAX_N_BUFS_def)

section \<open>The allocator and the heap\<close>

text \<open>
  C25: the node states of the allocator end before the heap, and every block it hands out lies in
  the mapped file, in an array made for a heap of any size below \<open>2 ^ 63\<close> bytes; the heap has
  more bytes than were asked for.
\<close>

theorem heap_regions_fit:
  assumes "heapSize ar < 2 ^ 63" "emsNextPow2 (nMemBlocks (heapSize ar)) = Some pow2" "mem_inv mm" "m_level mm = ctzl pow2"
  shows "(\<forall>j < 2 * 2 ^ m_level mm - 1. bottomOfMalloc n u + 4 + j < bottomOfHeap n u pow2) \<and>
    (\<forall>(p, k) \<in> live_blocks mm. bottomOfHeap n u pow2 + p + k \<le> filesize n u pow2) \<and>
    heapSize ar < heap_bytes_of mm"
proof -
  from heap_levels [OF assms(1)] obtain l where
    l: "emsNextPow2 (nMemBlocks (heapSize ar)) = Some (2 ^ l)" "heapSize ar < 2 ^ l * EMS_MEM_BLOCKSZ" .
  have p: "pow2 = 2 ^ l" using l(1) assms(2) by simp
  then have lv: "m_level mm = l" using assms(4) by simp
  have "bottomOfHeap n u pow2 + p + k \<le> filesize n u pow2" if "(p, k) \<in> live_blocks mm" for p k
    using buddy.live_bounds [OF assms(3) that] p lv by (simp add: filesize_def heap_bytes_of_def)
  moreover have "bottomOfMalloc n u + 4 + j < bottomOfHeap n u pow2" if "j < 2 * 2 ^ m_level mm - 1" for j
    using that p lv by (simp add: bottomOfHeap_def sizeof_emsMem_def)
  ultimately show ?thesis using l(2) lv by (auto simp: heap_bytes_of_def)
qed

theorem heap_regions_fit_witness:
  "bottomOfMalloc 5 True + 4 + 6 < bottomOfHeap 5 True 4 \<and> 100 < heap_bytes_of (emsMem_new 2 (\<lambda>_. BUDDY_UNUSED))"
proof -
  let ?mm = "emsMem_new 2 (\<lambda>_. BUDDY_UNUSED)"
  have "nMemBlocks 100 = 4" by (simp add: nMemBlocks_def EMS_MEM_BLOCKSZ_def)
  moreover have "emsNextPow2 4 = Some 4" by code_simp
  moreover have "ctzl 4 = 2" using ctzl_power [of 2] by simp
  ultimately have r: "(\<forall>j < 2 * 2 ^ m_level ?mm - 1. bottomOfMalloc 5 True + 4 + j < bottomOfHeap 5 True 4) \<and>
      (\<forall>(p, k) \<in> live_blocks ?mm. bottomOfHeap 5 True 4 + p + k \<le> filesize 5 True 4) \<and>
      heapSize (two_fillers True) < heap_bytes_of ?mm"
    using emsMem_new_facts [of 2 "\<lambda>_. BUDDY_UNUSED"]
    by (intro heap_regions_fit) (simp_all add: two_fillers_def)
  have "6 < 2 * 2 ^ m_level ?mm - (1::nat)" by (simp add: emsMem_new_facts)
  then have "bottomOfMalloc 5 True + 4 + 6 < bottomOfHeap 5 True 4" using r by blast
  then show ?thesis using r by (simp add: two_fillers_def)
qed

end
