(* ===== verification/EmsFiles.thy ===== *)
theory EmsFiles
  imports EmsInitFacts
begin

text \<open>
  How \<open>EMSinitialize\<close> gets at the file of a buffer (\<open>src/ems.cc\<close>): the removal of an old file, the
  wait for an existing one, and the opening of an ordinary file or of a shared memory object, whose
  names are apart from each other.
\<close>

section \<open>Files\<close>

text \<open>What the files hold; a new one is filled with zeros when it gets its size.\<close>

record files =
  disk :: "string \<Rightarrow> ems option"
  shm :: "string \<Rightarrow> ems option"

definition remove_files :: "string \<Rightarrow> files \<Rightarrow> files" where
  "remove_files filename fs = fs\<lparr>disk := (disk fs)(filename := None), shm := (shm fs)(filename := None)\<rparr>"

text \<open>\<open>while (stat(filename, &statbuf) != 0) nanosleep\<close>; the others act at the \<open>k\<close>th nap.\<close>

fun wait_existing :: "nat \<Rightarrow> (nat \<Rightarrow> files \<Rightarrow> files) \<Rightarrow> nat \<Rightarrow> string \<Rightarrow> files \<Rightarrow> files option" where
  "wait_existing 0 others k filename fs = None"
| "wait_existing (Suc fuel) others k filename fs =
     (if disk fs filename \<noteq> None then Some fs
      else wait_existing fuel others (Suc k) filename (others k fs))"

definition open_file :: "bool \<Rightarrow> string \<Rightarrow> files \<Rightarrow> ems \<times> files" where
  "open_file persist filename fs =
     (if persist
      then (case disk fs filename of
              Some m \<Rightarrow> (m, fs)
            | None \<Rightarrow> (zero_ems, fs\<lparr>disk := (disk fs)(filename := Some zero_ems)\<rparr>))
      else (case shm fs filename of
              Some m \<Rightarrow> (m, fs)
            | None \<Rightarrow> (zero_ems, fs\<lparr>shm := (shm fs)(filename := Some zero_ems)\<rparr>)))"

definition EMSinitialize_file ::
  "nat \<Rightarrow> (nat \<Rightarrow> files \<Rightarrow> files) \<Rightarrow> init_args \<Rightarrow> bool \<Rightarrow> string \<Rightarrow> files \<Rightarrow> (ems \<times> files) option" where
  "EMSinitialize_file fuel others ar persist filename fs = do {
     let fs = (if myID ar = 0 \<and> \<not> useExisting ar then remove_files filename fs else fs);
     fs \<leftarrow> (if useExisting ar then wait_existing fuel others 0 filename fs else Some fs);
     Some (open_file persist filename fs)
   }"

section \<open>What the buffers start from\<close>

text \<open>Process 0 starts a new buffer from zeros, whatever the file held.\<close>

lemma EMSinitialize_file_new:
  assumes "myID ar = 0" "\<not> useExisting ar"
  shows "\<exists>fs'. EMSinitialize_file fuel others ar persist filename fs = Some (zero_ems, fs') \<and>
    (if persist then disk fs' else shm fs') filename = Some zero_ems \<and> fresh_tree zero_ems"
  using assms
  by (cases persist) (simp_all add: EMSinitialize_file_def open_file_def remove_files_def fresh_tree_def zero_ems_def)

text \<open>A process that opens the file of a buffer later gets what it holds then.\<close>

lemma EMSinitialize_file_shared:
  assumes "(if persist then disk fs else shm fs) filename = Some m" "myID ar \<noteq> 0" "\<not> useExisting ar"
  shows "EMSinitialize_file fuel others ar persist filename fs = Some (m, fs)"
  using assms by (simp add: EMSinitialize_file_def open_file_def split: if_splits)

lemma EMSinitialize_file_existing:
  assumes "disk fs filename = Some m" "useExisting ar" "0 < fuel"
  shows "EMSinitialize_file fuel others ar True filename fs = Some (m, fs)"
  using assms by (cases fuel) (simp_all add: EMSinitialize_file_def open_file_def)

text \<open>
  An existing buffer in shared memory is never found: the wait looks for an ordinary file of the
  name, so it does not end unless somebody makes one, although the shared memory object is there.
\<close>

lemma wait_existing_None:
  assumes "disk fs filename = None" "\<And>k fs. disk fs filename = None \<Longrightarrow> disk (others k fs) filename = None"
  shows "wait_existing fuel others k filename fs = None"
  using assms(1) by (induction fuel arbitrary: k fs) (simp_all add: assms(2))

lemma EMSinitialize_file_shm_waits:
  assumes "useExisting ar" "disk fs filename = None" "shm fs filename = Some m"
    and "\<And>k fs. disk fs filename = None \<Longrightarrow> disk (others k fs) filename = None"
  shows "EMSinitialize_file fuel others ar False filename fs = None"
  using assms(1) wait_existing_None [OF assms(2,4)] by (simp add: EMSinitialize_file_def)

section \<open>Property\<close>

text \<open>
  C7: when all processes have initialised a new array, process 0 first, who opens its file, it is an
  array of elements in the requested state with the requested datum, or with a map an empty map,
  which (if it has more than one element) stands for the dictionary without keys; and it is the
  empty queue, and when its elements are empty the empty stack, whatever an old file of the name
  held. The only other outcome is that the heap has no room for a text to fill in.
\<close>

theorem EMSinitialize_builds:
  assumes "EMSinitialize_file fuel others (ar\<lparr>myID := 0\<rparr>) persist filename fs = Some (mem w, fs')"
    and "quiet w" "0 < fuel" "fill_args ar f d"
    and "0 < nElements ar" "nElements ar < 2 ^ 31" "heapSize ar < 2 ^ 63" "0 < nThreads ar"
    and "distinct ps" "set ps = {1..<nThreads ar}"
  shows "(\<exists>w'. init_all fuel ar tg (0 # ps) w = Some (Some 0, w') \<and> doDataFill ar \<and> is_text (vtype (fillValue ar))) \<or>
    (\<exists>w'. init_all fuel ar tg (0 # ps) w = Some (None, w') \<and> quiet w' \<and>
       (if useMap ar then map_ok (mem w') \<and> (\<forall>j. 0 \<le> j \<and> j < nElements ar \<longrightarrow> entry_free (mem w') j) \<and>
          (1 < nElements ar \<longrightarrow> dict_rep (mem w') (nElements ar, (f, d), \<lambda>_. None))
        else array_rep (mem w') (\<lambda>_. (f, d))) \<and>
       queue_rep (mem w') [] \<and> (f = EMS_TAG_EMPTY \<longrightarrow> stack_rep (mem w') []))"
proof -
  have "\<not> useExisting (ar\<lparr>myID := 0\<rparr>)" using assms(4) by (simp add: fill_args_def)
  from EMSinitialize_file_new [OF _ this, of fuel others persist filename fs] assms(1)
  have "fresh_tree (mem w)" by auto
  from init_all_builds [OF assms(2) this assms(3-10)] show ?thesis .
qed

text \<open>Two processes make an array in place of a file that held another one.\<close>

theorem EMSinitialize_builds_witness:
  "\<exists>w'. init_all 1 (two_fillers False) (byte_tag 0) [0, 1] (alone zero_ems) = Some (None, w') \<and>
     array_rep (mem w') (\<lambda>_. (EMS_TAG_EMPTY, DInt 42)) \<and> stack_rep (mem w') [] \<and> queue_rep (mem w') []"
proof -
  let ?old = "\<lparr>disk = [''a'' \<mapsto> blank_ems 4 2], shm = \<lambda>_. None\<rparr>"
  obtain fs' where "EMSinitialize_file 1 (\<lambda>_ fs. fs) ((two_fillers False)\<lparr>myID := 0\<rparr>) True ''a'' ?old = Some (mem (alone zero_ems), fs')"
    using EMSinitialize_file_new [of "(two_fillers False)\<lparr>myID := 0\<rparr>" 1 "\<lambda>_ fs. fs" True "''a''" ?old]
    by (auto simp: two_fillers_def)
  moreover have "set [1::int] = {1..<2}" by auto
  ultimately show ?thesis
    using EMSinitialize_builds [of 1 "\<lambda>_ fs. fs" "two_fillers False" True "''a''" ?old "alone zero_ems" fs' EMS_TAG_EMPTY "DInt 42" "[1]" "byte_tag 0"]
      int_value_ok [of 42]
    by (auto simp: two_fillers_def fill_args_def is_text_def int_value_def)
qed

end
