(* ===== verification/EmsElement.thy ===== *)
theory EmsElement
  imports EmsMemory
begin

text \<open>
  The elements of one unmapped array of numbers among many processes, one access to memory at a
  time: every load, store and compare and swap of a tag or of a word is a step of its own, and
  between any two of them the other processes may act (\<open>src/ems.cc\<close>, \<open>src/rmw.cc\<close>). Nothing but the
  tags keeps an operation together.

  The tests and conversions between the accesses are the functions of \<open>EmsAccess\<close> and \<open>EmsRmw\<close>.
  Accesses happen one after another, as for \<open>volatile\<close> data and the atomic built-ins on the
  machines the code is for. Texts are left out: they would bring in the heap.
\<close>

section \<open>Where an operation is\<close>

text \<open>
  About to load the tag; a tag loaded for the compare and swap; the element locked by
  \<open>EMStransitionFEtag\<close>; the tag in hand with which the operation works; the old value read; the word
  loaded once more for the sum; the new word stored; about to store the last tag; about to return;
  failed.
\<close>

datatype stage =
    SLoad
  | STry EMStag_t
  | SLocked EMStag_t
  | SHeld EMStag_t
  | SGot EMStag_t EMSvalueType
  | SSum EMStag_t EMSvalueType int
  | SStored EMStag_t
  | SDone EMStag_t "datum option"
  | SRet "datum option"
  | SFail

section \<open>The operations, access by access\<close>

text \<open>A compare and swap of the tag; when it fails the operation naps and loads the tag again.\<close>

definition try_tag :: "nat \<Rightarrow> EMStag_t \<Rightarrow> EMStag_t \<Rightarrow> stage \<Rightarrow> ems \<Rightarrow> stage \<times> ems" where
  "try_tag a old new won m = (if tag m a = old then (won, set_tag a new m) else (SLoad, m))"

text \<open>\<open>EMStransitionFEtag\<close> from \<open>f\<close> to busy; \<open>won\<close> is where the caller goes on.\<close>

fun transition_act :: "nat \<Rightarrow> fe_state \<Rightarrow> (EMStag_t \<Rightarrow> stage) \<Rightarrow> stage \<Rightarrow> ems \<Rightarrow> stage \<times> ems" where
  "transition_act a f won SLoad m = (STry (tag m a), m)"
| "transition_act a f won (STry t) m =
     try_tag a (t\<lparr>fe := f\<rparr>) (t\<lparr>fe := EMS_TAG_BUSY\<rparr>) (won (t\<lparr>fe := EMS_TAG_BUSY\<rparr>)) m"
| "transition_act a f won sg m = (sg, m)"

text \<open>\<open>EMSreadUsingTags\<close> from \<open>f\<close> to \<open>g\<close>, neither of them the readers' lock.\<close>

fun read_act :: "int \<Rightarrow> fe_state \<Rightarrow> fe_state \<Rightarrow> stage \<Rightarrow> ems \<Rightarrow> stage \<times> ems" where
  "read_act i f g SLoad m =
     (let t = tag m (dataIdx i) in (if read_may_try (FE f) t t then STry t else SLoad, m))"
| "read_act i f g (STry t) m =
     try_tag (dataIdx i) (read_swap_tag (FE f) t) (read_locked_tag (FE f) t) (SHeld (read_locked_tag (FE f) t)) m"
| "read_act i f g (SHeld t) m =
     (case read_finish i (FE g) no_value t (alone m) of
        Some (True, v, _) \<Rightarrow> (SDone (t\<lparr>fe := g\<rparr>) (value_datum m v), m)
      | _ \<Rightarrow> (SFail, m))"
| "read_act i f g sg m = (sg, m)"

text \<open>\<open>EMSread\<close>: the tag, then the word, and no lock.\<close>

fun peek_act :: "int \<Rightarrow> stage \<Rightarrow> ems \<Rightarrow> stage \<times> ems" where
  "peek_act i SLoad m = (SHeld (tag m (dataIdx i)), m)"
| "peek_act i (SHeld t) m =
     (case read_finish i EMS_TAG_ANY no_value t (alone m) of
        Some (True, v, _) \<Rightarrow> (SRet (value_datum m v), m)
      | _ \<Rightarrow> (SFail, m))"
| "peek_act i sg m = (sg, m)"

text \<open>
  \<open>EMSwriteUsingTags\<close>. After a transition the tag is loaded again; a write that takes any state
  locks by a compare and swap of its own, unless it sets none. A write that locked looks at the tag
  once more before it stores its own.
\<close>

fun write_act :: "int \<Rightarrow> EMSvalueType \<Rightarrow> fe_arg \<Rightarrow> fe_arg \<Rightarrow> stage \<Rightarrow> ems \<Rightarrow> stage \<times> ems" where
  "write_act i v (FE f) fin SLoad m = transition_act (dataIdx i) f SLocked SLoad m"
| "write_act i v (FE f) fin (STry t) m = transition_act (dataIdx i) f SLocked (STry t) m"
| "write_act i v EMS_TAG_ANY fin SLoad m =
     (let t = tag m (dataIdx i) in
      (if fin = EMS_TAG_ANY then SHeld t else if fe t \<noteq> EMS_TAG_BUSY then STry t else SLoad, m))"
| "write_act i v EMS_TAG_ANY fin (STry t) m =
     try_tag (dataIdx i) t (t\<lparr>fe := EMS_TAG_BUSY\<rparr>) (SHeld (t\<lparr>fe := EMS_TAG_BUSY\<rparr>)) m"
| "write_act i v ini fin (SLocked t) m =
     (let t = tag m (dataIdx i) in (SHeld (if fin = EMS_TAG_ANY then t else t\<lparr>fe := EMS_TAG_BUSY\<rparr>), m))"
| "write_act i v ini fin (SHeld t) m =
     (case write_store 1 (dataIdx i) v (alone m) of
        Some (True, w) \<Rightarrow> (SStored t, set_word (dataIdx i) (word (mem w) (dataIdx i)) m)
      | _ \<Rightarrow> (SFail, m))"
| "write_act i v ini fin (SStored t) m =
     (case fin of
        EMS_TAG_ANY \<Rightarrow> (SDone (t\<lparr>ty := vtype v\<rparr>) None, m)
      | FE g \<Rightarrow> (if tag m (dataIdx i) = t then SDone (t\<lparr>fe := g, rw := 0, ty := vtype v\<rparr>) None else SFail, m))"
| "write_act i v ini fin sg m = (sg, m)"

text \<open>\<open>EMScas\<close>: the type, the word, and when they are the expected ones the new word.\<close>

fun cas_act :: "int \<Rightarrow> EMSvalueType \<Rightarrow> EMSvalueType \<Rightarrow> stage \<Rightarrow> ems \<Rightarrow> stage \<times> ems" where
  "cas_act i old new (SLocked t) m = (SHeld (tag m (dataIdx i)), m)"
| "cas_act i old new (SHeld t) m =
     (case cas_read i (ty t) no_value (alone m) of Some (True, v) \<Rightarrow> (SGot t v, m) | _ \<Rightarrow> (SFail, m))"
| "cas_act i old new (SGot t v) m =
     (case cas_equal (ty t) v old m of
        Some True \<Rightarrow>
          (case cas_store 1 (dataIdx i) new (alone m) of
             Some (True, w) \<Rightarrow>
               (SDone \<lparr>fe = EMS_TAG_FULL, ty = vtype new, rw = 0\<rparr> (value_datum m v),
                set_word (dataIdx i) (word (mem w) (dataIdx i)) m)
           | _ \<Rightarrow> (SFail, m))
      | Some False \<Rightarrow> (SDone \<lparr>fe = EMS_TAG_FULL, ty = ty t, rw = 0\<rparr> (value_datum m v), m)
      | None \<Rightarrow> (SFail, m))"
| "cas_act i old new sg m = transition_act (dataIdx i) EMS_TAG_FULL SLocked sg m"

text \<open>\<open>EMSfaa\<close>: the word for the caller, the word again, and the sum.\<close>

fun faa_act :: "int \<Rightarrow> EMSvalueType \<Rightarrow> stage \<Rightarrow> ems \<Rightarrow> stage \<times> ems" where
  "faa_act i v (SHeld t) m =
     (case faa_read i (ty t) no_value (alone m) of Some (True, r) \<Rightarrow> (SGot t r, m) | _ \<Rightarrow> (SFail, m))"
| "faa_act i v (SGot t r) m = (SSum t r (word m (dataIdx i)), m)"
| "faa_act i v (SSum t r x) m =
     (case faa_update 1 (dataIdx i) (ty t) v (alone (set_word (dataIdx i) x m)) of
        Some (Some u, w) \<Rightarrow>
          (SDone (t\<lparr>fe := EMS_TAG_FULL, ty := u\<rparr>) (value_datum m r),
           set_word (dataIdx i) (word (mem w) (dataIdx i)) m)
      | _ \<Rightarrow> (SFail, m))"
| "faa_act i v sg m = transition_act (dataIdx i) EMS_TAG_FULL SHeld sg m"

text \<open>\<open>EMSsetTag\<close>: the tag is loaded and stored.\<close>

fun set_act :: "int \<Rightarrow> bool \<Rightarrow> stage \<Rightarrow> ems \<Rightarrow> stage \<times> ems" where
  "set_act i b SLoad m =
     (SDone ((tag m (dataIdx i))\<lparr>fe := (if b then EMS_TAG_FULL else EMS_TAG_EMPTY)\<rparr>) None, m)"
| "set_act i b sg m = (sg, m)"

fun el_act :: "array_op \<Rightarrow> int \<Rightarrow> stage \<Rightarrow> ems \<Rightarrow> stage \<times> ems" where
  "el_act (OWrite k v ini fin) i sg m = write_act i v ini fin sg m"
| "el_act (ORead k f g) i sg m = read_act i f g sg m"
| "el_act (OPeek k) i sg m = peek_act i sg m"
| "el_act (OCas k old v) i sg m = cas_act i old v sg m"
| "el_act (OFaa k v) i sg m = faa_act i v sg m"
| "el_act (OSet k b) i sg m = set_act i b sg m"

section \<open>The processes\<close>

text \<open>
  A process is idle or inside an operation; beside the operation stands the abstract one, which
  says what its arguments mean and, modulo the length of the array, which element it uses
  (\<open>unmapped_index\<close>). The history records calls, the stores of the last tag with the result that the
  operation has by then, and returns.
\<close>

datatype el_pc = EIdle | EAt array_op cell_op stage

datatype event = ECall nat cell_op | ETake nat cell_op "datum option" | ERet nat "datum option"

record el_state =
  emem :: ems
  epc :: "nat \<Rightarrow> el_pc"
  ehist :: "event list"

fun cell_of :: "cell_op \<Rightarrow> int" where
  "cell_of (CWrite h d ini fin) = h"
| "cell_of (CRead h f g) = h"
| "cell_of (CPeek h) = h"
| "cell_of (CCas h e d) = h"
| "cell_of (CFaa h e) = h"
| "cell_of (CSet h b) = h"

fun number_op :: "array_op \<Rightarrow> bool" where
  "number_op (OWrite k v ini fin) \<longleftrightarrow> \<not> is_text (vtype v)"
| "number_op (OCas k old v) \<longleftrightarrow> \<not> is_text (vtype v)"
| "number_op (OFaa k v) \<longleftrightarrow> \<not> is_text (vtype v)"
| "number_op _ \<longleftrightarrow> True"

definition el_put :: "nat \<Rightarrow> el_pc \<Rightarrow> ems \<Rightarrow> event list \<Rightarrow> el_state \<Rightarrow> el_state" where
  "el_put p x m es s = s\<lparr>emem := m, epc := (epc s)(p := x), ehist := ehist s @ es\<rparr>"

inductive el_step :: "int \<Rightarrow> el_state \<Rightarrow> el_state \<Rightarrow> bool" for n where
  el_call: "epc s p = EIdle \<Longrightarrow> op_for x y \<Longrightarrow> number_op x \<Longrightarrow>
     el_step n s (el_put p (EAt x y SLoad) (emem s) [ECall p y] s)"
| el_work: "epc s p = EAt x y sg \<Longrightarrow> el_act x (cell_of y mod n) sg (emem s) = (sg', m') \<Longrightarrow>
     el_step n s (el_put p (EAt x y sg') m' [] s)"
| el_take: "epc s p = EAt x y (SDone t out) \<Longrightarrow>
     el_step n s (el_put p (EAt x y (SRet out)) (set_tag (dataIdx (cell_of y mod n)) t (emem s)) [ETake p y out] s)"
| el_ret: "epc s p = EAt x y (SRet out) \<Longrightarrow> el_step n s (el_put p EIdle (emem s) [ERet p out] s)"

text \<open>The array starts with the cells \<open>st\<close>, all full or empty numbers, and nobody in it.\<close>

fun number_at :: "ems_type \<Rightarrow> int \<Rightarrow> datum option" where
  "number_at EMS_TYPE_BOOLEAN x = Some (DBool x)"
| "number_at EMS_TYPE_INTEGER x = Some (DInt x)"
| "number_at EMS_TYPE_FLOAT x = Some (DFloat x)"
| "number_at EMS_TYPE_UNDEFINED x = Some DUndef"
| "number_at _ x = None"

definition in_cell :: "ems \<Rightarrow> int \<Rightarrow> fe_state \<times> datum \<Rightarrow> bool" where
  "in_cell m i c \<longleftrightarrow> settled (fst c) \<and> fe (tag m (dataIdx i)) = fst c \<and>
     number_at (ty (tag m (dataIdx i))) (word m (dataIdx i)) = Some (snd c)"

definition el_start :: "int \<Rightarrow> (int \<Rightarrow> fe_state \<times> datum) \<Rightarrow> el_state \<Rightarrow> bool" where
  "el_start n st s \<longleftrightarrow> 0 < n \<and> nelem (emem s) = n \<and> \<not> EMSisMapped (emem s) \<and>
     (\<forall>i. 0 \<le> i \<longrightarrow> i < n \<longrightarrow> in_cell (emem s) i (st i)) \<and> (\<forall>p. epc s p = EIdle) \<and> ehist s = []"

inductive el_reach :: "int \<Rightarrow> (int \<Rightarrow> fe_state \<times> datum) \<Rightarrow> el_state \<Rightarrow> bool" for n st where
  el_init: "el_start n st s \<Longrightarrow> el_reach n st s"
| el_more: "el_reach n st s \<Longrightarrow> el_step n s s' \<Longrightarrow> el_reach n st s'"

section \<open>Numbers\<close>

lemma number_at_datum: "number_at t x = Some d \<longleftrightarrow> \<not> is_text t \<and> datum_at m t x = Some d"
  by (cases t) (auto simp: is_text_def)

lemma number_at_cases:
  assumes "number_at t x = Some d"
  shows "t = EMS_TYPE_BOOLEAN \<and> d = DBool x \<or> t = EMS_TYPE_INTEGER \<and> d = DInt x \<or>
    t = EMS_TYPE_FLOAT \<and> d = DFloat x \<or> t = EMS_TYPE_UNDEFINED \<and> d = DUndef"
  using assms by (cases t) auto

lemma number_at_text: "number_at t x = Some d \<Longrightarrow> \<not> text_datum d"
  using number_at_cases [of t x d] by auto

lemma as_int64_iff: "as_int64 p = Some i \<longleftrightarrow> p = PInt i"
  by (cases p) auto

text \<open>A value that is no text, and the datum it stands for in every buffer.\<close>

lemma number_value:
  assumes "value_ok v d" "\<not> is_text (vtype v)"
  shows "vtype v = EMS_TYPE_BOOLEAN \<and> (\<exists>i. val v = PInt i \<and> d = DBool i) \<or>
    vtype v = EMS_TYPE_INTEGER \<and> (\<exists>i. val v = PInt i \<and> d = DInt i) \<or>
    vtype v = EMS_TYPE_FLOAT \<and> (\<exists>i. val v = PInt i \<and> d = DFloat i) \<or>
    vtype v = EMS_TYPE_UNDEFINED \<and> d = DUndef"
proof -
  have "value_datum undefined v = Some d" using assms(1) by (simp add: value_ok_def)
  then show ?thesis using assms(2)
    by (cases "vtype v") (auto simp: value_datum_def is_text_def as_int64_iff)
qed

lemma number_write:
  assumes "value_ok v d" "\<not> is_text (vtype v)"
  shows "\<exists>x. write_store 1 a v w = Some (True, upd (set_word a x) w) \<and> number_at (vtype v) x = Some d"
  using number_value [OF assms] by (auto simp: write_store_def)

lemma number_cas_store:
  assumes "value_ok v d" "\<not> is_text (vtype v)"
  shows "\<exists>x. cas_store 1 a v w = Some (True, upd (set_word a x) w) \<and> number_at (vtype v) x = Some d"
  using number_value [OF assms] by (auto simp: cas_store_def)

lemma number_read:
  assumes "number_at (ty t) (word (mem w) (dataIdx i)) = Some d"
  shows "\<exists>v w'. read_finish i (FE g) ret t w = Some (True, v, w') \<and> value_datum m v = Some (norm_datum d)"
  using number_at_cases [OF assms] by (auto simp: read_finish_def Let_def value_datum_def)

lemma number_cas_read:
  assumes "number_at (ty t) (word (mem w) (dataIdx i)) = Some d"
  shows "\<exists>v. cas_read i (ty t) ret w = Some (True, v) \<and> vtype v = ty t \<and> (\<forall>m. value_datum m v = Some d)"
  using number_at_cases [OF assms] by (auto simp: cas_read_def Let_def value_datum_def)

lemma number_cas_equal:
  assumes "\<forall>m. value_datum m v = Some d" "vtype v = t" "\<not> is_text t" "\<forall>m. value_datum m old = Some e"
  shows "cas_equal t v old m = Some (d = e)"
proof -
  have v: "value_datum m v = Some d" "value_datum m old = Some e" using assms by blast+
  show ?thesis
  proof (cases "vtype old = t")
    case True
    then show ?thesis using v assms(2,3)
      by (cases t) (auto simp: cas_equal_def value_datum_def is_text_def as_int64_iff)
  next
    case False
    then have "d \<noteq> e" using v assms(2,3)
      by (cases t; cases "vtype old") (auto simp: value_datum_def is_text_def)
    then show ?thesis using False by (simp add: cas_equal_def)
  qed
qed

lemma number_faa_read:
  assumes "number_at (ty t) (word (mem w) (dataIdx i)) = Some d"
  shows "\<exists>v. faa_read i (ty t) ret w = Some (True, v) \<and> (\<forall>m. value_datum m v = Some (norm_datum d))"
  using number_at_cases [OF assms] by (auto simp: faa_read_def Let_def value_datum_def)

lemma number_faa:
  assumes "number_at t (word (mem w) a) = Some d" "value_ok v e" "\<not> is_text (vtype v)"
  shows "\<exists>u x r. faa_update 1 a t v w = Some (Some u, upd (set_word a x) w) \<and> datum_add d e = Some r \<and>
    number_at u x = Some r"
  using number_at_cases [OF assms(1)] number_value [OF assms(2,3)]
  by (elim disjE exE conjE)
    (simp_all add: faa_update_def faa_bool_def faa_int_def faa_float_def faa_undef_def faa_set_def Let_def)

section \<open>One access\<close>

text \<open>
  The locked part of an operation, and the operations the following is about: those that lock their
  element, out of full or empty where they wait for a state.
\<close>

fun holds :: "stage \<Rightarrow> bool" where
  "holds (SLocked t) \<longleftrightarrow> True"
| "holds (SHeld t) \<longleftrightarrow> True"
| "holds (SGot t v) \<longleftrightarrow> True"
| "holds (SSum t v x) \<longleftrightarrow> True"
| "holds (SStored t) \<longleftrightarrow> True"
| "holds (SDone t out) \<longleftrightarrow> True"
| "holds _ \<longleftrightarrow> False"

fun locking :: "cell_op \<Rightarrow> bool" where
  "locking (CWrite h d ini fin) \<longleftrightarrow> fin \<noteq> EMS_TAG_ANY \<and> (ini = EMS_TAG_ANY \<or> (\<exists>f. ini = FE f \<and> settled f))"
| "locking (CRead h f g) \<longleftrightarrow> True"
| "locking (CCas h e d) \<longleftrightarrow> True"
| "locking (CFaa h e) \<longleftrightarrow> True"
| "locking _ \<longleftrightarrow> False"

text \<open>The states out of which the operation locks, and what it may be about to try.\<close>

fun ready :: "cell_op \<Rightarrow> fe_state \<Rightarrow> bool" where
  "ready (CWrite h d ini fin) f \<longleftrightarrow> f \<noteq> EMS_TAG_BUSY \<and> state_after ini f = f"
| "ready (CRead h f' g) f \<longleftrightarrow> f' = f"
| "ready _ f \<longleftrightarrow> f = EMS_TAG_FULL"

fun waiting :: "cell_op \<Rightarrow> stage \<Rightarrow> bool" where
  "waiting y SLoad \<longleftrightarrow> True"
| "waiting (CWrite h d EMS_TAG_ANY fin) (STry t) \<longleftrightarrow> fe t \<noteq> EMS_TAG_BUSY"
| "waiting y (STry t) \<longleftrightarrow> True"
| "waiting y (SRet out) \<longleftrightarrow> True"
| "waiting y _ \<longleftrightarrow> False"

text \<open>The operations that load the tag again after a transition.\<close>

fun reloads :: "cell_op \<Rightarrow> bool" where
  "reloads (CWrite h d ini fin) \<longleftrightarrow> True"
| "reloads (CCas h e d) \<longleftrightarrow> True"
| "reloads _ \<longleftrightarrow> False"

definition ok_op :: "array_op \<Rightarrow> cell_op \<Rightarrow> bool" where
  "ok_op x y \<longleftrightarrow> op_for x y \<and> number_op x \<and> locking y"

text \<open>Where a lock was taken, and where the tag and the word of the element went.\<close>

definition locks_now :: "cell_op \<Rightarrow> nat \<Rightarrow> stage \<Rightarrow> ems \<Rightarrow> ems \<Rightarrow> bool" where
  "locks_now y a sg m m' \<longleftrightarrow> (let t = (tag m a)\<lparr>fe := EMS_TAG_BUSY\<rparr> in
     ready y (fe (tag m a)) \<and> m' = set_tag a t m \<and> (sg = SLocked t \<and> reloads y \<or> sg = SHeld t))"

lemma try_locks:
  assumes "try_tag a old (old\<lparr>fe := EMS_TAG_BUSY\<rparr>) won m = (sg, m')" "ready y (fe old)"
    and "won = SLocked (old\<lparr>fe := EMS_TAG_BUSY\<rparr>) \<and> reloads y \<or> won = SHeld (old\<lparr>fe := EMS_TAG_BUSY\<rparr>)"
  shows "m' = m \<and> \<not> holds sg \<and> waiting y sg \<or> locks_now y a sg m m'"
  using assms by (auto simp: try_tag_def locks_now_def Let_def split: if_splits)

lemma busy_of: "t\<lparr>fe := EMS_TAG_BUSY\<rparr> = (t\<lparr>fe := f\<rparr>)\<lparr>fe := EMS_TAG_BUSY\<rparr>"
  by simp

lemma act_transition:
  assumes "transition_act a f won sg m = (sg', m')" "\<not> holds sg" "waiting y sg" "ready y f"
    and "won = SLocked \<and> reloads y \<or> won = SHeld" "\<And>t. waiting y (STry t)"
  shows "m' = m \<and> \<not> holds sg' \<and> waiting y sg' \<or> locks_now y a sg' m m'"
proof (cases sg)
  case (STry t)
  then have "try_tag a (t\<lparr>fe := f\<rparr>) ((t\<lparr>fe := f\<rparr>)\<lparr>fe := EMS_TAG_BUSY\<rparr>) (won ((t\<lparr>fe := f\<rparr>)\<lparr>fe := EMS_TAG_BUSY\<rparr>)) m = (sg', m')"
    using assms(1) by simp
  from try_locks [OF this] show ?thesis using assms(4,5) by auto
qed (use assms in auto)

lemma act_outside:
  assumes "ok_op x y" "el_act x i sg m = (sg', m')" "\<not> holds sg" "waiting y sg"
  shows "m' = m \<and> \<not> holds sg' \<and> waiting y sg' \<or> locks_now y (dataIdx i) sg' m m'"
proof (cases x)
  case (OWrite k v ini fin)
  with assms(1) obtain h d where y: "y = CWrite h d ini fin" and fin: "fin \<noteq> EMS_TAG_ANY"
    and ini: "ini = EMS_TAG_ANY \<or> (\<exists>f. ini = FE f \<and> settled f)"
    by (cases y) (auto simp: ok_op_def)
  show ?thesis
  proof (cases ini)
    case EMS_TAG_ANY
    have w: "write_act i v EMS_TAG_ANY fin sg m = (sg', m')" using assms(2) OWrite EMS_TAG_ANY by simp
    show ?thesis
    proof (cases sg)
      case SLoad
      then show ?thesis using w fin y EMS_TAG_ANY by (auto simp: Let_def split: if_splits)
    next
      case (STry t)
      then have "try_tag (dataIdx i) t (t\<lparr>fe := EMS_TAG_BUSY\<rparr>) (SHeld (t\<lparr>fe := EMS_TAG_BUSY\<rparr>)) m = (sg', m')"
        using w by simp
      from try_locks [OF this] show ?thesis using assms(4) STry y EMS_TAG_ANY by simp
    qed (use w assms(3,4) in auto)
  next
    case (FE f)
    with ini have f: "ready y f" "\<And>t. waiting y (STry t)" "reloads y" using y by (auto simp: settled_def)
    have "transition_act (dataIdx i) f SLocked sg m = (sg', m') \<or> m' = m \<and> sg' = sg"
      using assms(2,3,4) OWrite FE by (cases sg) auto
    with act_transition [OF _ assms(3,4) f(1) _ f(2)] f(3) assms(3,4) show ?thesis by blast
  qed
next
  case (ORead k f g)
  with assms(1) obtain h where y: "y = CRead h f g" and f: "settled f" by (cases y) (auto simp: ok_op_def)
  have w: "read_act i f g sg m = (sg', m')" using assms(2) ORead by simp
  have rw: "f \<noteq> EMS_TAG_RW_LOCK" using f by (auto simp: settled_def)
  show ?thesis
  proof (cases sg)
    case (STry t)
    then have "try_tag (dataIdx i) (t\<lparr>fe := f\<rparr>) ((t\<lparr>fe := f\<rparr>)\<lparr>fe := EMS_TAG_BUSY\<rparr>) (SHeld ((t\<lparr>fe := f\<rparr>)\<lparr>fe := EMS_TAG_BUSY\<rparr>)) m = (sg', m')"
      using w rw by simp
    from try_locks [OF this] show ?thesis using y by simp
  qed (use w y assms(3,4) in \<open>auto simp: Let_def split: if_splits\<close>)
next
  case (OCas k old v)
  with assms(1) obtain h e d where y: "y = CCas h e d" by (cases y) (auto simp: ok_op_def)
  have w: "transition_act (dataIdx i) EMS_TAG_FULL SLocked sg m = (sg', m')"
    using assms(2,3) OCas by (cases sg) auto
  from act_transition [OF w assms(3,4)] show ?thesis using y by simp
next
  case (OFaa k v)
  with assms(1) obtain h e where y: "y = CFaa h e" by (cases y) (auto simp: ok_op_def)
  have w: "transition_act (dataIdx i) EMS_TAG_FULL SHeld sg m = (sg', m')"
    using assms(2,3) OFaa by (cases sg) auto
  from act_transition [OF w assms(3,4)] show ?thesis using y by simp
qed (use assms(1) in \<open>cases y; auto simp: ok_op_def\<close>)+

section \<open>Under the lock\<close>

fun datum_type :: "datum \<Rightarrow> ems_type" where
  "datum_type (DBool x) = EMS_TYPE_BOOLEAN"
| "datum_type (DInt x) = EMS_TYPE_INTEGER"
| "datum_type (DFloat x) = EMS_TYPE_FLOAT"
| "datum_type (DStr s) = EMS_TYPE_STRING"
| "datum_type (DJson s) = EMS_TYPE_JSON"
| "datum_type DUndef = EMS_TYPE_UNDEFINED"

lemma number_value_type: "value_ok v d \<Longrightarrow> \<not> is_text (vtype v) \<Longrightarrow> vtype v = datum_type d"
  using number_value [of v d] by auto

text \<open>
  What is known of the tag \<open>u\<close> and the word \<open>w\<close> of an element whose abstract cell is still \<open>(f, d)\<close>
  while an operation holds it. At the end the last tag and the result are those of the abstract
  operation.
\<close>

fun got :: "cell_op \<Rightarrow> datum \<Rightarrow> EMStag_t \<Rightarrow> EMSvalueType \<Rightarrow> bool" where
  "got (CCas h e d') d t v \<longleftrightarrow> vtype v = ty t \<and> (\<forall>m. value_datum m v = Some d)"
| "got (CFaa h e) d t v \<longleftrightarrow> (\<forall>m. value_datum m v = Some (norm_datum d))"
| "got _ d t v \<longleftrightarrow> False"

fun putting :: "cell_op \<Rightarrow> int \<Rightarrow> bool" where
  "putting (CWrite h d ini fin) w \<longleftrightarrow> number_at (datum_type d) w = Some d"
| "putting _ w \<longleftrightarrow> False"

definition effect :: "cell_op \<Rightarrow> fe_state \<times> datum \<Rightarrow> datum option \<Rightarrow> fe_state \<times> datum \<Rightarrow> bool" where
  "effect y c out c' \<longleftrightarrow> (\<forall>n st. st (cell_of y mod n) = c \<longrightarrow>
     cell_step y (n, st) = Some (out, n, st(cell_of y mod n := c')))"

fun held :: "cell_op \<Rightarrow> fe_state \<times> datum \<Rightarrow> EMStag_t \<Rightarrow> int \<Rightarrow> stage \<Rightarrow> bool" where
  "held y (f, d) u w (SLocked t) \<longleftrightarrow> reloads y \<and> u = t \<and> fe u = EMS_TAG_BUSY \<and> ready y f \<and> number_at (ty u) w = Some d"
| "held y (f, d) u w (SHeld t) \<longleftrightarrow> u = t \<and> fe u = EMS_TAG_BUSY \<and> ready y f \<and> number_at (ty u) w = Some d"
| "held y (f, d) u w (SGot t v) \<longleftrightarrow> u = t \<and> fe u = EMS_TAG_BUSY \<and> ready y f \<and> number_at (ty u) w = Some d \<and> got y d t v"
| "held y (f, d) u w (SSum t v x) \<longleftrightarrow> u = t \<and> fe u = EMS_TAG_BUSY \<and> ready y f \<and> number_at (ty u) w = Some d \<and>
     got y d t v \<and> x = w \<and> (\<exists>h e. y = CFaa h e)"
| "held y (f, d) u w (SStored t) \<longleftrightarrow> u = t \<and> fe u = EMS_TAG_BUSY \<and> ready y f \<and> putting y w"
| "held y (f, d) u w (SDone t out) \<longleftrightarrow> fe u = EMS_TAG_BUSY \<and> settled (fe t) \<and>
     (\<exists>d'. number_at (ty t) w = Some d' \<and> effect y (f, d) out (fe t, d'))"
| "held y c u w _ \<longleftrightarrow> False"

lemma held_busy: "held y c u w sg \<Longrightarrow> fe u = EMS_TAG_BUSY"
  by (cases c; cases sg) auto

lemma ready_free: "ok_op x y \<Longrightarrow> ready y f \<Longrightarrow> f \<noteq> EMS_TAG_BUSY"
  by (cases x; cases y) (auto simp: ok_op_def settled_def)

lemma locks_now_held:
  assumes "locks_now y a sg m m'" "in_cell m i c" "a = dataIdx i"
  shows "held y c (tag m' a) (word m' a) sg"
  using assms by (cases c) (auto simp: locks_now_def in_cell_def Let_def)

abbreviation only_at :: "nat \<Rightarrow> ems \<Rightarrow> ems \<Rightarrow> bool" where
  "only_at a m m' \<equiv> \<forall>b. b \<noteq> a \<longrightarrow> tag m' b = tag m b \<and> word m' b = word m b"

lemma held_write:
  assumes y: "y = CWrite h d' ini fin" and v: "value_ok v d'" "\<not> is_text (vtype v)" and fin: "fin = FE g" "settled g"
    and act: "write_act i v ini fin sg m = (sg', m')" "holds sg"
    and h: "held y c (tag m (dataIdx i)) (word m (dataIdx i)) sg"
  shows "holds sg' \<and> held y c (tag m' (dataIdx i)) (word m' (dataIdx i)) sg' \<and> only_at (dataIdx i) m m'"
proof -
  obtain f d where c: "c = (f, d)" by (cases c)
  note vt = number_value_type [OF v]
  show ?thesis
  proof (cases sg)
    case (SLocked t)
    then show ?thesis using act h c fin by (cases ini) auto
  next
    case (SHeld t)
    from number_write [OF v, of "dataIdx i" "alone m"] obtain x where
      x: "write_store 1 (dataIdx i) v (alone m) = Some (True, upd (set_word (dataIdx i) x) (alone m))"
      "number_at (vtype v) x = Some d'" by blast
    then show ?thesis using act h c SHeld y vt by (cases ini) auto
  next
    case (SStored t)
    then have "held y c (tag m (dataIdx i)) (word m (dataIdx i)) (SDone (t\<lparr>fe := g, rw := 0, ty := vtype v\<rparr>) None)"
      using h c y fin vt by (auto simp: effect_def Let_def)
    then show ?thesis using act h c SStored fin by (cases ini) auto
  next
    case (SDone t out)
    then show ?thesis using act h by (cases ini) auto
  qed (use act(2) h c y in auto)
qed

lemma held_read:
  assumes y: "y = CRead h f g" and g: "settled g"
    and act: "read_act i f g sg m = (sg', m')" "holds sg"
    and h: "held y c (tag m (dataIdx i)) (word m (dataIdx i)) sg"
  shows "holds sg' \<and> held y c (tag m' (dataIdx i)) (word m' (dataIdx i)) sg' \<and> only_at (dataIdx i) m m'"
proof -
  obtain f' d where c: "c = (f', d)" by (cases c)
  show ?thesis
  proof (cases sg)
    case (SHeld t)
    then have "number_at (ty t) (word (mem (alone m)) (dataIdx i)) = Some d" using h c by auto
    from number_read [OF this, of g no_value m] obtain v w' where
      v: "read_finish i (FE g) no_value t (alone m) = Some (True, v, w')" "value_datum m v = Some (norm_datum d)" by blast
    have "held y c (tag m (dataIdx i)) (word m (dataIdx i)) (SDone (t\<lparr>fe := g\<rparr>) (Some (norm_datum d)))"
      using h c SHeld y g by (auto simp: effect_def Let_def)
    then show ?thesis using act(1) v SHeld by auto
  qed (use act h c y in auto)
qed

lemma held_cas:
  assumes y: "y = CCas h e d'" and v: "value_ok v d'" "\<not> is_text (vtype v)" "\<forall>m. value_datum m old = Some e"
    and act: "cas_act i old v sg m = (sg', m')" "holds sg"
    and h: "held y c (tag m (dataIdx i)) (word m (dataIdx i)) sg"
  shows "holds sg' \<and> held y c (tag m' (dataIdx i)) (word m' (dataIdx i)) sg' \<and> only_at (dataIdx i) m m'"
proof -
  obtain f d where c: "c = (f, d)" by (cases c)
  show ?thesis
  proof (cases sg)
    case (SHeld t)
    then have "number_at (ty t) (word (mem (alone m)) (dataIdx i)) = Some d" using h c by auto
    from number_cas_read [OF this, of no_value] obtain r where
      "cas_read i (ty t) no_value (alone m) = Some (True, r)" "vtype r = ty t" "\<forall>m. value_datum m r = Some d" by blast
    then show ?thesis using act(1) h c SHeld y by auto
  next
    case (SGot t r)
    then have t: "number_at (ty t) (word m (dataIdx i)) = Some d" "vtype r = ty t" "\<forall>m. value_datum m r = Some d"
      and f: "f = EMS_TAG_FULL" "fe (tag m (dataIdx i)) = EMS_TAG_BUSY" using h c y by auto
    then have "\<not> is_text (ty t)" by (simp add: number_at_datum [where m = m])
    note eq = number_cas_equal [OF t(3,2) this v(3), of m]
    have out: "value_datum m r = Some d" using t(3) by blast
    from number_cas_store [OF v(1,2), of "dataIdx i" "alone m"] obtain x where
      x: "cas_store 1 (dataIdx i) v (alone m) = Some (True, upd (set_word (dataIdx i) x) (alone m))"
      "number_at (vtype v) x = Some d'" by blast
    show ?thesis
    proof (cases "d = e")
      case True
      then have "sg' = SDone \<lparr>fe = EMS_TAG_FULL, ty = vtype v, rw = 0\<rparr> (Some d)" "m' = set_word (dataIdx i) x m"
        using act(1) SGot eq x out by auto
      then show ?thesis using True c y f x by (auto simp: settled_def effect_def Let_def)
    next
      case False
      then have "sg' = SDone \<lparr>fe = EMS_TAG_FULL, ty = ty t, rw = 0\<rparr> (Some d)" "m' = m"
        using act(1) SGot eq out by auto
      then show ?thesis using False c y f t(1) by (auto simp: settled_def effect_def Let_def)
    qed
  qed (use act h c y in auto)
qed

lemma held_faa:
  assumes y: "y = CFaa h e" and v: "value_ok v e" "\<not> is_text (vtype v)"
    and act: "faa_act i v sg m = (sg', m')" "holds sg"
    and h: "held y c (tag m (dataIdx i)) (word m (dataIdx i)) sg"
  shows "holds sg' \<and> held y c (tag m' (dataIdx i)) (word m' (dataIdx i)) sg' \<and> only_at (dataIdx i) m m'"
proof -
  obtain f d where c: "c = (f, d)" by (cases c)
  show ?thesis
  proof (cases sg)
    case (SHeld t)
    then have "number_at (ty t) (word (mem (alone m)) (dataIdx i)) = Some d" using h c by auto
    from number_faa_read [OF this, of no_value] obtain r where
      "faa_read i (ty t) no_value (alone m) = Some (True, r)" "\<forall>m. value_datum m r = Some (norm_datum d)" by blast
    then show ?thesis using act(1) h c SHeld y by auto
  next
    case (SSum t r x)
    let ?w = "alone (set_word (dataIdx i) x m)"
    have t: "number_at (ty t) (word (mem ?w) (dataIdx i)) = Some d" and r: "\<forall>m. value_datum m r = Some (norm_datum d)"
      and f: "f = EMS_TAG_FULL" "fe (tag m (dataIdx i)) = EMS_TAG_BUSY" using h c y SSum by auto
    have out: "value_datum m r = Some (norm_datum d)" using r by blast
    from number_faa [OF t v] obtain u x' s where u: "faa_update 1 (dataIdx i) (ty t) v ?w = Some (Some u, upd (set_word (dataIdx i) x') ?w)"
      "datum_add d e = Some s" "number_at u x' = Some s" by blast
    then have "sg' = SDone (t\<lparr>fe := EMS_TAG_FULL, ty := u\<rparr>) (Some (norm_datum d))" "m' = set_word (dataIdx i) x' m"
      using act(1) SSum out by auto
    then show ?thesis using c y f u by (auto simp: settled_def effect_def Let_def)
  qed (use act h c y in auto)
qed

lemma act_held:
  assumes "ok_op x y" "el_act x i sg m = (sg', m')" "holds sg"
    and "held y c (tag m (dataIdx i)) (word m (dataIdx i)) sg"
  shows "holds sg' \<and> held y c (tag m' (dataIdx i)) (word m' (dataIdx i)) sg' \<and> only_at (dataIdx i) m m'"
proof (cases x)
  case (OWrite k v ini fin)
  with assms(1) obtain h d g where "y = CWrite h d ini fin" "value_ok v d" "\<not> is_text (vtype v)" "fin = FE g" "settled g"
    by (cases y; cases fin; cases ini) (auto simp: ok_op_def)
  with held_write [OF this] assms OWrite show ?thesis by simp
next
  case (ORead k f g)
  with assms(1) obtain h where "y = CRead h f g" "settled g" by (cases y) (auto simp: ok_op_def)
  with held_read [OF this] assms ORead show ?thesis by simp
next
  case (OCas k old v)
  with assms(1) obtain h e d where "y = CCas h e d" "value_ok v d" "\<not> is_text (vtype v)" "\<forall>m. value_datum m old = Some e"
    by (cases y) (auto simp: ok_op_def)
  with held_cas [OF this] assms OCas show ?thesis by simp
next
  case (OFaa k v)
  with assms(1) obtain h e where "y = CFaa h e" "value_ok v e" "\<not> is_text (vtype v)" by (cases y) (auto simp: ok_op_def)
  with held_faa [OF this] assms OFaa show ?thesis by simp
qed (use assms(1) in \<open>cases y; auto simp: ok_op_def\<close>)+

section \<open>The invariant\<close>

fun locked_cell :: "int \<Rightarrow> el_pc \<Rightarrow> int option" where
  "locked_cell n EIdle = None"
| "locked_cell n (EAt x y sg) = (if holds sg then Some (cell_of y mod n) else None)"

definition holders :: "int \<Rightarrow> el_state \<Rightarrow> int \<Rightarrow> nat set" where
  "holders n s i = {p. locked_cell n (epc s p) = Some i}"

fun el_pc_ok :: "el_pc \<Rightarrow> bool" where
  "el_pc_ok EIdle \<longleftrightarrow> True"
| "el_pc_ok (EAt x y sg) \<longleftrightarrow> ok_op x y \<and> (holds sg \<or> waiting y sg)"

text \<open>A cell is what nobody holds and the buffer shows, or what its only holder found.\<close>

definition cell_inv :: "int \<Rightarrow> el_state \<Rightarrow> int \<Rightarrow> fe_state \<times> datum \<Rightarrow> bool" where
  "cell_inv n s i c \<longleftrightarrow> settled (fst c) \<and>
     (holders n s i = {} \<and> in_cell (emem s) i c \<or>
      (\<exists>p x y sg. holders n s i = {p} \<and> epc s p = EAt x y sg \<and>
         held y c (tag (emem s) (dataIdx i)) (word (emem s) (dataIdx i)) sg))"

definition el_inv :: "int \<Rightarrow> (int \<Rightarrow> fe_state \<times> datum) \<Rightarrow> el_state \<Rightarrow> bool" where
  "el_inv n st s \<longleftrightarrow> 0 < n \<and> (\<forall>p. el_pc_ok (epc s p)) \<and> (\<forall>i. 0 \<le> i \<longrightarrow> i < n \<longrightarrow> cell_inv n s i (st i))"

lemma el_put_sel [simp]:
  "emem (el_put p x m es s) = m" "epc (el_put p x m es s) = (epc s)(p := x)" "ehist (el_put p x m es s) = ehist s @ es"
  by (simp_all add: el_put_def)

lemma holders_put:
  "holders n (el_put p x m es s) i =
     (if locked_cell n x = Some i then insert p (holders n s i) else holders n s i - {p})"
  by (auto simp: holders_def)

text \<open>A step of one process at the element \<open>i\<close> does not concern the other elements.\<close>

lemma cell_inv_frame:
  assumes "cell_inv n s j c" "0 \<le> i" "0 \<le> j" "i \<noteq> j" "only_at (dataIdx i) (emem s) m"
    and "locked_cell n (epc s p) \<noteq> Some j" "locked_cell n x \<noteq> Some j"
  shows "cell_inv n (el_put p x m es s) j c"
proof -
  have a: "tag m (dataIdx j) = tag (emem s) (dataIdx j)" "word m (dataIdx j) = word (emem s) (dataIdx j)"
    using assms(2-5) by simp_all
  have p: "p \<notin> holders n s j" using assms(6) by (simp add: holders_def)
  then have "holders n (el_put p x m es s) j = holders n s j" using assms(7) by (simp add: holders_put)
  moreover have "epc (el_put p x m es s) q = epc s q" if "holders n s j = {q}" for q using that p by auto
  ultimately show ?thesis using assms(1) a unfolding cell_inv_def in_cell_def el_put_sel(1) by metis
qed

lemma el_inv_put:
  assumes inv: "el_inv n st s" and i: "0 \<le> i" "i < n" "only_at (dataIdx i) (emem s) m"
    and p: "locked_cell n (epc s p) \<in> {None, Some i}" "locked_cell n x \<in> {None, Some i}" "el_pc_ok x"
    and c: "cell_inv n (el_put p x m es s) i c"
  shows "el_inv n (st(i := c)) (el_put p x m es s)"
proof -
  have "cell_inv n (el_put p x m es s) j ((st(i := c)) j)" if "0 \<le> j" "j < n" for j
  proof (cases "j = i")
    case False
    then show ?thesis using cell_inv_frame [of n s j "st j" i m p x es] inv i that p by (auto simp: el_inv_def)
  qed (use c in simp)
  then show ?thesis using inv p(3) by (simp add: el_inv_def)
qed

text \<open>A step outside the lock that leaves the buffer alone.\<close>

lemma el_inv_moves:
  assumes inv: "el_inv n st s" and p: "locked_cell n (epc s p) = None" "locked_cell n x = None" "el_pc_ok x"
  shows "el_inv n st (el_put p x (emem s) es s)"
proof -
  have "cell_inv n (el_put p x (emem s) es s) j c" if "cell_inv n s j c" for j c
  proof -
    have q: "p \<notin> holders n s j" using p(1) by (simp add: holders_def)
    then have "holders n (el_put p x (emem s) es s) j = holders n s j" using p(2) by (simp add: holders_put)
    moreover have "epc (el_put p x (emem s) es s) r = epc s r" if "holders n s j = {r}" for r using that q by auto
    ultimately show ?thesis using that unfolding cell_inv_def el_put_sel(1) by metis
  qed
  then show ?thesis using inv p(3) by (auto simp: el_inv_def)
qed

lemma cell_index: "el_inv n st s \<Longrightarrow> 0 \<le> cell_of y mod n \<and> cell_of y mod n < n"
  by (simp add: el_inv_def)

lemma el_inv_cell:
  assumes "el_inv n st s" "epc s p = EAt x y sg" "i = cell_of y mod n"
  shows "ok_op x y" "holds sg \<or> waiting y sg" "cell_inv n s i (st i)" "0 \<le> i" "i < n"
proof -
  have "el_pc_ok (epc s p)" using assms(1) by (simp add: el_inv_def)
  then show "ok_op x y" "holds sg \<or> waiting y sg" using assms(2) by simp_all
  show "cell_inv n s i (st i)" "0 \<le> i" "i < n" using assms(1,3) by (simp_all add: el_inv_def)
qed

lemma el_inv_holder:
  assumes "el_inv n st s" "epc s p = EAt x y sg" "holds sg" "i = cell_of y mod n"
  shows "holders n s i = {p}" "held y (st i) (tag (emem s) (dataIdx i)) (word (emem s) (dataIdx i)) sg"
proof -
  have "p \<in> holders n s i" using assms(2-4) by (simp add: holders_def)
  then show "holders n s i = {p}" "held y (st i) (tag (emem s) (dataIdx i)) (word (emem s) (dataIdx i)) sg"
    using el_inv_cell(3) [OF assms(1,2,4)] assms(2) by (auto simp: cell_inv_def)
qed

lemma el_inv_work:
  assumes inv: "el_inv n st s" and p: "epc s p = EAt x y sg"
    and act: "el_act x (cell_of y mod n) sg (emem s) = (sg', m')"
  shows "el_inv n st (el_put p (EAt x y sg') m' [] s)"
proof -
  define i where "i = cell_of y mod n"
  note cell = el_inv_cell [OF inv p i_def]
  have act: "el_act x i sg (emem s) = (sg', m')" using act by (simp add: i_def)
  show ?thesis
  proof (cases "holds sg")
    case True
    note h = el_inv_holder [OF inv p True i_def]
    from act_held [OF cell(1) act True h(2)] have r: "holds sg'"
      "held y (st i) (tag m' (dataIdx i)) (word m' (dataIdx i)) sg'" "only_at (dataIdx i) (emem s) m'" by blast+
    have "settled (fst (st i))" using cell(3) by (simp add: cell_inv_def)
    then have "cell_inv n (el_put p (EAt x y sg') m' [] s) i (st i)"
      using r(1,2) h(1) by (auto simp: cell_inv_def holders_put i_def [symmetric])
    from el_inv_put [OF inv cell(4,5) r(3) _ _ _ this] show ?thesis using p True r(1) cell(1) by (simp add: i_def [symmetric])
  next
    case False
    with cell(2) have w: "waiting y sg" by blast
    from act_outside [OF cell(1) act False w] show ?thesis
    proof
      assume "m' = emem s \<and> \<not> holds sg' \<and> waiting y sg'"
      then show ?thesis using el_inv_moves [OF inv, of p "EAt x y sg'" "[]"] p False cell(1) by simp
    next
      assume l: "locks_now y (dataIdx i) sg' (emem s) m'"
      then have "fe (tag (emem s) (dataIdx i)) \<noteq> EMS_TAG_BUSY"
        using ready_free [OF cell(1)] by (auto simp: locks_now_def Let_def)
      then have free: "holders n s i = {}" "in_cell (emem s) i (st i)"
        using cell(3) held_busy unfolding cell_inv_def by blast+
      have r: "holds sg'" "only_at (dataIdx i) (emem s) m'" using l by (auto simp: locks_now_def Let_def)
      have "cell_inv n (el_put p (EAt x y sg') m' [] s) i (st i)"
        using locks_now_held [OF l free(2) refl] free r(1) by (auto simp: cell_inv_def holders_put in_cell_def i_def [symmetric])
      from el_inv_put [OF inv cell(4,5) r(2) _ _ _ this] show ?thesis
        using p False r(1) cell(1) by (simp add: i_def [symmetric])
    qed
  qed
qed

text \<open>The store of the last tag carries out the abstract operation.\<close>

lemma el_inv_take:
  assumes inv: "el_inv n st s" and p: "epc s p = EAt x y (SDone t out)"
  shows "\<exists>st'. cell_step y (n, st) = Some (out, n, st') \<and>
    el_inv n st' (el_put p (EAt x y (SRet out)) (set_tag (dataIdx (cell_of y mod n)) t (emem s)) [ETake p y out] s)"
proof -
  define i where "i = cell_of y mod n"
  note cell = el_inv_cell [OF inv p i_def]
  have h: "holders n s i = {p}" "held y (st i) (tag (emem s) (dataIdx i)) (word (emem s) (dataIdx i)) (SDone t out)"
    using el_inv_holder [OF inv p _ i_def] by simp_all
  then obtain d where d: "settled (fe t)" "number_at (ty t) (word (emem s) (dataIdx i)) = Some d"
    "effect y (st i) out (fe t, d)" by (cases "st i") auto
  let ?s = "el_put p (EAt x y (SRet out)) (set_tag (dataIdx i) t (emem s)) [ETake p y out] s"
  have "cell_step y (n, st) = Some (out, n, st(i := (fe t, d)))" using d(3) by (simp add: effect_def i_def)
  moreover have "cell_inv n ?s i (fe t, d)" using d h(1) by (simp add: cell_inv_def holders_put in_cell_def)
  with el_inv_put [OF inv cell(4,5), of "set_tag (dataIdx i) t (emem s)" p "EAt x y (SRet out)" "[ETake p y out]" "(fe t, d)"]
  have "el_inv n (st(i := (fe t, d))) ?s" using p cell(1) by (simp add: i_def [symmetric])
  ultimately show ?thesis by (auto simp: i_def)
qed

end
