(* ===== verification/EmsLinear.thy ===== *)
theory EmsLinear
  imports EmsElement
begin

text \<open>
  What the processes of \<open>EmsElement\<close> get: the operations that lock their element are linearizable,
  producers hand their numbers to consumers in order, and a plain write breaks this.
\<close>

section \<open>What the history says\<close>

text \<open>The operations in the order in which they stored their last tags, with their results.\<close>

fun takes :: "event list \<Rightarrow> (cell_op \<times> datum option) list" where
  "takes [] = []"
| "takes (ETake p y out # es) = (y, out) # takes es"
| "takes (e # es) = takes es"

text \<open>Carried out one after another on the abstract cells, with these results.\<close>

fun cells_run :: "(cell_op \<times> datum option) list \<Rightarrow> cells \<Rightarrow> cells option" where
  "cells_run [] c = Some c"
| "cells_run ((y, out) # l) c = (case cell_step y c of
       None \<Rightarrow> None
     | Some (out', c') \<Rightarrow> if out' = out then cells_run l c' else None)"

text \<open>
  What a process is doing according to the history: each operation is called, takes effect once, and
  returns the result it had then.
\<close>

datatype phase = Idle | Called cell_op | Took "datum option"

fun advance :: "nat \<Rightarrow> phase \<Rightarrow> event \<Rightarrow> phase option" where
  "advance p ph (ECall q y) = (if q \<noteq> p then Some ph else if ph = Idle then Some (Called y) else None)"
| "advance p ph (ETake q y out) = (if q \<noteq> p then Some ph else if ph = Called y then Some (Took out) else None)"
| "advance p ph (ERet q out) = (if q \<noteq> p then Some ph else if ph = Took out then Some Idle else None)"

fun phases :: "nat \<Rightarrow> phase \<Rightarrow> event list \<Rightarrow> phase option" where
  "phases p ph [] = Some ph"
| "phases p ph (e # es) = (case advance p ph e of None \<Rightarrow> None | Some ph' \<Rightarrow> phases p ph' es)"

lemma takes_append: "takes (es @ fs) = takes es @ takes fs"
  by (induction es rule: takes.induct) simp_all

lemma cells_run_append: "cells_run (l @ l') c = (case cells_run l c of None \<Rightarrow> None | Some c' \<Rightarrow> cells_run l' c')"
  by (induction l c rule: cells_run.induct) (auto split: option.splits)

lemma phases_append: "phases p ph (es @ fs) = (case phases p ph es of None \<Rightarrow> None | Some ph' \<Rightarrow> phases p ph' fs)"
  by (induction p ph es rule: phases.induct) (auto split: option.splits)

fun pc_phase :: "el_pc \<Rightarrow> phase" where
  "pc_phase EIdle = Idle"
| "pc_phase (EAt x y (SRet out)) = Took out"
| "pc_phase (EAt x y sg) = Called y"

lemma pc_phase_called: "(\<And>out. sg \<noteq> SRet out) \<Longrightarrow> pc_phase (EAt x y sg) = Called y"
  by (cases sg) auto

definition only_locking :: "el_state \<Rightarrow> bool" where
  "only_locking s \<longleftrightarrow> (\<forall>p y. ECall p y \<in> set (ehist s) \<longrightarrow> locking y)"

definition el_told :: "int \<Rightarrow> (int \<Rightarrow> fe_state \<times> datum) \<Rightarrow> (int \<Rightarrow> fe_state \<times> datum) \<Rightarrow> el_state \<Rightarrow> bool" where
  "el_told n st0 st s \<longleftrightarrow> el_inv n st s \<and> cells_run (takes (ehist s)) (n, st0) = Some (n, st) \<and>
     (\<forall>p. phases p Idle (ehist s) = Some (pc_phase (epc s p)))"

text \<open>Only the store of the last tag leads to the return.\<close>

lemma transition_act_ret:
  "transition_act a f won sg m = (sg', m') \<Longrightarrow> won = SLocked \<or> won = SHeld \<Longrightarrow> sg' = SRet out \<longleftrightarrow> sg = SRet out"
  by (cases sg) (auto simp: try_tag_def split: if_splits)

lemma write_act_ret:
  assumes "write_act i v ini fin sg m = (sg', m')"
  shows "sg' = SRet out \<longleftrightarrow> sg = SRet out"
  using assms
  by (cases sg; cases ini)
    (auto simp: Let_def try_tag_def split: if_splits option.splits bool.splits prod.splits fe_arg.splits)

lemma el_act_ret:
  assumes "ok_op x y" "el_act x i sg m = (sg', m')"
  shows "sg' = SRet out \<longleftrightarrow> sg = SRet out"
proof (cases x)
  case (OWrite k v ini fin)
  then show ?thesis using write_act_ret assms(2) by simp
next
  case (ORead k f g)
  then show ?thesis using assms(2)
    by (cases sg) (auto simp: Let_def try_tag_def split: if_splits option.splits bool.splits prod.splits)
next
  case (OCas k old v)
  then show ?thesis using assms(2) transition_act_ret [of _ EMS_TAG_FULL SLocked sg m sg' m' out]
    by (cases sg) (auto split: if_splits option.splits bool.splits prod.splits)
next
  case (OFaa k v)
  then show ?thesis using assms(2) transition_act_ret [of _ EMS_TAG_FULL SHeld sg m sg' m' out]
    by (cases sg) (auto split: if_splits option.splits bool.splits prod.splits)
qed (use assms(1) in \<open>cases y; auto simp: ok_op_def\<close>)+

lemma el_phase_work:
  assumes "ok_op x y" "el_act x i sg m = (sg', m')"
  shows "pc_phase (EAt x y sg') = pc_phase (EAt x y sg)"
proof (cases "\<exists>out. sg = SRet out")
  case True
  then obtain out where "sg = SRet out" by blast
  moreover from this have "sg' = SRet out" using el_act_ret [OF assms] by blast
  ultimately show ?thesis by simp
next
  case False
  then show ?thesis using el_act_ret [OF assms] pc_phase_called by metis
qed

lemma el_told_step:
  assumes "el_step n s s'" "el_told n st0 st s" "only_locking s'"
  shows "\<exists>st'. el_told n st0 st' s'"
  using assms
proof (induction rule: el_step.induct)
  case (el_call s p x y)
  have "ok_op x y" using el_call by (auto simp: ok_op_def only_locking_def)
  then have "el_inv n st (el_put p (EAt x y SLoad) (emem s) [ECall p y] s)"
    using el_call by (intro el_inv_moves) (auto simp: el_told_def)
  then have "el_told n st0 st (el_put p (EAt x y SLoad) (emem s) [ECall p y] s)"
    using el_call by (auto simp: el_told_def takes_append phases_append)
  then show ?case by blast
next
  case (el_work s p x y sg sg' m')
  have inv: "el_inv n st s" using el_work by (simp add: el_told_def)
  note ok = el_inv_cell(1) [OF inv el_work(1) refl]
  have "el_told n st0 st (el_put p (EAt x y sg') m' [] s)"
    using el_inv_work [OF inv el_work(1,2)] el_phase_work [OF ok el_work(2)] el_work by (auto simp: el_told_def)
  then show ?case by blast
next
  case (el_take s p x y t out)
  have inv: "el_inv n st s" using el_take by (simp add: el_told_def)
  from el_inv_take [OF inv el_take(1)] obtain st' where st': "cell_step y (n, st) = Some (out, n, st')"
    "el_inv n st' (el_put p (EAt x y (SRet out)) (set_tag (dataIdx (cell_of y mod n)) t (emem s)) [ETake p y out] s)" by blast
  then have "el_told n st0 st' (el_put p (EAt x y (SRet out)) (set_tag (dataIdx (cell_of y mod n)) t (emem s)) [ETake p y out] s)"
    using el_take by (auto simp: el_told_def takes_append cells_run_append phases_append)
  then show ?case by blast
next
  case (el_ret s p x y out)
  have "el_inv n st (el_put p EIdle (emem s) [ERet p out] s)"
    using el_ret by (intro el_inv_moves) (auto simp: el_told_def)
  then have "el_told n st0 st (el_put p EIdle (emem s) [ERet p out] s)"
    using el_ret by (auto simp: el_told_def takes_append phases_append)
  then show ?case by blast
qed

lemma el_step_hist: "el_step n s s' \<Longrightarrow> \<exists>es. ehist s' = ehist s @ es"
  by (induction rule: el_step.induct) auto

lemma el_start_told: "el_start n st s \<Longrightarrow> el_told n st st s"
  by (auto simp: el_start_def el_told_def el_inv_def cell_inv_def holders_def in_cell_def)

lemma el_reach_told: "el_reach n st0 s \<Longrightarrow> only_locking s \<Longrightarrow> \<exists>st. el_told n st0 st s"
proof (induction rule: el_reach.induct)
  case (el_init s)
  then show ?case using el_start_told by blast
next
  case (el_more s s')
  then have "only_locking s" using el_step_hist [of n s s'] by (auto simp: only_locking_def)
  with el_more el_told_step show ?case by blast
qed

section \<open>One process running\<close>

definition el_next :: "int \<Rightarrow> nat \<Rightarrow> el_state \<Rightarrow> el_state" where
  "el_next n p s = (case epc s p of
       EIdle \<Rightarrow> s
     | EAt x y sg \<Rightarrow> (case sg of
           SDone t out \<Rightarrow> el_put p (EAt x y (SRet out)) (set_tag (dataIdx (cell_of y mod n)) t (emem s)) [ETake p y out] s
         | SRet out \<Rightarrow> el_put p EIdle (emem s) [ERet p out] s
         | _ \<Rightarrow> (case el_act x (cell_of y mod n) sg (emem s) of (sg', m') \<Rightarrow> el_put p (EAt x y sg') m' [] s)))"

lemma el_next_step: "epc s p \<noteq> EIdle \<Longrightarrow> el_step n s (el_next n p s)"
  by (auto simp: el_next_def split: el_pc.splits stage.splits prod.splits
      intro: el_call el_work el_take el_ret simp del: el_act.simps)

lemma el_next_idle [simp]: "epc s p = EIdle \<Longrightarrow> el_next n p s = s"
  by (simp add: el_next_def)

lemma el_next_reach: "el_reach n st s \<Longrightarrow> el_reach n st (el_next n p s)"
  using el_next_step el_more by (cases "epc s p = EIdle") fastforce+

lemma el_next_calls: "ECall q y \<in> set (ehist (el_next n p s)) \<longleftrightarrow> ECall q y \<in> set (ehist s)"
  by (auto simp: el_next_def split: el_pc.splits stage.splits prod.splits)

lemma el_next_locking: "only_locking s \<Longrightarrow> only_locking (el_next n p s)"
  by (simp add: only_locking_def el_next_calls)

text \<open>A holder comes nearer to its return with every access.\<close>

fun rank :: "stage \<Rightarrow> nat" where
  "rank (SLocked t) = 6"
| "rank (SHeld t) = 5"
| "rank (SGot t v) = 4"
| "rank (SSum t v x) = 3"
| "rank (SStored t) = 3"
| "rank (SDone t out) = 2"
| "rank (SRet out) = 1"
| "rank _ = 0"

lemma act_rank:
  assumes "ok_op x y" "el_act x i sg m = (sg', m')" "holds sg" "\<And>t out. sg \<noteq> SDone t out"
    and h: "held y c (tag m (dataIdx i)) (word m (dataIdx i)) sg"
  shows "rank sg' < rank sg"
proof (cases x)
  case (OWrite k v ini fin)
  with assms(1) obtain h d where y: "y = CWrite h d ini fin" by (cases y) (auto simp: ok_op_def)
  show ?thesis using OWrite y assms(2-) 
    by (cases c; cases sg; cases ini) (auto simp: Let_def split: option.splits bool.splits prod.splits fe_arg.splits if_splits)
next
  case (ORead k f g)
  with assms(1) obtain h where y: "y = CRead h f g" by (cases y) (auto simp: ok_op_def)
  show ?thesis using ORead y assms(2-)
    by (cases c; cases sg) (auto split: option.splits bool.splits prod.splits)
next
  case (OCas k old v)
  with assms(1) obtain h e d where y: "y = CCas h e d" by (cases y) (auto simp: ok_op_def)
  show ?thesis using OCas y assms(2-)
    by (cases c; cases sg) (auto split: option.splits bool.splits prod.splits)
next
  case (OFaa k v)
  with assms(1) obtain h e where y: "y = CFaa h e" by (cases y) (auto simp: ok_op_def)
  show ?thesis using OFaa y assms(2-)
    by (cases c; cases sg) (auto split: option.splits bool.splits prod.splits)
qed (use assms(1) in \<open>cases y; auto simp: ok_op_def\<close>)+

lemma el_next_rank:
  assumes inv: "el_inv n st s" and p: "epc s p = EAt x y sg" "holds sg"
  shows "\<exists>sg'. epc (el_next n p s) p = EAt x y sg' \<and> rank sg' < rank sg \<and> (holds sg' \<or> (\<exists>out. sg' = SRet out))"
proof (cases "\<exists>t out. sg = SDone t out")
  case True
  then show ?thesis using p by (auto simp: el_next_def)
next
  case False
  obtain sg' m' where act: "el_act x (cell_of y mod n) sg (emem s) = (sg', m')" by (cases "el_act x (cell_of y mod n) sg (emem s)")
  then have "epc (el_next n p s) p = EAt x y sg'"
    using p False by (cases sg) (simp_all add: el_next_def)
  moreover note h = el_inv_holder(2) [OF inv p refl]
  note ok = el_inv_cell(1) [OF inv p(1) refl]
  have "rank sg' < rank sg" using act_rank [OF ok act p(2) _ h] False by blast
  moreover have "holds sg'" using act_held [OF ok act p(2) h] by blast
  ultimately show ?thesis by blast
qed

lemma el_finishes:
  assumes "el_reach n st0 s" "only_locking s" "epc s p = EAt x y sg" "holds sg"
  shows "\<exists>k \<le> rank sg. epc ((el_next n p ^^ k) s) p = EIdle"
  using assms
proof (induction "rank sg" arbitrary: s sg rule: less_induct)
  case less
  from el_reach_told [OF less.prems(1,2)] obtain st where "el_inv n st s" by (auto simp: el_told_def)
  from el_next_rank [OF this less.prems(3,4)] obtain sg' where
    sg': "epc (el_next n p s) p = EAt x y sg'" "rank sg' < rank sg" "holds sg' \<or> (\<exists>out. sg' = SRet out)" by blast
  from sg'(3) show ?case
  proof
    assume "holds sg'"
    from less.hyps [OF sg'(2) el_next_reach [OF less.prems(1)] el_next_locking [OF less.prems(2)] sg'(1) this]
    obtain k where "k \<le> rank sg'" "epc ((el_next n p ^^ k) (el_next n p s)) p = EIdle" by blast
    then show ?thesis using sg'(2) by (intro exI [of _ "Suc k"]) (simp add: funpow_swap1)
  next
    assume "\<exists>out. sg' = SRet out"
    then obtain out where "sg' = SRet out" by blast
    then have "epc ((el_next n p ^^ 2) s) p = EIdle" using sg'(1) by (simp add: numeral_2_eq_2 el_next_def)
    moreover have "2 \<le> rank sg" using less.prems(4) by (cases sg) auto
    ultimately show ?thesis by blast
  qed
qed

section \<open>Producers and consumers\<close>

text \<open>What the writes to element \<open>i\<close> stored and the reads of it gave, in the order of the history.\<close>

fun written :: "int \<Rightarrow> int \<Rightarrow> (cell_op \<times> datum option) list \<Rightarrow> datum list" where
  "written n i [] = []"
| "written n i ((CWrite h d ini fin, out) # l) = (if h mod n = i then d # written n i l else written n i l)"
| "written n i (_ # l) = written n i l"

fun taken :: "int \<Rightarrow> int \<Rightarrow> (cell_op \<times> datum option) list \<Rightarrow> datum list" where
  "taken n i [] = []"
| "taken n i ((CRead h f g, Some d) # l) = (if h mod n = i then d # taken n i l else taken n i l)"
| "taken n i (_ # l) = taken n i l"

fun hands_over :: "cell_op \<Rightarrow> bool" where
  "hands_over (CWrite h d ini fin) \<longleftrightarrow> ini = FE EMS_TAG_EMPTY \<and> fin = FE EMS_TAG_FULL"
| "hands_over (CRead h f g) \<longleftrightarrow> f = EMS_TAG_FULL \<and> g = EMS_TAG_EMPTY"
| "hands_over _ \<longleftrightarrow> False"

definition in_hand :: "fe_state \<times> datum \<Rightarrow> datum list" where
  "in_hand c = (if fst c = EMS_TAG_FULL then [norm_datum (snd c)] else [])"

lemma cell_step_elsewhere:
  assumes "cell_step y (n, st) = Some (out, n', st')" "cell_of y mod n \<noteq> i"
  shows "st' i = st i" "n' = n"
  using assms by (cases y; auto simp: split_beta Let_def split: if_splits)+

lemma cells_run_handoff:
  assumes "cells_run l (n, st) = Some (n, st')" "\<forall>(y, out) \<in> set l. cell_of y mod n = i \<longrightarrow> hands_over y"
  shows "in_hand (st i) @ map norm_datum (written n i l) = taken n i l @ in_hand (st' i)"
  using assms
proof (induction l arbitrary: st)
  case (Cons a l)
  obtain y out where a: "a = (y, out)" by (cases a)
  then obtain n1 st1 where s: "cell_step y (n, st) = Some (out, n1, st1)" "cells_run l (n1, st1) = Some (n, st')"
    using Cons.prems(1) by (auto split: option.splits if_splits)
  have n1: "n1 = n" using s(1) by (cases y) (auto simp: split_beta Let_def split: if_splits)
  have IH: "in_hand (st1 i) @ map norm_datum (written n i l) = taken n i l @ in_hand (st' i)"
    using Cons.IH [of st1] s(2) n1 Cons.prems(2) by simp
  show ?case
  proof (cases "cell_of y mod n = i")
    case True
    then have h: "hands_over y" using Cons.prems(2) a by simp
    show ?thesis using IH s(1) h True a
      by (cases y) (auto simp: in_hand_def split_beta Let_def split: if_splits)
  next
    case False
    have "written n i (a # l) = written n i l" "taken n i (a # l) = taken n i l"
      using a False by (cases y; cases out; simp)+
    then show ?thesis using IH cell_step_elsewhere(1) [OF s(1) False] by simp
  qed
qed simp

text \<open>Only what was called takes effect.\<close>

lemma el_reach_called:
  assumes "el_reach n st s"
  shows "(\<forall>p x y sg. epc s p = EAt x y sg \<longrightarrow> ECall p y \<in> set (ehist s)) \<and>
    (\<forall>p y out. ETake p y out \<in> set (ehist s) \<longrightarrow> ECall p y \<in> set (ehist s))"
  using assms
proof (induction rule: el_reach.induct)
  case (el_init s)
  then show ?case by (simp add: el_start_def)
next
  case (el_more s s')
  from el_more(2,3) show ?case by (induction rule: el_step.induct) auto
qed

lemma takes_set: "(y, out) \<in> set (takes es) \<Longrightarrow> \<exists>p. ETake p y out \<in> set es"
  by (induction es rule: takes.induct) auto

section \<open>A plain write and the lock\<close>

lemma el_act_only_at:
  assumes "el_act x i sg m = (sg', m')"
  shows "only_at (dataIdx i) m m'"
proof (cases x)
  case (OWrite k v ini fin)
  then show ?thesis using assms
    by (cases sg; cases ini) (auto simp: Let_def try_tag_def split: if_splits option.splits bool.splits prod.splits fe_arg.splits)
next
  case (ORead k f g)
  then show ?thesis using assms
    by (cases sg) (auto simp: Let_def try_tag_def split: if_splits option.splits bool.splits prod.splits)
next
  case (OPeek k)
  then show ?thesis using assms by (cases sg) (auto split: option.splits bool.splits prod.splits)
next
  case (OCas k old v)
  then show ?thesis using assms
    by (cases sg) (auto simp: try_tag_def split: if_splits option.splits bool.splits prod.splits)
next
  case (OFaa k v)
  then show ?thesis using assms
    by (cases sg) (auto simp: try_tag_def split: if_splits option.splits bool.splits prod.splits)
next
  case (OSet k b)
  then show ?thesis using assms by (cases sg) auto
qed

text \<open>
  \<open>locked_out\<close>: the tag is busy though nobody holds the element, and everybody inside uses
  operations that lock. \<open>later\<close>: the processes have gone on from \<open>s\<close> and begun no other operation.
\<close>

definition locked_out :: "int \<Rightarrow> int \<Rightarrow> el_state \<Rightarrow> bool" where
  "locked_out n i s \<longleftrightarrow> 0 < n \<and> 0 \<le> i \<and> fe (tag (emem s) (dataIdx i)) = EMS_TAG_BUSY \<and>
     (\<forall>p x y sg. epc s p = EAt x y sg \<longrightarrow> ok_op x y \<and> (cell_of y mod n = i \<longrightarrow> \<not> holds sg \<and> waiting y sg))"

inductive later :: "int \<Rightarrow> el_state \<Rightarrow> event list \<Rightarrow> el_state \<Rightarrow> bool" for n s where
  later_now: "later n s [] s"
| later_step: "later n s es u \<Longrightarrow> el_step n u u' \<Longrightarrow> ehist u' = ehist u @ fs \<Longrightarrow>
     (\<forall>p y. ECall p y \<in> set fs \<longrightarrow> locking y) \<Longrightarrow> later n s (es @ fs) u'"

lemma locked_out_step:
  assumes "el_step n s s'" "locked_out n i s" "ehist s' = ehist s @ fs" "\<forall>p y. ECall p y \<in> set fs \<longrightarrow> locking y"
  shows "locked_out n i s' \<and> (\<forall>p y out. ETake p y out \<in> set fs \<longrightarrow> cell_of y mod n \<noteq> i)"
  using assms
proof (induction rule: el_step.induct)
  case (el_call s p x y)
  then have "ok_op x y" by (auto simp: ok_op_def)
  then show ?case using el_call by (auto simp: locked_out_def)
next
  case (el_work s p x y sg sg' m')
  let ?j = "cell_of y mod n"
  have ok: "ok_op x y" and j: "0 \<le> ?j" "0 \<le> i" using el_work(1,3) by (auto simp: locked_out_def)
  have keep: "tag m' (dataIdx i) = tag (emem s) (dataIdx i) \<and> (?j = i \<longrightarrow> \<not> holds sg' \<and> waiting y sg')"
  proof (cases "?j = i")
    case True
    then have w: "\<not> holds sg" "waiting y sg" using el_work(1,3) by (auto simp: locked_out_def)
    have "\<not> locks_now y (dataIdx i) sg' (emem s) m'"
      using ready_free [OF ok] el_work(3) by (auto simp: locks_now_def locked_out_def Let_def)
    then show ?thesis using act_outside [OF ok el_work(2) w] True by auto
  next
    case False
    then show ?thesis using el_act_only_at [OF el_work(2)] j by simp
  qed
  then show ?case using el_work ok by (auto simp: locked_out_def)
next
  case (el_take s p x y t out)
  have "cell_of y mod n \<noteq> i" using el_take(1,2) holds.simps(6) unfolding locked_out_def by blast
  moreover have "0 \<le> cell_of y mod n" "0 \<le> i" using el_take(2) by (auto simp: locked_out_def)
  ultimately show ?case using el_take by (auto simp: locked_out_def)
next
  case (el_ret s p x y out)
  then show ?case by (auto simp: locked_out_def)
qed

lemma locked_out_later:
  assumes "later n s es s'" "locked_out n i s"
  shows "locked_out n i s' \<and> (\<forall>p y out. ETake p y out \<in> set es \<longrightarrow> cell_of y mod n \<noteq> i)"
  using assms
proof (induction rule: later.induct)
  case (later_step es u u' fs)
  then show ?case using locked_out_step [OF later_step(2) _ later_step(3,4)] unfolding set_append Un_iff by blast
qed simp

section \<open>Runs step by step\<close>

definition el_at :: "int \<Rightarrow> (int \<Rightarrow> fe_state \<times> datum) \<Rightarrow> ems \<Rightarrow> (nat \<Rightarrow> el_pc) \<Rightarrow> event list \<Rightarrow> bool" where
  "el_at n st m f h \<longleftrightarrow> el_reach n st \<lparr>emem = m, epc = f, ehist = h\<rparr>"

lemma at_call:
  assumes "el_at n st m f h" "f p = EIdle" "op_for x y" "number_op x"
  shows "el_at n st m (f(p := EAt x y SLoad)) (h @ [ECall p y])"
  using el_more [OF assms(1) [unfolded el_at_def] el_call [of _ p x y]] assms(2-4) by (simp add: el_at_def el_put_def)

lemma at_work:
  assumes "el_at n st m f h" "f p = EAt x y sg" "el_act x (cell_of y mod n) sg m = (sg', m')"
  shows "el_at n st m' (f(p := EAt x y sg')) h"
  using el_more [OF assms(1) [unfolded el_at_def] el_work [of _ p x y sg n sg' m']] assms(2,3) by (simp add: el_at_def el_put_def)

lemma at_take:
  assumes "el_at n st m f h" "f p = EAt x y (SDone t out)"
  shows "el_at n st (set_tag (dataIdx (cell_of y mod n)) t m) (f(p := EAt x y (SRet out))) (h @ [ETake p y out])"
  using el_more [OF assms(1) [unfolded el_at_def] el_take [of _ p x y t out]] assms(2) by (simp add: el_at_def el_put_def)

lemma at_ret:
  assumes "el_at n st m f h" "f p = EAt x y (SRet out)"
  shows "el_at n st m (f(p := EIdle)) (h @ [ERet p out])"
  using el_more [OF assms(1) [unfolded el_at_def] el_ret [of _ p x y out]] assms(2) by (simp add: el_at_def el_put_def)

text \<open>
  A read that keeps the element full, and a plain write that loads the tag while the reader holds
  the element and stores it after the reader is gone.
\<close>

lemma stranded_run:
  assumes "el_start n st s0" "0 \<le> i" "i < n" "fst (st i) = EMS_TAG_FULL" "p \<noteq> q"
    and k: "key_for k h" "i = h mod n" and v: "value_ok v d" "\<not> is_text (vtype v)"
  shows "\<exists>m. el_at n st m (\<lambda>_. EIdle)
      [ECall p (CRead h EMS_TAG_FULL EMS_TAG_FULL), ECall q (CWrite h d EMS_TAG_ANY EMS_TAG_ANY),
       ETake p (CRead h EMS_TAG_FULL EMS_TAG_FULL) (Some (norm_datum (snd (st i)))),
       ERet p (Some (norm_datum (snd (st i)))),
       ETake q (CWrite h d EMS_TAG_ANY EMS_TAG_ANY) None, ERet q None] \<and>
    fe (tag m (dataIdx i)) = EMS_TAG_BUSY"
proof -
  let ?a = "dataIdx i" let ?m = "emem s0" let ?t = "tag ?m ?a" let ?b = "?t\<lparr>fe := EMS_TAG_BUSY\<rparr>"
  let ?R = "ORead k EMS_TAG_FULL EMS_TAG_FULL" let ?r = "CRead h EMS_TAG_FULL EMS_TAG_FULL"
  let ?W = "OWrite k v EMS_TAG_ANY EMS_TAG_ANY" let ?w = "CWrite h d EMS_TAG_ANY EMS_TAG_ANY"
  let ?m1 = "set_tag ?a ?b ?m" let ?out = "Some (norm_datum (snd (st i)))"
  have idle: "epc s0 = (\<lambda>_. EIdle)" "ehist s0 = []" using assms(1) by (auto simp: el_start_def)
  have cell: "in_cell ?m i (st i)" using assms(1-3) by (simp add: el_start_def)
  then have t: "fe ?t = EMS_TAG_FULL" and num: "number_at (ty ?b) (word (mem (alone ?m1)) ?a) = Some (snd (st i))"
    using assms(4) by (simp_all add: in_cell_def)
  have same: "?t\<lparr>fe := EMS_TAG_FULL\<rparr> = ?t" using t by (simp add: fe_update_same)
  from number_read [OF num, of EMS_TAG_FULL no_value ?m1] obtain r w' where
    rd: "read_finish i (FE EMS_TAG_FULL) no_value ?b (alone ?m1) = Some (True, r, w')" "value_datum ?m1 r = ?out" by blast
  let ?m2 = "set_tag ?a (?b\<lparr>fe := EMS_TAG_FULL\<rparr>) ?m1"
  from number_write [OF v, of ?a "alone ?m2"] obtain x where
    wr: "write_store 1 ?a v (alone ?m2) = Some (True, upd (set_word ?a x) (alone ?m2))" by blast
  let ?m3 = "set_word ?a x ?m2"
  have ops: "op_for ?R ?r" "number_op ?R" "op_for ?W ?w" "number_op ?W" using k v by (simp_all add: settled_def)
  have "el_at n st ?m (\<lambda>_. EIdle) []"
    using el_init [OF assms(1)] idle unfolding el_at_def by (metis (full_types) el_state.surjective old.unit.exhaust)
  note s = at_call [OF this refl ops(1,2), where p = p]
  note s = at_work [OF s, where p = p and x = "?R" and y = "?r" and sg = "SLoad" and sg' = "STry ?t" and m' = "?m"]
  have "el_at n st ?m ((\<lambda>_. EIdle)(p := EAt ?R ?r (STry ?t))) [ECall p ?r]"
    using s t k by (simp add: Let_def read_may_try_def)
  note s = at_work [OF this, where p = p and x = "?R" and y = "?r" and sg = "STry ?t" and sg' = "SHeld ?b" and m' = "?m1"]
  have "el_at n st ?m1 ((\<lambda>_. EIdle)(p := EAt ?R ?r (SHeld ?b))) [ECall p ?r]"
    using s same k by (simp add: try_tag_def)
  note s = at_call [OF this _ ops(3,4), where p = q]
  note s = at_work [OF s, where p = q and x = "?W" and y = "?w" and sg = "SLoad" and sg' = "SHeld ?b" and m' = "?m1"]
  have "el_at n st ?m1 ((\<lambda>_. EIdle)(p := EAt ?R ?r (SHeld ?b), q := EAt ?W ?w (SHeld ?b))) [ECall p ?r, ECall q ?w]"
    using s assms(5) k by (simp add: Let_def)
  note s = at_work [OF this, where p = p and x = "?R" and y = "?r" and sg = "SHeld ?b" and sg' = "SDone (?b\<lparr>fe := EMS_TAG_FULL\<rparr>) ?out" and m' = "?m1"]
  have "el_at n st ?m1 ((\<lambda>_. EIdle)(p := EAt ?R ?r (SDone (?b\<lparr>fe := EMS_TAG_FULL\<rparr>) ?out), q := EAt ?W ?w (SHeld ?b)))
      [ECall p ?r, ECall q ?w]"
    using s assms(5) k rd by (simp add: fun_upd_twist)
  note s = at_ret [OF at_take [OF this, where p = p], where p = p]
  have "el_at n st ?m2 ((\<lambda>_. EIdle)(q := EAt ?W ?w (SHeld ?b))) [ECall p ?r, ECall q ?w, ETake p ?r ?out, ERet p ?out]"
    using s assms(5) k by (simp add: fun_upd_twist fun_upd_idem)
  note s = at_work [OF this, where p = q and x = "?W" and y = "?w" and sg = "SHeld ?b" and sg' = "SStored ?b" and m' = "?m3"]
  have "el_at n st ?m3 ((\<lambda>_. EIdle)(q := EAt ?W ?w (SStored ?b))) [ECall p ?r, ECall q ?w, ETake p ?r ?out, ERet p ?out]"
    using s k wr by simp
  note s = at_work [OF this, where p = q and x = "?W" and y = "?w" and sg = "SStored ?b" and sg' = "SDone (?b\<lparr>ty := vtype v\<rparr>) None" and m' = "?m3"]
  have "el_at n st ?m3 ((\<lambda>_. EIdle)(q := EAt ?W ?w (SDone (?b\<lparr>ty := vtype v\<rparr>) None)))
      [ECall p ?r, ECall q ?w, ETake p ?r ?out, ERet p ?out]"
    using s by simp
  note s = at_ret [OF at_take [OF this, where p = q], where p = q]
  have "el_at n st (set_tag ?a (?b\<lparr>ty := vtype v\<rparr>) ?m3) (\<lambda>_. EIdle)
      [ECall p ?r, ECall q ?w, ETake p ?r ?out, ERet p ?out, ETake q ?w None, ERet q None]"
    using s k by (simp add: fun_upd_idem)
  then show ?thesis by (intro exI [of _ "set_tag ?a (?b\<lparr>ty := vtype v\<rparr>) ?m3"]) simp
qed

text \<open>
  A consumer looks at an empty element, a producer locks it, stores 5 and sets it full, and the
  consumer takes the number before the producer has returned.
\<close>

abbreviation handed_write :: cell_op where
  "handed_write \<equiv> CWrite 6 (DInt 5) (FE EMS_TAG_EMPTY) (FE EMS_TAG_FULL)"

abbreviation handed_read :: cell_op where
  "handed_read \<equiv> CRead 6 EMS_TAG_FULL EMS_TAG_EMPTY"

abbreviation handed_events :: "event list" where
  "handed_events \<equiv> [ECall 1 handed_read, ECall 0 handed_write, ETake 0 handed_write None,
     ETake 1 handed_read (Some (DInt 5)), ERet 1 (Some (DInt 5)), ERet 0 None]"

lemma handed_run: "\<exists>m. el_at 4 (\<lambda>_. (EMS_TAG_EMPTY, DInt 0)) m (\<lambda>_. EIdle) handed_events"
proof -
  let ?st = "\<lambda>_ :: int. (EMS_TAG_EMPTY, DInt 0)" let ?m = "blank_ems 4 2" let ?a = "dataIdx 2"
  let ?E = "\<lparr>fe = EMS_TAG_EMPTY, ty = EMS_TYPE_INTEGER, rw = 0\<rparr>" let ?F = "?E\<lparr>fe := EMS_TAG_FULL\<rparr>"
  let ?B = "?E\<lparr>fe := EMS_TAG_BUSY\<rparr>" let ?v = "int_value 5"
  let ?W = "OWrite (int_value 6) ?v (FE EMS_TAG_EMPTY) (FE EMS_TAG_FULL)" let ?w = handed_write
  let ?R = "ORead (int_value 6) EMS_TAG_FULL EMS_TAG_EMPTY" let ?r = handed_read
  let ?m1 = "set_tag ?a ?B ?m" let ?m2 = "set_word ?a 5 ?m1" let ?m3 = "set_tag ?a ?F ?m2" let ?m4 = "set_tag ?a ?B ?m3"
  have tg: "tag ?m (dataIdx i) = ?E" "word ?m (dataIdx i) = 0" if "0 \<le> i" for i
    using that by (simp_all add: blank_ems_def dataIdx_def ems_cb_defs)
  have "nelem ?m = 4" "\<not> EMSisMapped ?m" using blank_array [of 4 2] by (simp_all add: array_rep_def)
  then have st: "el_start 4 ?st \<lparr>emem = ?m, epc = \<lambda>_. EIdle, ehist = []\<rparr>"
    by (simp add: el_start_def in_cell_def tg settled_def)
  have ops: "op_for ?R ?r" "number_op ?R" "op_for ?W ?w" "number_op ?W"
    by (simp_all add: key_for_def int_key settled_def int_value_ok is_text_def) (simp add: int_value_def)
  have wr: "write_store 1 ?a ?v (alone m) = Some (True, upd (set_word ?a 5) (alone m))" for m
    by (simp add: write_store_def int_value_def)
  have "el_at 4 ?st ?m (\<lambda>_. EIdle) []" using el_init [OF st] by (simp add: el_at_def)
  note s = at_call [OF at_call [OF this refl ops(1,2), where p = 1] _ ops(3,4), where p = 0]
  note s = at_work [OF s, where p = 1 and x = "?R" and y = "?r" and sg = "SLoad" and sg' = "SLoad" and m' = "?m"]
  have "el_at 4 ?st ?m ((\<lambda>_. EIdle)(0 := EAt ?W ?w SLoad, 1 := EAt ?R ?r SLoad)) [ECall 1 ?r, ECall 0 ?w]"
    using s by (simp add: tg read_may_try_def Let_def fun_upd_twist)
  note s = at_work [OF this, where p = 0 and x = "?W" and y = "?w" and sg = "SLoad" and sg' = "STry ?E" and m' = "?m"]
  note s = at_work [OF s, where p = 0 and x = "?W" and y = "?w" and sg = "STry ?E" and sg' = "SLocked ?B" and m' = "?m1"]
  have "el_at 4 ?st ?m1 ((\<lambda>_. EIdle)(1 := EAt ?R ?r SLoad, 0 := EAt ?W ?w (SLocked ?B))) [ECall 1 ?r, ECall 0 ?w]"
    using s by (simp add: tg try_tag_def fun_upd_twist)
  note s = at_work [OF this, where p = 0 and x = "?W" and y = "?w" and sg = "SLocked ?B" and sg' = "SHeld ?B" and m' = "?m1"]
  note s = at_work [OF s, where p = 0 and x = "?W" and y = "?w" and sg = "SHeld ?B" and sg' = "SStored ?B" and m' = "?m2"]
  note s = at_work [OF s, where p = 0 and x = "?W" and y = "?w" and sg = "SStored ?B" and sg' = "SDone ?F None" and m' = "?m2"]
  have "el_at 4 ?st ?m2 ((\<lambda>_. EIdle)(1 := EAt ?R ?r SLoad, 0 := EAt ?W ?w (SDone ?F None))) [ECall 1 ?r, ECall 0 ?w]"
    using s wr by (simp add: Let_def) (simp add: int_value_def)
  note s = at_take [OF this, where p = 0]
  have "el_at 4 ?st ?m3 ((\<lambda>_. EIdle)(0 := EAt ?W ?w (SRet None), 1 := EAt ?R ?r SLoad))
      [ECall 1 ?r, ECall 0 ?w, ETake 0 ?w None]"
    using s by (simp add: fun_upd_twist)
  note s = at_work [OF this, where p = 1 and x = "?R" and y = "?r" and sg = "SLoad" and sg' = "STry ?F" and m' = "?m3"]
  note s = at_work [OF s, where p = 1 and x = "?R" and y = "?r" and sg = "STry ?F" and sg' = "SHeld ?B" and m' = "?m4"]
  note s = at_work [OF s, where p = 1 and x = "?R" and y = "?r" and sg = "SHeld ?B" and sg' = "SDone ?E (Some (DInt 5))" and m' = "?m4"]
  have "el_at 4 ?st ?m4 ((\<lambda>_. EIdle)(0 := EAt ?W ?w (SRet None), 1 := EAt ?R ?r (SDone ?E (Some (DInt 5)))))
      [ECall 1 ?r, ECall 0 ?w, ETake 0 ?w None]"
    using s by (simp add: read_may_try_def try_tag_def Let_def read_finish_def value_datum_def no_value_def)
  note s = at_ret [OF at_take [OF this, where p = 1], where p = 1]
  have "\<exists>m. el_at 4 ?st m ((\<lambda>_. EIdle)(0 := EAt ?W ?w (SRet None)))
      [ECall 1 ?r, ECall 0 ?w, ETake 0 ?w None, ETake 1 ?r (Some (DInt 5)), ERet 1 (Some (DInt 5))]"
    using s by (auto simp: fun_upd_idem)
  then obtain m where "el_at 4 ?st m ((\<lambda>_. EIdle)(0 := EAt ?W ?w (SRet None)))
      [ECall 1 ?r, ECall 0 ?w, ETake 0 ?w None, ETake 1 ?r (Some (DInt 5)), ERet 1 (Some (DInt 5))]" by blast
  from at_ret [OF this, where p = 0] show ?thesis by (auto simp: fun_upd_idem)
qed

lemma handed_state:
  obtains s where "el_reach 4 (\<lambda>_. (EMS_TAG_EMPTY, DInt 0)) s" "only_locking s" "\<And>p. epc s p = EIdle" "ehist s = handed_events"
proof -
  obtain m where "el_at 4 (\<lambda>_. (EMS_TAG_EMPTY, DInt 0)) m (\<lambda>_. EIdle) handed_events" using handed_run by blast
  then show thesis unfolding el_at_def by (rule that) (auto simp: only_locking_def settled_def)
qed

lemma stranded_start:
  "el_start 4 ((\<lambda>_. (EMS_TAG_EMPTY, DInt 0))(2 := (EMS_TAG_FULL, DInt 0))) \<lparr>emem = one_full, epc = \<lambda>_. EIdle, ehist = []\<rparr>"
proof -
  have "nelem one_full = 4" "\<not> EMSisMapped one_full"
    using blank_array [of 4 2] by (simp_all add: one_full_def array_rep_def EMSisMapped_def)
  moreover have "tag (blank_ems 4 2) (dataIdx i) = \<lparr>fe = EMS_TAG_EMPTY, ty = EMS_TYPE_INTEGER, rw = 0\<rparr>"
    "word (blank_ems 4 2) (dataIdx i) = 0" if "0 \<le> i" for i
    using that by (simp_all add: blank_ems_def dataIdx_def ems_cb_defs)
  ultimately show ?thesis by (auto simp: el_start_def in_cell_def settled_def one_full_def)
qed

section \<open>Properties\<close>

text \<open>
  C3: the operations that lock their element are linearizable. However any number of processes
  interleave their loads, compare and swaps and stores in an array of numbers, with reads, compare
  and swaps, fetch and adds and the writes that set a state, all out of full or empty: carried out
  one after another on abstract full/empty cells, in the order in which they stored their last tags,
  the operations give the results they gave; each took effect once, between its call and its return,
  and returned that result; an element nobody holds has the state and the number of its cell; a held
  one is busy and has one holder, which returns within six steps of its own; and no operation fails.
  (A plain \<open>EMSread\<close> or \<open>EMSwrite\<close>, \<open>EMSsetTag\<close>, and the readers' lock are excluded: what a plain
  write does is shown below.)
\<close>

theorem EMS_linearizable:
  assumes "el_reach n st0 s" "only_locking s"
  shows "\<exists>st. cells_run (takes (ehist s)) (n, st0) = Some (n, st) \<and>
    (\<forall>p. phases p Idle (ehist s) = Some (pc_phase (epc s p))) \<and>
    (\<forall>i. 0 \<le> i \<longrightarrow> i < n \<longrightarrow>
       (if holders n s i = {} then fe (tag (emem s) (dataIdx i)) = fst (st i) \<and>
            slot_datum (emem s) (dataIdx i) = Some (snd (st i))
        else fe (tag (emem s) (dataIdx i)) = EMS_TAG_BUSY \<and>
          (\<exists>p k. holders n s i = {p} \<and> k \<le> 6 \<and> epc ((el_next n p ^^ k) s) p = EIdle))) \<and>
    (\<forall>p x y. epc s p \<noteq> EAt x y SFail)"
proof -
  from el_reach_told [OF assms] obtain st where st: "el_told n st0 st s" by blast
  then have inv: "el_inv n st s" by (simp add: el_told_def)
  have cell: "cell_inv n s i (st i)" if "0 \<le> i" "i < n" for i using inv that by (simp add: el_inv_def)
  have busy: "fe (tag (emem s) (dataIdx i)) = EMS_TAG_BUSY \<and>
      (\<exists>p k. holders n s i = {p} \<and> k \<le> 6 \<and> epc ((el_next n p ^^ k) s) p = EIdle)"
    if i: "0 \<le> i" "i < n" "holders n s i \<noteq> {}" for i
  proof -
    from cell [OF i(1,2)] i(3) obtain p x y sg where p: "holders n s i = {p}" "epc s p = EAt x y sg"
      "held y (st i) (tag (emem s) (dataIdx i)) (word (emem s) (dataIdx i)) sg" by (auto simp: cell_inv_def)
    then have "p \<in> holders n s i" by blast
    then have "locked_cell n (epc s p) = Some i" by (simp add: holders_def)
    then have "holds sg" using p(2) by (simp split: if_splits)
    from el_finishes [OF assms p(2) this] obtain k where "k \<le> rank sg" "epc ((el_next n p ^^ k) s) p = EIdle" by blast
    moreover have "rank sg \<le> 6" by (cases sg) auto
    ultimately show ?thesis using p(1) held_busy [OF p(3)] by (auto intro: order_trans)
  qed
  have free: "fe (tag (emem s) (dataIdx i)) = fst (st i) \<and> slot_datum (emem s) (dataIdx i) = Some (snd (st i))"
    if "0 \<le> i" "i < n" "holders n s i = {}" for i
    using cell [OF that(1,2)] that(3)
    by (auto simp: cell_inv_def in_cell_def slot_datum_def number_at_datum [where m = "emem s"])
  have "epc s p \<noteq> EAt x y SFail" for p x y using el_inv_cell(2) [OF inv, of p x y SFail] by auto
  with st busy free show ?thesis unfolding el_told_def by auto
qed

theorem EMS_linearizable_witness:
  "\<exists>s st. el_reach 4 (\<lambda>_. (EMS_TAG_EMPTY, DInt 0)) s \<and>
     takes (ehist s) = [(handed_write, None), (handed_read, Some (DInt 5))] \<and>
     cells_run (takes (ehist s)) (4, \<lambda>_. (EMS_TAG_EMPTY, DInt 0)) = Some (4, st) \<and>
     fe (tag (emem s) (dataIdx 2)) = fst (st 2) \<and> st 2 = (EMS_TAG_EMPTY, DInt 5)"
proof -
  obtain s where s: "el_reach 4 (\<lambda>_. (EMS_TAG_EMPTY, DInt 0)) s" "only_locking s" "\<And>p. epc s p = EIdle" "ehist s = handed_events"
    by (rule handed_state) blast
  have free: "holders 4 s 2 = {}" using s(3) by (simp add: holders_def)
  from EMS_linearizable [OF s(1,2)] obtain st where
    "cells_run (takes (ehist s)) (4, \<lambda>_. (EMS_TAG_EMPTY, DInt 0)) = Some (4, st)"
    "fe (tag (emem s) (dataIdx 2)) = fst (st 2)" using free by fastforce
  moreover from this have "st 2 = (EMS_TAG_EMPTY, DInt 5)" using s(4) by auto
  ultimately show ?thesis using s(1,4) by auto
qed

text \<open>
  C14: producers and consumers. However any number of processes that call \<open>EMSwriteEF\<close> or \<open>EMSreadFE\<close>
  on an element that was empty interleave their accesses (and whatever operations that lock are used
  on other elements), the values taken from it are, in order, the values stored in it: none is lost,
  taken twice or overtaken. At most one stored value has not been taken yet, and while nobody holds
  the element it is full and holds that value, or empty when there is none. Each operation returns
  what it took.
\<close>

theorem EMSreadFE_handoff:
  assumes "el_reach n st0 s" "only_locking s" "0 \<le> i" "i < n" "fst (st0 i) = EMS_TAG_EMPTY"
    and "\<forall>p y. ECall p y \<in> set (ehist s) \<longrightarrow> cell_of y mod n = i \<longrightarrow> hands_over y"
  shows "\<exists>rest. map norm_datum (written n i (takes (ehist s))) = taken n i (takes (ehist s)) @ rest \<and> length rest \<le> 1 \<and>
    (holders n s i = {} \<longrightarrow>
       (if rest = [] then fe (tag (emem s) (dataIdx i)) = EMS_TAG_EMPTY
        else fe (tag (emem s) (dataIdx i)) = EMS_TAG_FULL \<and>
          (\<exists>d. slot_datum (emem s) (dataIdx i) = Some d \<and> rest = [norm_datum d]))) \<and>
    (\<forall>p. phases p Idle (ehist s) = Some (pc_phase (epc s p)))"
proof -
  from el_reach_told [OF assms(1,2)] obtain st where st: "el_told n st0 st s" by blast
  then have run: "cells_run (takes (ehist s)) (n, st0) = Some (n, st)" and inv: "el_inv n st s"
    and ph: "\<forall>p. phases p Idle (ehist s) = Some (pc_phase (epc s p))" by (simp_all add: el_told_def)
  have "\<forall>(y, out) \<in> set (takes (ehist s)). cell_of y mod n = i \<longrightarrow> hands_over y"
    using takes_set [of _ _ "ehist s"] el_reach_called [OF assms(1)] assms(6) by blast
  from cells_run_handoff [OF run this] have
    w: "map norm_datum (written n i (takes (ehist s))) = taken n i (takes (ehist s)) @ in_hand (st i)"
    using assms(5) by (simp add: in_hand_def)
  have c: "cell_inv n s i (st i)" using inv assms(3,4) by (simp add: el_inv_def)
  have "if in_hand (st i) = [] then fe (tag (emem s) (dataIdx i)) = EMS_TAG_EMPTY
      else fe (tag (emem s) (dataIdx i)) = EMS_TAG_FULL \<and>
        (\<exists>d. slot_datum (emem s) (dataIdx i) = Some d \<and> in_hand (st i) = [norm_datum d])"
    if "holders n s i = {}"
    using c that by (auto simp: cell_inv_def in_cell_def in_hand_def settled_def slot_datum_def number_at_datum [where m = "emem s"])
  moreover have "length (in_hand (st i)) \<le> 1" by (simp add: in_hand_def)
  ultimately show ?thesis using w ph by blast
qed

theorem EMSreadFE_handoff_witness:
  "\<exists>s. el_reach 4 (\<lambda>_. (EMS_TAG_EMPTY, DInt 0)) s \<and> written 4 2 (takes (ehist s)) = [DInt 5] \<and>
     taken 4 2 (takes (ehist s)) = [DInt 5] \<and> fe (tag (emem s) (dataIdx 2)) = EMS_TAG_EMPTY"
proof -
  obtain s where s: "el_reach 4 (\<lambda>_. (EMS_TAG_EMPTY, DInt 0)) s" "only_locking s" "\<And>p. epc s p = EIdle" "ehist s = handed_events"
    by (rule handed_state) blast
  have free: "holders 4 s 2 = {}" using s(3) by (simp add: holders_def)
  have "\<forall>p y. ECall p y \<in> set (ehist s) \<longrightarrow> cell_of y mod 4 = 2 \<longrightarrow> hands_over y" using s(4) by auto
  from EMSreadFE_handoff [OF s(1,2) _ _ _ this] free s(1,4) show ?thesis by auto
qed

text \<open>
  C40: a plain \<open>EMSwrite\<close> does not keep to the lock, and can lock an element for ever. It stores the
  tag that it loaded before. Let one process read a full element with \<open>EMSreadFF\<close> and another write
  it with \<open>EMSwrite\<close>: the two can interleave so that both return and the element is left busy with
  nobody holding it; and then, whatever operations that lock are called afterwards by any number of
  processes, it stays busy and none of them ever takes effect on it.
\<close>

theorem EMSwrite_strands_element:
  assumes "el_start n st s0" "0 \<le> i" "i < n" "fst (st i) = EMS_TAG_FULL" "p \<noteq> q"
    and "key_for k h" "i = h mod n" "value_ok v d" "\<not> is_text (vtype v)"
  shows "\<exists>s. el_reach n st s \<and> (\<forall>r. epc s r = EIdle) \<and>
    ehist s = [ECall p (CRead h EMS_TAG_FULL EMS_TAG_FULL), ECall q (CWrite h d EMS_TAG_ANY EMS_TAG_ANY),
      ETake p (CRead h EMS_TAG_FULL EMS_TAG_FULL) (Some (norm_datum (snd (st i)))),
      ERet p (Some (norm_datum (snd (st i)))),
      ETake q (CWrite h d EMS_TAG_ANY EMS_TAG_ANY) None, ERet q None] \<and>
    (\<forall>es s'. later n s es s' \<longrightarrow> fe (tag (emem s') (dataIdx i)) = EMS_TAG_BUSY \<and>
       (\<forall>r y out. ETake r y out \<in> set es \<longrightarrow> cell_of y mod n \<noteq> i))"
proof -
  from stranded_run [OF assms] obtain m h' where m: "el_at n st m (\<lambda>_. EIdle) h'" "fe (tag m (dataIdx i)) = EMS_TAG_BUSY"
    "h' = [ECall p (CRead h EMS_TAG_FULL EMS_TAG_FULL), ECall q (CWrite h d EMS_TAG_ANY EMS_TAG_ANY),
      ETake p (CRead h EMS_TAG_FULL EMS_TAG_FULL) (Some (norm_datum (snd (st i)))),
      ERet p (Some (norm_datum (snd (st i)))),
      ETake q (CWrite h d EMS_TAG_ANY EMS_TAG_ANY) None, ERet q None]" by blast
  let ?s = "\<lparr>emem = m, epc = \<lambda>_. EIdle, ehist = h'\<rparr>"
  have "locked_out n i ?s" using assms(2,3) m(2) by (simp add: locked_out_def)
  from locked_out_later [OF _ this] have "fe (tag (emem s') (dataIdx i)) = EMS_TAG_BUSY \<and>
      (\<forall>r y out. ETake r y out \<in> set es \<longrightarrow> cell_of y mod n \<noteq> i)" if "later n ?s es s'" for es s'
    using that by (simp add: locked_out_def)
  then show ?thesis using m(1,3) unfolding el_at_def by (intro exI [of _ ?s]) simp
qed

text \<open>An array of four elements, the third one full with 0; 7 is written.\<close>

theorem EMSwrite_strands_element_witness:
  "\<exists>s. el_reach 4 ((\<lambda>_. (EMS_TAG_EMPTY, DInt 0))(2 := (EMS_TAG_FULL, DInt 0))) s \<and> (\<forall>r. epc s r = EIdle) \<and>
     ERet 0 (Some (DInt 0)) \<in> set (ehist s) \<and> ERet 1 None \<in> set (ehist s) \<and>
     fe (tag (emem s) (dataIdx 2)) = EMS_TAG_BUSY"
proof -
  let ?st = "(\<lambda>_ :: int. (EMS_TAG_EMPTY, DInt 0))(2 := (EMS_TAG_FULL, DInt 0))"
  have k: "key_for (int_value 6) 6" "value_ok (int_value 7) (DInt 7)" "\<not> is_text (vtype (int_value 7))"
    by (simp_all add: key_for_def int_key int_value_ok is_text_def) (simp add: int_value_def)
  have pre: "(0 :: int) \<le> 2" "(2 :: int) < 4" "fst (?st 2) = EMS_TAG_FULL" "(0 :: nat) \<noteq> 1" "(2 :: int) = 6 mod 4" by simp_all
  obtain s where s: "el_reach 4 ?st s" "\<forall>r. epc s r = EIdle" and
    h: "ehist s = [ECall 0 (CRead 6 EMS_TAG_FULL EMS_TAG_FULL), ECall 1 (CWrite 6 (DInt 7) EMS_TAG_ANY EMS_TAG_ANY),
      ETake 0 (CRead 6 EMS_TAG_FULL EMS_TAG_FULL) (Some (norm_datum (snd (?st 2)))),
      ERet 0 (Some (norm_datum (snd (?st 2)))),
      ETake 1 (CWrite 6 (DInt 7) EMS_TAG_ANY EMS_TAG_ANY) None, ERet 1 None]"
    and l: "\<forall>es s'. later 4 s es s' \<longrightarrow> fe (tag (emem s') (dataIdx 2)) = EMS_TAG_BUSY \<and>
       (\<forall>r y out. ETake r y out \<in> set es \<longrightarrow> cell_of y mod 4 \<noteq> 2)"
    using EMSwrite_strands_element [OF stranded_start pre(1-4) k(1) pre(5) k(2,3)] by blast
  have "fe (tag (emem s) (dataIdx 2)) = EMS_TAG_BUSY" using l later_now [of 4 s] by blast
  then show ?thesis using s h by (intro exI [of _ s]) simp
qed

end
