(* ===== verification/EmsHash.thy ===== *)
theory EmsHash
  imports EmsMap
begin

text \<open>
  The hash of string keys (\<open>EMShashString\<close> in \<open>src/ems.cc\<close>) as a polynomial in the bytes of the
  key, with coefficients that the shifts and subtractions of the code stand for.
\<close>

section \<open>The loop as a polynomial\<close>

text \<open>A byte of the key as the code's signed \<open>char\<close>.\<close>

definition schar :: "char \<Rightarrow> int" where
  "schar c = sint (of_char c :: 8 word)"

text \<open>The reference: the value at 65599 of the polynomial with the bytes as coefficients.\<close>

fun key_polynomial :: "string \<Rightarrow> int" where
  "key_polynomial [] = 0"
| "key_polynomial (c # cs) = schar c * 65599 ^ length cs + key_polynomial cs"

lemma key_polynomial_sum:
  "key_polynomial s = (\<Sum>i < length s. schar (s ! i) * 65599 ^ (length s - 1 - i))"
proof (induction s)
  case (Cons c cs)
  show ?case unfolding key_polynomial.simps Cons.IH
    by (simp add: lessThan_Suc_eq_insert_0 sum.insert sum.reindex)
qed simp

lemma hash_step: "push_bit 6 h + push_bit 16 h - h = h * (65599 :: 64 word)"
  by (simp add: push_bit_eq_mult algebra_simps)

lemma hash_loop_polynomial:
  "hash_loop h s = h * 65599 ^ length s + word_of_int (key_polynomial s)"
proof (induction s arbitrary: h)
  case (Cons c cs)
  have "char_u64 c + push_bit 6 h + push_bit 16 h - h = char_u64 c + h * 65599"
    using hash_step [of h] by (simp add: algebra_simps)
  moreover have "(word_of_int (schar c * 65599 ^ length cs) :: 64 word) = char_u64 c * 65599 ^ length cs"
    by (simp add: schar_def char_u64_def)
  ultimately show ?case unfolding hash_loop.simps Cons.IH
    by (simp add: algebra_simps)
qed simp

text \<open>
  C19: for a key whose bytes before the NUL are \<open>c_0 ... c_(n-1)\<close>, \<open>EMShashString\<close> is the absolute
  value of \<open>1191613 * (c_0 * 65599^(n-1) + ... + c_(n-1))\<close> reduced to 64 bits. So it is not
  negative, with the one exception of the sum that reduces to \<open>- 2^63\<close>, which has no absolute value
  in 64 bits.
\<close>

theorem EMShashString_polynomial:
  "EMShashString key = llabs (wrap64 (1191613 *
     (\<Sum>i < length (c_str key). schar (c_str key ! i) * 65599 ^ (length (c_str key) - 1 - i)))) \<and>
   (0 \<le> EMShashString key \<or> EMShashString key = - (2 ^ 63))"
proof -
  let ?p = "key_polynomial (c_str key)"
  have "hash_loop 0 (c_str key) * 1191613 = (word_of_int (1191613 * ?p) :: 64 word)"
    by (simp add: hash_loop_polynomial mult.commute)
  then have "EMShashString key = llabs (sint (word_of_int (1191613 * ?p) :: 64 word))"
    by (simp only: EMShashString_def)
  moreover have "sint (word_of_int x :: 64 word) = wrap64 x" for x
    by (simp add: sint_uint signed_take_bit_eq_take_bit_shift take_bit_eq_mod wrap64_def uint_word_of_int mod_simps)
  ultimately have eq: "EMShashString key = llabs (wrap64 (1191613 * ?p))" by metis
  have "0 \<le> llabs (wrap64 x) \<or> llabs (wrap64 x) = - (2 ^ 63)" for x
  proof (cases "wrap64 x = - (2 ^ 63)")
    case False
    then have "\<bar>wrap64 x\<bar> < 2 ^ 63" using wrap64_range [of x] by auto
    then have "llabs (wrap64 x) = \<bar>wrap64 x\<bar>" unfolding llabs_def by (intro wrap64_id) auto
    then show ?thesis by simp
  qed (simp add: llabs_def wrap64_def)
  then show ?thesis using eq unfolding key_polynomial_sum by metis
qed

end
