(* ===== verification/EmsRwLock.thy ===== *)
theory EmsRwLock
  imports EmsAccessFacts
begin

text \<open>
  The readers' lock of one element among many processes: \<open>EMSreadRW\<close>, \<open>EMSreleaseRW\<close> and the
  operations that lock the element alone, as interleaved loads, compare and swaps and stores of its
  tag (\<open>src/ems.cc\<close>).
\<close>

section \<open>The processes\<close>

text \<open>
  Where a process is: outside; with a tag loaded for the compare and swap that waits for a state;
  under the lock with the tag it stored; reading under the readers' lock; with a tag loaded for the
  compare and swap of \<open>EMSreleaseRW\<close>; stopped by one of the two errors of that function.
\<close>

datatype rw_pc =
    ROut
  | RTry fe_arg EMStag_t
  | RLocked fe_arg EMStag_t
  | RReading
  | RRelease EMStag_t
  | RError

record rw_state =
  rtag :: EMStag_t
  rpc :: "nat \<Rightarrow> rw_pc"

definition goes :: "nat \<Rightarrow> rw_pc \<Rightarrow> rw_state \<Rightarrow> rw_state" where
  "goes p x s = s\<lparr>rpc := (rpc s)(p := x)\<rparr>"

text \<open>
  Readers wait with \<open>EMS_TAG_RW_LOCK\<close>, everybody else with full or empty; those leave the element
  full or empty, with a count that is unchanged or 0. The test of a reader depends on an
  uninitialised variable, so \<open>newTag\<close> is any tag; \<open>EMStransitionFEtag\<close> has no test.
\<close>

definition waits_for :: "fe_arg \<Rightarrow> bool" where
  "waits_for f \<longleftrightarrow> f \<in> {FE EMS_TAG_RW_LOCK, FE EMS_TAG_FULL, FE EMS_TAG_EMPTY}"

inductive rw_step :: "rw_state \<Rightarrow> rw_state \<Rightarrow> bool" where
  rw_load: "rpc s p = ROut \<Longrightarrow> waits_for f \<Longrightarrow> f = FE EMS_TAG_RW_LOCK \<longrightarrow> read_may_try f (rtag s) newTag \<Longrightarrow>
     rw_step s (goes p (RTry f (rtag s)) s)"
| rw_cas: "rpc s p = RTry f t \<Longrightarrow>
     rw_step s (if rtag s = read_swap_tag f t
       then goes p (RLocked f (read_locked_tag f t)) (s\<lparr>rtag := read_locked_tag f t\<rparr>) else goes p ROut s)"
| rw_join: "rpc s p = RLocked (FE EMS_TAG_RW_LOCK) t \<Longrightarrow>
     rw_step s (goes p RReading (s\<lparr>rtag := t\<lparr>fe := EMS_TAG_RW_LOCK\<rparr>\<rparr>))"
| rw_unlock: "rpc s p = RLocked f t \<Longrightarrow> f \<noteq> FE EMS_TAG_RW_LOCK \<Longrightarrow> g = EMS_TAG_FULL \<or> g = EMS_TAG_EMPTY \<Longrightarrow>
     r = 0 \<or> r = rw t \<Longrightarrow> rw_step s (goes p ROut (s\<lparr>rtag := \<lparr>fe = g, ty = y, rw = r\<rparr>\<rparr>))"
| rw_rel_load: "rpc s p = RReading \<Longrightarrow> t = rtag s \<Longrightarrow>
     rw_step s (if fe t = EMS_TAG_RW_LOCK then goes p (if rw t = 0 then RError else RRelease t) s
       else if fe t \<noteq> EMS_TAG_BUSY then goes p RError s else s)"
| rw_rel_cas: "rpc s p = RRelease t \<Longrightarrow>
     rw_step s (if rtag s = t then goes p ROut (s\<lparr>rtag := release_tag t\<rparr>) else goes p RReading s)"

text \<open>The element starts full or empty with nobody reading.\<close>

definition open_tag :: "EMStag_t \<Rightarrow> bool" where
  "open_tag t \<longleftrightarrow> (fe t = EMS_TAG_FULL \<or> fe t = EMS_TAG_EMPTY) \<and> rw t = 0"

inductive rw_reach :: "rw_state \<Rightarrow> bool" where
  rw_start: "open_tag (rtag s) \<Longrightarrow> (\<And>p. rpc s p = ROut) \<Longrightarrow> rw_reach s"
| rw_more: "rw_reach s \<Longrightarrow> rw_step s s' \<Longrightarrow> rw_reach s'"

section \<open>The invariant\<close>

fun reads :: "rw_pc \<Rightarrow> bool" where
  "reads RReading \<longleftrightarrow> True"
| "reads (RRelease t) \<longleftrightarrow> True"
| "reads _ \<longleftrightarrow> False"

fun locks :: "rw_pc \<Rightarrow> bool" where
  "locks (RLocked f t) \<longleftrightarrow> True"
| "locks _ \<longleftrightarrow> False"

fun pc_ok :: "rw_pc \<Rightarrow> bool" where
  "pc_ok (RTry f t) \<longleftrightarrow> waits_for f \<and> (f = FE EMS_TAG_RW_LOCK \<longrightarrow>
     (fe t = EMS_TAG_FULL \<or> fe t = EMS_TAG_RW_LOCK) \<and> rw t < EMS_RW_NREADERS_MAX)"
| "pc_ok (RRelease t) \<longleftrightarrow> fe t = EMS_TAG_RW_LOCK \<and> rw t \<noteq> 0"
| "pc_ok RError \<longleftrightarrow> False"
| "pc_ok _ \<longleftrightarrow> True"

definition readers :: "rw_state \<Rightarrow> nat set" where
  "readers s = {p. reads (rpc s p)}"

definition lockers :: "rw_state \<Rightarrow> nat set" where
  "lockers s = {p. locks (rpc s p)}"

text \<open>Nobody has the lock, the readers have it, or one process works on the element.\<close>

definition rw_inv :: "rw_state \<Rightarrow> bool" where
  "rw_inv s \<longleftrightarrow> (\<forall>p. pc_ok (rpc s p)) \<and> finite (readers s) \<and>
     (lockers s = {} \<and> readers s = {} \<and> open_tag (rtag s) \<or>
      lockers s = {} \<and> readers s \<noteq> {} \<and> fe (rtag s) = EMS_TAG_RW_LOCK \<and> unat (rw (rtag s)) = card (readers s) \<or>
      (\<exists>p. lockers s = {p} \<and> rpc s p = RLocked (FE EMS_TAG_RW_LOCK) (rtag s) \<and> fe (rtag s) = EMS_TAG_BUSY \<and>
         unat (rw (rtag s)) = Suc (card (readers s))) \<or>
      (\<exists>p f. lockers s = {p} \<and> rpc s p = RLocked f (rtag s) \<and> f \<noteq> FE EMS_TAG_RW_LOCK \<and> fe (rtag s) = EMS_TAG_BUSY \<and>
         rw (rtag s) = 0 \<and> readers s = {}))"

lemma goes_sel [simp]:
  "rpc (goes p x s) = (rpc s)(p := x)" "rtag (goes p x s) = rtag s"
  by (simp_all add: goes_def)

lemma goes_sets [simp]:
  "readers (goes p x s) = (if reads x then insert p (readers s) else readers s - {p})"
  "lockers (goes p x s) = (if locks x then insert p (lockers s) else lockers s - {p})"
  "readers (s\<lparr>rtag := t\<rparr>) = readers s" "lockers (s\<lparr>rtag := t\<rparr>) = lockers s"
  by (auto simp: readers_def lockers_def)

lemma in_sets: "p \<in> readers s \<longleftrightarrow> reads (rpc s p)" "p \<in> lockers s \<longleftrightarrow> locks (rpc s p)"
  by (simp_all add: readers_def lockers_def)

lemma unat_rw_inc:
  assumes "(r :: 3 word) < EMS_RW_NREADERS_MAX"
  shows "unat (r + 1) = Suc (unat r)"
proof -
  have "int (unat (r + 1)) = int (Suc (unat r))" using rw_inc(1) [OF assms] by (simp only: of_nat_unat of_nat_Suc)
  then show ?thesis by (simp only: of_nat_eq_iff)
qed

lemma unat_rw_dec:
  assumes "(r :: 3 word) \<noteq> 0"
  shows "unat r = Suc (unat (r - 1))"
proof -
  have "int (unat r) = int (Suc (unat (r - 1)))" using rw_dec [OF assms] by (simp only: of_nat_unat of_nat_Suc)
  then show ?thesis by (simp only: of_nat_eq_iff)
qed

text \<open>A move within the same group of places changes nothing that the invariant looks at.\<close>

lemma rw_inv_moves:
  assumes "rw_inv s" "\<not> locks (rpc s p)" "\<not> locks x" "reads x = reads (rpc s p)" "pc_ok x"
  shows "rw_inv (goes p x s)"
proof -
  have "readers (goes p x s) = readers s" "lockers (goes p x s) = lockers s"
    using assms(2-4) in_sets [of p s] by auto
  moreover have "rpc (goes p x s) q = rpc s q" if "q \<in> lockers s" for q
    using that assms(2) in_sets(2) by auto
  moreover have "\<forall>q. pc_ok (rpc (goes p x s) q)" using assms(1,5) by (simp add: rw_inv_def)
  ultimately show ?thesis using assms(1) unfolding rw_inv_def goes_sel(2) by (metis singletonI)
qed

lemma rw_inv_unlocked:
  assumes "rw_inv s" "fe (rtag s) \<noteq> EMS_TAG_BUSY"
  shows "lockers s = {}" "open_tag (rtag s) \<and> readers s = {} \<or>
    readers s \<noteq> {} \<and> fe (rtag s) = EMS_TAG_RW_LOCK \<and> unat (rw (rtag s)) = card (readers s)"
  using assms by (auto simp: rw_inv_def)

lemma rw_step_cas:
  assumes inv: "rw_inv s" and p: "rpc s p = RTry f t" and t: "rtag s = read_swap_tag f t"
  shows "rw_inv (goes p (RLocked f (read_locked_tag f t)) (s\<lparr>rtag := read_locked_tag f t\<rparr>))"
proof -
  have ok: "pc_ok (RTry f t)" using inv p by (metis rw_inv_def)
  have nb: "fe (rtag s) \<noteq> EMS_TAG_BUSY" using ok t by (auto simp: waits_for_def)
  note u = rw_inv_unlocked [OF inv nb]
  have "p \<notin> readers s" using p in_sets by simp
  moreover have pcs: "\<forall>q. pc_ok (rpc s q)" "finite (readers s)" using inv by (simp_all add: rw_inv_def)
  moreover have "unat (rw t + 1) = Suc (card (readers s)) \<and> rw t < EMS_RW_NREADERS_MAX" if "f = FE EMS_TAG_RW_LOCK"
    using that ok t u(2) unat_rw_inc [of "rw t"] by (auto simp: open_tag_def)
  moreover have "readers s = {} \<and> rw t = 0" if "f \<noteq> FE EMS_TAG_RW_LOCK"
    using that ok t u(2) by (auto simp: open_tag_def waits_for_def)
  ultimately show ?thesis using u(1) by (cases "f = FE EMS_TAG_RW_LOCK") (auto simp: rw_inv_def)
qed

lemma rw_inv_locked:
  assumes "rw_inv s" "rpc s p = RLocked f t"
  shows "lockers s = {p}" "rtag s = t" "fe t = EMS_TAG_BUSY" "p \<notin> readers s"
    "if f = FE EMS_TAG_RW_LOCK then unat (rw t) = Suc (card (readers s)) else readers s = {} \<and> rw t = 0"
proof -
  have "p \<in> lockers s" "p \<notin> readers s" using assms(2) in_sets by simp_all
  then show "lockers s = {p}" "rtag s = t" "fe t = EMS_TAG_BUSY" "p \<notin> readers s"
    "if f = FE EMS_TAG_RW_LOCK then unat (rw t) = Suc (card (readers s)) else readers s = {} \<and> rw t = 0"
    using assms by (auto simp: rw_inv_def)
qed

lemma rw_inv_reading:
  assumes "rw_inv s" "reads (rpc s p)"
  shows "fe (rtag s) = EMS_TAG_BUSY \<or> fe (rtag s) = EMS_TAG_RW_LOCK \<and> rw (rtag s) \<noteq> 0 \<and>
    unat (rw (rtag s)) = card (readers s) \<and> lockers s = {}"
proof -
  have "p \<in> readers s" using assms(2) in_sets by simp
  then show ?thesis using assms(1) by (auto simp: rw_inv_def card_gt_0_iff)
qed

lemma rw_inv_step:
  assumes "rw_step s s'" "rw_inv s"
  shows "rw_inv s'"
  using assms
proof (induction rule: rw_step.induct)
  case (rw_load s p f newTag)
  then show ?case by (intro rw_inv_moves) (auto simp: read_may_try_def)
next
  case (rw_cas s p f t)
  then show ?case using rw_step_cas [of s p f t] rw_inv_moves [of s p ROut] by simp
next
  case (rw_join s p t)
  note l = rw_inv_locked [OF rw_join(2,1)]
  have "\<forall>q. pc_ok (rpc s q)" "finite (readers s)" using rw_join(2) by (simp_all add: rw_inv_def)
  then show ?case using l by (simp add: rw_inv_def)
next
  case (rw_unlock s p f t g r y)
  note l = rw_inv_locked [OF rw_unlock(5,1)]
  have "\<forall>q. pc_ok (rpc s q)" using rw_unlock(5) by (simp add: rw_inv_def)
  then show ?case using l rw_unlock(2-4) by (auto simp: rw_inv_def open_tag_def)
next
  case (rw_rel_load s p t)
  have "reads (rpc s p)" using rw_rel_load(1) by simp
  note r = rw_inv_reading [OF rw_rel_load(3) this]
  show ?case
  proof (cases "fe t = EMS_TAG_BUSY")
    case True
    then show ?thesis using rw_rel_load(3) by simp
  next
    case False
    then have "fe t = EMS_TAG_RW_LOCK" "rw t \<noteq> 0" using r rw_rel_load(2) by auto
    then show ?thesis using rw_rel_load(1,3) by (simp add: rw_inv_moves)
  qed
next
  case (rw_rel_cas s p t)
  have ok: "pc_ok (RRelease t)" using rw_rel_cas by (metis rw_inv_def)
  have rd: "reads (rpc s p)" "p \<in> readers s" using rw_rel_cas(1) in_sets by simp_all
  have all: "\<forall>q. pc_ok (rpc s q)" "finite (readers s)" using rw_rel_cas(2) by (simp_all add: rw_inv_def)
  show ?case
  proof (cases "rtag s = t")
    case True
    with rw_inv_reading [OF rw_rel_cas(2) rd(1)] ok
    have c: "unat (rw t) = card (readers s)" "lockers s = {}" by auto
    have d: "card (readers s - {p}) = unat (rw t - 1)" using c(1) ok unat_rw_dec [of "rw t"] rd(2) all(2) by simp
    have "rw t - 1 = 0 \<longleftrightarrow> card (readers s - {p}) = 0" unfolding d by (simp add: unsigned_eq_0_iff)
    then have "rw t - 1 = 0 \<longleftrightarrow> readers s - {p} = {}" using all(2) by (simp only: card_0_eq finite_Diff)
    then show ?thesis using True c(2) d all ok by (auto simp: rw_inv_def open_tag_def Let_def)
  next
    case False
    then show ?thesis using rw_rel_cas by (simp add: rw_inv_moves)
  qed
qed

lemma rw_reach_inv: "rw_reach s \<Longrightarrow> rw_inv s"
proof (induction rule: rw_reach.induct)
  case (rw_start s)
  then show ?case by (simp add: rw_inv_def readers_def lockers_def)
qed (use rw_inv_step in blast)

text \<open>A reader that nobody disturbs gets in, from full or beside other readers.\<close>

lemma rw_reach_join:
  assumes "rw_reach s" "rpc s p = ROut" "rw (rtag s) < EMS_RW_NREADERS_MAX"
    and "fe (rtag s) = EMS_TAG_FULL \<or> fe (rtag s) = EMS_TAG_RW_LOCK"
  shows "rw_reach (goes p RReading (s\<lparr>rtag := (rtag s)\<lparr>rw := rw (rtag s) + 1, fe := EMS_TAG_RW_LOCK\<rparr>\<rparr>))"
proof -
  let ?f = "FE EMS_TAG_RW_LOCK" let ?l = "read_locked_tag ?f (rtag s)"
  have may: "read_may_try ?f (rtag s) (rtag s)" using assms(3,4) by (auto simp: read_may_try_def)
  let ?s1 = "goes p (RTry ?f (rtag s)) s"
  have "rw_reach ?s1" using rw_more [OF assms(1) rw_load [OF assms(2), of ?f]] may by (simp add: waits_for_def)
  from rw_more [OF this rw_cas [of ?s1 p ?f "rtag s"]]
  have "rw_reach (goes p (RLocked ?f ?l) (?s1\<lparr>rtag := ?l\<rparr>))" by simp
  from rw_more [OF this rw_join [of _ p ?l]] show ?thesis by (simp add: goes_def)
qed

section \<open>Property\<close>

text \<open>
  C12: the readers' lock, however its processes interleave (readers with \<open>EMSreadRW\<close> and
  \<open>EMSreleaseRW\<close>, and operations that wait for full or empty): a process that has locked the
  element is the only one and the tag is the one it stored, and if it is no reader then nobody
  reads; while readers hold the element its tag is locked or busy, and unless it is busy it counts
  them; there are never more than seven; and a release never meets one of its errors.
\<close>

theorem EMSreadRW_excludes_writers:
  assumes "rw_reach s"
  shows "(\<forall>p f t. rpc s p = RLocked f t \<longrightarrow> lockers s = {p} \<and> rtag s = t \<and>
       (f \<noteq> FE EMS_TAG_RW_LOCK \<longrightarrow> readers s = {})) \<and>
    (readers s \<noteq> {} \<longrightarrow> fe (rtag s) = EMS_TAG_BUSY \<or>
       fe (rtag s) = EMS_TAG_RW_LOCK \<and> unat (rw (rtag s)) = card (readers s)) \<and>
    card (readers s) \<le> 7 \<and> (\<forall>p. rpc s p \<noteq> RError)"
proof -
  note inv = rw_reach_inv [OF assms]
  have "lockers s = {p} \<and> rtag s = t \<and> (f \<noteq> FE EMS_TAG_RW_LOCK \<longrightarrow> readers s = {})" if "rpc s p = RLocked f t" for p f t
    using rw_inv_locked [OF inv that] by auto
  moreover have "fe (rtag s) = EMS_TAG_BUSY \<or> fe (rtag s) = EMS_TAG_RW_LOCK \<and> unat (rw (rtag s)) = card (readers s)"
    if "p \<in> readers s" for p
    using rw_inv_reading [OF inv, of p] that in_sets by auto
  moreover have "card (readers s) \<le> 7"
    using inv unat_rw_less [of "rw (rtag s)"] by (auto simp: rw_inv_def)
  moreover have "rpc s p \<noteq> RError" for p using inv by (metis rw_inv_def pc_ok.simps(3))
  ultimately show ?thesis by blast
qed

text \<open>Two readers at a full element: both read, and the tag counts two.\<close>

theorem EMSreadRW_excludes_writers_witness:
  "\<exists>s. rw_reach s \<and> rpc s 0 = RReading \<and> rpc s 1 = RReading \<and> readers s = {0, 1} \<and>
     unat (rw (rtag s)) = card (readers s) \<and> rpc s 2 \<noteq> RError"
proof -
  let ?s0 = "\<lparr>rtag = \<lparr>fe = EMS_TAG_FULL, ty = EMS_TYPE_INTEGER, rw = 0\<rparr>, rpc = \<lambda>_. ROut\<rparr>"
  have "rw_reach ?s0" by (rule rw_start) (simp_all add: open_tag_def)
  from rw_reach_join [OF this, of 0]
  have "rw_reach (goes 0 RReading (?s0\<lparr>rtag := \<lparr>fe = EMS_TAG_RW_LOCK, ty = EMS_TYPE_INTEGER, rw = 1\<rparr>\<rparr>))" (is "rw_reach ?s1")
    by (simp add: EMS_RW_NREADERS_MAX_def)
  from rw_reach_join [OF this, of 1]
  have s2: "rw_reach (goes 1 RReading (?s1\<lparr>rtag := \<lparr>fe = EMS_TAG_RW_LOCK, ty = EMS_TYPE_INTEGER, rw = 2\<rparr>\<rparr>))" (is "rw_reach ?s2")
    by (simp add: EMS_RW_NREADERS_MAX_def)
  have "readers ?s2 = {0, 1}" by (auto simp: readers_def split: if_splits)
  moreover have "fe (rtag ?s2) \<noteq> EMS_TAG_BUSY" by simp
  ultimately show ?thesis using EMSreadRW_excludes_writers [OF s2] s2 by (intro exI [of _ ?s2]) simp
qed

end
