(* ===== verification/EmsHeapLock.thy ===== *)
theory EmsHeapLock
  imports EmsState
begin

text \<open>
  The allocator's mutex among many processes: \<open>emsMutexMem_alloc\<close> and \<open>emsMutexMem_free\<close>
  (\<open>src/ems.cc\<close>) as interleaved steps, in which the allocator's tree is read when the work under the
  mutex begins and stored when it ends.
\<close>

section \<open>The processes\<close>

text \<open>
  A process is outside, has the mutex and a request, has worked out a new state of the allocator
  with the block it takes or gives back, or has stored it and is about to release the mutex.
\<close>

datatype heap_request = HAlloc nat | HFree block

datatype heap_pc =
    HOut
  | HAcquired heap_request
  | HWorked emsMem "block set \<Rightarrow> block set"
  | HStored

text \<open>\<open>mutex\<close> is the value of the mutex byte; \<open>owns p\<close> are the blocks that \<open>p\<close> has been given.\<close>

record heap_state =
  mutex :: fe_state
  allocator :: emsMem
  hpc :: "nat \<Rightarrow> heap_pc"
  owns :: "nat \<Rightarrow> block set"

definition hgoes :: "nat \<Rightarrow> heap_pc \<Rightarrow> heap_state \<Rightarrow> heap_state" where
  "hgoes p x s = s\<lparr>hpc := (hpc s)(p := x)\<rparr>"

text \<open>A request of at least one byte that does not wrap, or the release of a block of one's own.\<close>

fun request_fits :: "block set \<Rightarrow> heap_request \<Rightarrow> bool" where
  "request_fits B (HAlloc n) \<longleftrightarrow> 0 < n \<and> n + 31 < 2 ^ 64"
| "request_fits B (HFree b) \<longleftrightarrow> b \<in> B"

inductive heap_step :: "heap_state \<Rightarrow> heap_state \<Rightarrow> bool" where
  hs_acquire: "hpc s p = HOut \<Longrightarrow> request_fits (owns s p) x \<Longrightarrow>
     heap_step s (if mutex s = EMS_TAG_EMPTY then hgoes p (HAcquired x) (s\<lparr>mutex := EMS_TAG_FULL\<rparr>) else s)"
| hs_alloc: "hpc s p = HAcquired (HAlloc n) \<Longrightarrow> emsMem_alloc (allocator s) n = Some (addr, m) \<Longrightarrow>
     addr = 32 * int a \<Longrightarrow> (a, k) \<in> in_use m \<Longrightarrow> heap_step s (hgoes p (HWorked m (insert (a, k))) s)"
| hs_no_room: "hpc s p = HAcquired (HAlloc n) \<Longrightarrow> emsMem_alloc (allocator s) n = Some (- 1, m) \<Longrightarrow>
     heap_step s (hgoes p (HWorked m (\<lambda>B. B)) s)"
| hs_free: "hpc s p = HAcquired (HFree b) \<Longrightarrow> emsMem_free (allocator s) (32 * fst b) = Some (Inr m) \<Longrightarrow>
     heap_step s (hgoes p (HWorked m (\<lambda>B. B - {b})) s)"
| hs_store: "hpc s p = HWorked m f \<Longrightarrow>
     heap_step s (hgoes p HStored (s\<lparr>allocator := m, owns := (owns s)(p := f (owns s p))\<rparr>))"
| hs_release: "hpc s p = HStored \<Longrightarrow> heap_step s (hgoes p HOut (s\<lparr>mutex := EMS_TAG_EMPTY\<rparr>))"

inductive heap_reach :: "heap_state \<Rightarrow> bool" where
  hr_start: "mem_inv (allocator s) \<Longrightarrow> in_use (allocator s) = {} \<Longrightarrow> mutex s = EMS_TAG_EMPTY \<Longrightarrow>
     (\<And>p. hpc s p = HOut) \<Longrightarrow> (\<And>p. owns s p = {}) \<Longrightarrow> heap_reach s"
| hr_step: "heap_reach s \<Longrightarrow> heap_step s s' \<Longrightarrow> heap_reach s'"

section \<open>The invariant\<close>

text \<open>Every block in use has one owner, and blocks of different processes do not meet.\<close>

definition owned_once :: "emsMem \<Rightarrow> (nat \<Rightarrow> block set) \<Rightarrow> bool" where
  "owned_once m B \<longleftrightarrow> mem_inv m \<and> (\<forall>b. b \<in> in_use m \<longleftrightarrow> (\<exists>p. b \<in> B p)) \<and>
     (\<forall>b p q. b \<in> B p \<longrightarrow> b \<in> B q \<longrightarrow> p = q)"

text \<open>One process at most has the mutex; what it worked out still fits the allocator.\<close>

fun heap_pc_ok :: "heap_state \<Rightarrow> nat \<Rightarrow> heap_pc \<Rightarrow> bool" where
  "heap_pc_ok s p (HAcquired x) \<longleftrightarrow> request_fits (owns s p) x"
| "heap_pc_ok s p (HWorked m f) \<longleftrightarrow> owned_once m ((owns s)(p := f (owns s p)))"
| "heap_pc_ok s p _ \<longleftrightarrow> True"

definition heap_inv :: "heap_state \<Rightarrow> bool" where
  "heap_inv s \<longleftrightarrow> owned_once (allocator s) (owns s) \<and>
     ((\<forall>p. hpc s p = HOut) \<and> mutex s = EMS_TAG_EMPTY \<or>
      (\<exists>p. hpc s p \<noteq> HOut \<and> (\<forall>q. q \<noteq> p \<longrightarrow> hpc s q = HOut) \<and> mutex s = EMS_TAG_FULL \<and> heap_pc_ok s p (hpc s p)))"

lemma hgoes_sel [simp]:
  "hpc (hgoes p x s) = (hpc s)(p := x)" "allocator (hgoes p x s) = allocator s" "owns (hgoes p x s) = owns s"
  "mutex (hgoes p x s) = mutex s"
  by (simp_all add: hgoes_def)

lemma heap_holder:
  assumes "heap_inv s" "hpc s p \<noteq> HOut"
  shows "owned_once (allocator s) (owns s)" "\<forall>q. q \<noteq> p \<longrightarrow> hpc s q = HOut" "mutex s = EMS_TAG_FULL"
    "heap_pc_ok s p (hpc s p)"
proof -
  obtain p' where p': "\<forall>q. q \<noteq> p' \<longrightarrow> hpc s q = HOut" "mutex s = EMS_TAG_FULL" "heap_pc_ok s p' (hpc s p')"
    using assms by (auto simp: heap_inv_def)
  then have "p = p'" using assms(2) by metis
  then show "owned_once (allocator s) (owns s)" "\<forall>q. q \<noteq> p \<longrightarrow> hpc s q = HOut" "mutex s = EMS_TAG_FULL"
    "heap_pc_ok s p (hpc s p)" using assms(1) p' by (simp_all add: heap_inv_def)
qed

lemma heap_inv_holds:
  assumes "owned_once (allocator s) (owns s)" "\<forall>q. q \<noteq> p \<longrightarrow> hpc s q = HOut" "mutex s = EMS_TAG_FULL"
    and "x \<noteq> HOut" "heap_pc_ok s p x"
  shows "heap_inv (hgoes p x s)"
proof -
  have "heap_pc_ok (hgoes p x s) p x" using assms(5) by (cases x) simp_all
  then show ?thesis using assms(1-4) unfolding heap_inv_def by (intro conjI disjI2 exI [of _ p]) simp_all
qed

lemma owned_once_insert:
  assumes "owned_once m B" "mem_inv m'" "in_use m' = insert b (in_use m)" "b \<notin> in_use m"
  shows "owned_once m' (B(p := insert b (B p)))"
  using assms unfolding owned_once_def fun_upd_apply by (intro conjI) (simp, (metis insert_iff)+)

lemma owned_once_remove:
  assumes "owned_once m B" "mem_inv m'" "in_use m' = in_use m - {b}" "b \<in> B p"
  shows "owned_once m' (B(p := B p - {b}))"
  using assms unfolding owned_once_def fun_upd_apply by (intro conjI) (simp, (metis Diff_iff singletonD singletonI)+)

lemma in_use_start:
  assumes "mem_inv m" "(a, k) \<in> in_use m" "(a, j) \<in> in_use m"
  shows "j = k"
proof (rule ccontr)
  assume "j \<noteq> k"
  then have "extent (a, k) \<inter> extent (a, j) = {}"
    using blocks_disjoint [of "(a, k)" "m_level m" "mem_abs m" "(a, j)"] assms by (auto simp: in_use_def)
  then show False by (auto simp: extent_Pair)
qed

lemma heap_inv_step:
  assumes "heap_step s s'" "heap_inv s"
  shows "heap_inv s'"
  using assms
proof (induction rule: heap_step.induct)
  case (hs_acquire s p x)
  show ?case
  proof (cases "mutex s = EMS_TAG_EMPTY")
    case True
    then have "\<forall>q. hpc s q = HOut" "owned_once (allocator s) (owns s)" using hs_acquire(3) by (auto simp: heap_inv_def)
    then show ?thesis using True hs_acquire(2) by (auto intro!: heap_inv_holds)
  qed (use hs_acquire in simp)
next
  case (hs_alloc s p n addr m a k)
  note h = heap_holder [OF hs_alloc(5)]
  have "0 < n" "n + 31 < 2 ^ 64" using h(4) [of p] hs_alloc(1) by simp_all
  moreover have inv: "mem_inv (allocator s)" using h(1) [of p] hs_alloc(1) by (simp add: owned_once_def)
  ultimately obtain b where b: "mem_inv m" "in_use m = insert b (in_use (allocator s))" "b \<notin> in_use (allocator s)" "fst b = a"
    using emsMem_alloc_spec [of "allocator s" n] hs_alloc(2,3) by auto
  then have "b = (a, k)" using in_use_start [OF b(1), of a k "snd b"] hs_alloc(4) by (cases b) auto
  then show ?case using h [of p] hs_alloc(1) owned_once_insert [OF _ b(1-3), of "owns s" p]
    by (intro heap_inv_holds) auto
next
  case (hs_no_room s p n m)
  note h = heap_holder [OF hs_no_room(3)]
  have "0 < n" "n + 31 < 2 ^ 64" using h(4) [of p] hs_no_room(1) by simp_all
  moreover have "mem_inv (allocator s)" using h(1) [of p] hs_no_room(1) by (simp add: owned_once_def)
  ultimately have "m = allocator s" using emsMem_alloc_spec [of "allocator s" n] hs_no_room(2) by auto
  then show ?case using h [of p] hs_no_room(1) by (intro heap_inv_holds) auto
next
  case (hs_free s p b m)
  note h = heap_holder [OF hs_free(3)]
  have b: "b \<in> owns s p" "owned_once (allocator s) (owns s)" using h(1,4) [of p] hs_free(1) by simp_all
  then have "b \<in> in_use (allocator s)" "mem_inv (allocator s)" unfolding owned_once_def by blast+
  then have "mem_inv m" "in_use m = in_use (allocator s) - {b}"
    using emsMem_free_block [of "allocator s" "fst b" "snd b"] hs_free(2) by auto
  then show ?case using h [of p] hs_free(1) owned_once_remove [OF b(2) _ _ b(1)] by (intro heap_inv_holds) auto
next
  case (hs_store s p m f)
  note h = heap_holder [OF hs_store(2)]
  show ?case using h [of p] hs_store(1) by (intro heap_inv_holds) auto
next
  case (hs_release s p)
  note h = heap_holder [OF hs_release(2)]
  show ?case using h [of p] hs_release(1) by (auto simp: heap_inv_def)
qed

lemma heap_reach_inv: "heap_reach s \<Longrightarrow> heap_inv s"
proof (induction rule: heap_reach.induct)
  case (hr_start s)
  then show ?case by (simp add: heap_inv_def owned_once_def)
qed (use heap_inv_step in blast)

section \<open>Property\<close>

text \<open>
  C13: however the processes interleave, the blocks that \<open>emsMutexMem_alloc\<close> gives to them and
  \<open>emsMutexMem_free\<close> takes back never overlap: distinct blocks of any two processes share no
  address, no block has two owners, the blocks in use are exactly those owned, and the allocator
  stays well formed. One process at most is between acquiring the mutex and releasing it.
\<close>

theorem emsMutexMem_exclusive:
  assumes "heap_reach s"
  shows "mem_inv (allocator s) \<and> (\<Union>p. owns s p) = in_use (allocator s) \<and>
    (\<forall>p q. p \<noteq> q \<longrightarrow> (\<forall>b \<in> owns s p. \<forall>c \<in> owns s q. extent b \<inter> extent c = {})) \<and>
    (\<forall>p q. hpc s p \<noteq> HOut \<longrightarrow> hpc s q \<noteq> HOut \<longrightarrow> p = q)"
proof -
  note inv = heap_reach_inv [OF assms]
  have o: "mem_inv (allocator s)" "\<forall>b. b \<in> in_use (allocator s) \<longleftrightarrow> (\<exists>p. b \<in> owns s p)"
    "\<forall>b p q. b \<in> owns s p \<longrightarrow> b \<in> owns s q \<longrightarrow> p = q"
    using inv unfolding heap_inv_def owned_once_def by blast+
  have "extent b \<inter> extent c = {}" if "p \<noteq> q" "b \<in> owns s p" "c \<in> owns s q" for p q b c
  proof (rule blocks_disjoint)
    show "b \<in> blocks (m_level (allocator s)) (mem_abs (allocator s))" "c \<in> blocks (m_level (allocator s)) (mem_abs (allocator s))"
      using o(2) that(2,3) unfolding in_use_def by blast+
    show "b \<noteq> c" using o(3) that by blast
  qed
  moreover have "p = q" if "hpc s p \<noteq> HOut" "hpc s q \<noteq> HOut" for p q using heap_holder(2) [OF inv] that by metis
  moreover have "(\<Union>p. owns s p) = in_use (allocator s)" using o(2) by blast
  ultimately show ?thesis using o(1) by blast
qed

text \<open>A process that is given a block by a new allocator.\<close>

lemma heap_reach_alloc:
  assumes "heap_reach s" "hpc s p = HOut" "mutex s = EMS_TAG_EMPTY" "0 < n" "n + 31 < 2 ^ 64"
    and "emsMem_alloc (allocator s) n = Some (32 * int a, m)" "(a, k) \<in> in_use m"
  shows "\<exists>s'. heap_reach s' \<and> allocator s' = m \<and> owns s' = (owns s)(p := insert (a, k) (owns s p)) \<and>
    mutex s' = EMS_TAG_EMPTY \<and> hpc s' = hpc s"
proof -
  let ?s1 = "hgoes p (HAcquired (HAlloc n)) (s\<lparr>mutex := EMS_TAG_FULL\<rparr>)"
  let ?s2 = "hgoes p (HWorked m (insert (a, k))) ?s1"
  let ?s3 = "hgoes p HStored (?s2\<lparr>allocator := m, owns := (owns s)(p := insert (a, k) (owns s p))\<rparr>)"
  let ?s4 = "hgoes p HOut (?s3\<lparr>mutex := EMS_TAG_EMPTY\<rparr>)"
  have "heap_reach ?s1" using hr_step [OF assms(1) hs_acquire [OF assms(2), of "HAlloc n"]] assms(3-5) by simp
  from hr_step [OF this hs_alloc [of _ p n]] assms(6,7) have "heap_reach ?s2" by simp
  from hr_step [OF this hs_store [of _ p m "insert (a, k)"]] have "heap_reach ?s3" by simp
  from hr_step [OF this hs_release [of _ p]] have "heap_reach ?s4" by simp
  then show ?thesis using assms(2) by (intro exI [of _ ?s4]) (simp add: fun_upd_idem)
qed

text \<open>Two processes get a block each from a heap of four; the blocks do not overlap.\<close>

theorem emsMutexMem_exclusive_witness:
  "\<exists>s b c. heap_reach s \<and> owns s 0 = {b} \<and> owns s 1 = {c} \<and> extent b \<inter> extent c = {}"
proof -
  let ?m = "emsMem_new 2 (\<lambda>_. BUDDY_UNUSED)"
  let ?s = "\<lparr>mutex = EMS_TAG_EMPTY, allocator = ?m, hpc = \<lambda>_. HOut, owns = \<lambda>_. {}\<rparr>"
  have s: "heap_reach ?s" by (rule hr_start) (simp_all add: emsMem_new_facts)
  have p: "emsNextPow2 ((10 + (EMS_MEM_BLOCKSZ - 1)) mod 2 ^ 64 div EMS_MEM_BLOCKSZ) = Some (2 ^ 0)"
    by (simp add: EMS_MEM_BLOCKSZ_def) code_simp
  have "mem_abs ?m = BFree" by (simp add: mem_abs_def emsMem_new_def)
  with emsMem_alloc_balloc [OF emsMem_new_facts(1) [of 2 "\<lambda>_. BUDDY_UNUSED"] p]
  obtain m1 where m1: "emsMem_alloc ?m 10 = Some (32 * int 0, m1)" "mem_inv m1" "m_level m1 = 2"
    "mem_abs m1 = BNode (BNode BUsed BFree) BFree" by (auto simp: emsMem_new_facts numeral_2_eq_2)
  from emsMem_alloc_balloc [OF m1(2) p] m1(3,4)
  obtain m2 where m2: "emsMem_alloc m1 10 = Some (32 * int 1, m2)" "m_level m2 = 2"
    "mem_abs m2 = BNode (BNode BUsed BUsed) BFree" by (auto simp: numeral_2_eq_2)
  have b: "(0, 0) \<in> in_use m1" "(1, 0) \<in> in_use m2"
    using m1(3,4) m2(2,3) by (simp_all add: in_use_def numeral_2_eq_2 shift_def)
  from heap_reach_alloc [OF s, of 0 10 0 m1 0] m1(1) b(1) obtain s1 where
    s1: "heap_reach s1" "allocator s1 = m1" "owns s1 = (\<lambda>_. {})(0 := {(0, 0)})" "mutex s1 = EMS_TAG_EMPTY" "hpc s1 = (\<lambda>_. HOut)"
    by auto
  from heap_reach_alloc [OF s1(1), of 1 10 1 m2 0] s1(2-5) m2(1) b(2) obtain s2 where
    s2: "heap_reach s2" "owns s2 = (\<lambda>_. {})(0 := {(0, 0)}, 1 := {(1, 0)})"
    by auto
  then have "owns s2 0 = {(0, 0)}" "owns s2 1 = {(1, 0)}" by simp_all
  moreover from this have "extent (0, 0) \<inter> extent (1, 0) = {}"
    using emsMutexMem_exclusive [OF s2(1)] by (metis insertI1 zero_neq_one)
  ultimately show ?thesis using s2(1) by blast
qed

end
