(* ===== verification/BuddyDump.thy ===== *)
theory BuddyDump
  imports Allocator EmsDouble
begin

text \<open>
  The diagnostic dump of the allocator, \<open>EMS_dump\<close> and \<open>emsMem_dump\<close> of \<open>src/ems_alloc.cc\<close>, as the
  text it prints, and what that text says of the specification tree.
\<close>

section \<open>The code\<close>

text \<open>\<open>%lld\<close> and \<open>%ld\<close> of the offset and the length of a block.\<close>

definition dump_block :: "int \<Rightarrow> int \<Rightarrow> string" where
  "dump_block offset n = fmt_lld offset @ '':'' @ fmt_lld n"

text \<open>\<open>None\<close> would be a recursion that does not end.\<close>

partial_function (option) EMS_dump :: "emsMem \<Rightarrow> int \<Rightarrow> int \<Rightarrow> string option" where
  "EMS_dump self index level =
     (let block = dump_block (EMS_index_offset index level (int (m_level self))) (2 ^ nat (int (m_level self) - level)) in
      case m_tree self index of
        BUDDY_UNUSED \<Rightarrow> Some (''('' @ block @ '')'')
      | BUDDY_USED \<Rightarrow> Some (''['' @ block @ '']'')
      | BUDDY_FULL \<Rightarrow> do {
          l \<leftarrow> EMS_dump self (index * 2 + 1) (level + 1);
          r \<leftarrow> EMS_dump self (index * 2 + 2) (level + 1);
          Some (''{'' @ l @ r @ ''}'')
        }
      | BUDDY_SPLIT \<Rightarrow> do {
          l \<leftarrow> EMS_dump self (index * 2 + 1) (level + 1);
          r \<leftarrow> EMS_dump self (index * 2 + 2) (level + 1);
          Some (''('' @ l @ r @ '')'')
        })"

definition emsMem_dump :: "emsMem \<Rightarrow> string option" where
  "emsMem_dump self = map_option (\<lambda>s. s @ [CHR 0x0A]) (EMS_dump self 0 0)"

section \<open>What it shows\<close>

text \<open>
  The tree read off the array: used blocks in brackets, free ones in parentheses, with their offset
  and length in blocks; a node whose blocks are all used in braces.
\<close>

fun show_tree :: "nat \<Rightarrow> int \<Rightarrow> btree \<Rightarrow> string" where
  "show_tree h a BFree = ''('' @ dump_block a (2 ^ h) @ '')''"
| "show_tree h a BUsed = ''['' @ dump_block a (2 ^ h) @ '']''"
| "show_tree h a (BNode l r) =
     (let s = show_tree (h - 1) a l @ show_tree (h - 1) (a + 2 ^ (h - 1)) r in
      if bfull l \<and> bfull r then ''{'' @ s @ ''}'' else ''('' @ s @ '')'')"

lemma EMS_dump_leaf:
  assumes "h \<le> m_level m"
  shows "m_tree m i = BUDDY_UNUSED \<Longrightarrow>
      EMS_dump m i (int (m_level m - h)) = Some (show_tree h (node_off h (m_level m) i) BFree)"
    "m_tree m i = BUDDY_USED \<Longrightarrow>
      EMS_dump m i (int (m_level m - h)) = Some (show_tree h (node_off h (m_level m) i) BUsed)"
  using assms index_offset_node [OF assms, of i]
  by (simp_all add: EMS_dump.simps [of m i] of_nat_diff)

lemma EMS_dump_tree:
  assumes "wfT (m_tree m) h i" "h \<le> m_level m"
  shows "EMS_dump m i (int (m_level m - h)) = Some (show_tree h (node_off h (m_level m) i) (absT (m_tree m) h i))"
  using assms
proof (induction h arbitrary: i)
  case 0
  then show ?case using EMS_dump_leaf [of 0 m i] by auto
next
  case (Suc h)
  show ?case
  proof (cases "m_tree m i = BUDDY_UNUSED \<or> m_tree m i = BUDDY_USED")
    case True
    then show ?thesis using EMS_dump_leaf [OF Suc.prems(2), of i] by auto
  next
    case False
    then have w: "wfT (m_tree m) h (i * 2 + 1)" "wfT (m_tree m) h (i * 2 + 2)"
      "m_tree m i = BUDDY_SPLIT \<or> m_tree m i = BUDDY_FULL"
      "m_tree m i = BUDDY_FULL \<longleftrightarrow> occupied (m_tree m (i * 2 + 1)) \<and> occupied (m_tree m (i * 2 + 2))"
      using Suc.prems by (cases "m_tree m i"; auto)+
    have h: "h \<le> m_level m" and l: "int (m_level m - Suc h) + 1 = int (m_level m - h)" using Suc.prems(2) by simp_all
    note ih = Suc.IH [OF w(1) h] Suc.IH [OF w(2) h]
    note off = node_off_children [OF Suc.prems(2), of i]
    let ?l = "absT (m_tree m) h (i * 2 + 1)" let ?r = "absT (m_tree m) h (i * 2 + 2)"
    have full: "m_tree m i = BUDDY_FULL \<longleftrightarrow> bfull ?l \<and> bfull ?r" using w(1,2,4) by (simp add: wfT_bfull)
    from w(3) have "absT (m_tree m) (Suc h) i = BNode ?l ?r" by auto
    then show ?thesis
      unfolding EMS_dump.simps [of m i] l ih off using w(3) full
      by (cases "bfull ?l \<and> bfull ?r") (simp_all only: Let_def bind.bind_lunit show_tree.simps if_True if_False diff_Suc_1 buddy.case simp_thms append_assoc)
  qed
qed

text \<open>On a well-formed allocator the dump ends and shows exactly the tree of its blocks.\<close>

lemma emsMem_dump_tree:
  assumes "mem_inv m"
  shows "emsMem_dump m = Some (show_tree (m_level m) 0 (mem_abs m) @ [CHR 0x0A])"
  using EMS_dump_tree [of m "m_level m" 0] assms by (simp add: emsMem_dump_def mem_inv_def mem_abs_def)

end
