(* ===== verification/Spec2Isabelle.thy ===== *)
theory Spec2Isabelle
  imports EmsNodeFacts EmsFiles EmsLinear EmsHash EmsRwLock EmsHeapLock BuddyDump
begin

text \<open>
  Extended Memory Semantics (EMS): the C++ runtime under \<open>src/src\<close>.

  EMS lets processes share arrays. Every array is a memory-mapped buffer of 64-bit words; each
  word has a tag byte with a full/empty state, a type and a count of readers. Loads and stores
  wait for a state and set a new one, so the tags synchronise the processes. An array may have an
  index map, which translates keys to indexes by open addressing, and a heap for strings, run by
  a buddy allocator under a mutex. Stacks, queues, atomic read-modify-write operations, barriers,
  critical regions and parallel loops are built on these.

  Which theory models what.

    \<^item> \<open>EmsPrelude\<close>: signed remainder and wrap-around, C strings, the facts the others share.
    \<^item> \<open>EmsTags\<close>: the tag byte, its bit fields and the type codes (\<open>ems_types.h\<close>, \<open>ems.h\<close>).
    \<^item> \<open>EmsLayout\<close>: the index macros of \<open>ems.h\<close>; words and tags never overlap, and the
      regions of a buffer fit behind one another.
    \<^item> \<open>Buddy\<close>: the allocator as \<open>ems_alloc.cc\<close> has it, an array of node states walked by index
      arithmetic. \<open>BuddyTree\<close> is its specification, a tree of free and used blocks. \<open>BuddyProof\<close>,
      \<open>BuddyRefine\<close>, \<open>BuddyFree\<close> and \<open>Allocator\<close> show that allocation and release implement it;
      \<open>BuddyDump\<close>: its diagnostic dump prints that tree.
    \<^item> \<open>HeapStrings\<close>: strings in blocks of the heap, behind the interface \<open>heap_allocator\<close>, which
      is interpreted on the buddy allocator.
    \<^item> \<open>EmsMem\<close>: one buffer, the mutex around the allocator, \<open>EMStransitionFEtag\<close>. \<open>EmsState\<close>: its
      behaviour under interference. \<open>EmsHeapLock\<close>: the mutex among many processes, whose blocks
      never overlap. \<open>EmsOwned\<close>, \<open>EmsData\<close>: which words own which strings, and
      the datum a word stands for.
    \<^item> \<open>EmsContainer\<close>: what stack and queue have in common, as the interface \<open>container\<close>.
      \<open>EmsStack\<close>, \<open>EmsQueue\<close> (\<open>primitives.cc\<close>) interpret it.
    \<^item> \<open>EmsMap\<close>, \<open>EmsMapFacts\<close>: the index map (\<open>EMSkey2index\<close>, \<open>EMSwriteIndexMap\<close>,
      \<open>EMSindex2key\<close> of \<open>ems.cc\<close>). \<open>EmsHash\<close>: the hash of string keys as a polynomial.
    \<^item> \<open>EmsAccess\<close>, \<open>EmsAccessFacts\<close>, \<open>EmsArray\<close>: reads and writes under the tags, the readers'
      lock, \<open>EMSsetTag\<close> (\<open>ems.cc\<close>). \<open>EmsRwLock\<close>: the readers' lock among many processes.
    \<^item> \<open>EmsDouble\<close>: doubles as bit patterns, their addition and what \<open>printf\<close> prints for them, as
      far as \<open>rmw.cc\<close> uses them. \<open>EmsRmw\<close>: \<open>EMScas\<close> and \<open>EMSfaa\<close> (\<open>rmw.cc\<close>); \<open>EmsCasFacts\<close>,
      \<open>EmsFaaFacts\<close>: what they do to the elements.
    \<^item> \<open>EmsMemory\<close>: an array as a whole, through the interface \<open>simulation\<close>: any sequence of reads,
      writes and atomic operations behaves as on an abstract memory of full/empty cells.
    \<^item> \<open>EmsTable\<close>: hash tables with open addressing and the dictionaries they stand for, apart from
      the code. \<open>EmsDict\<close>, \<open>EmsDictOps\<close>, \<open>EmsDictFacts\<close>: a mapped array as a whole interprets
      \<open>simulation\<close> too: the same operations under keys behave as on a dictionary of such cells.
    \<^item> \<open>EmsElement\<close>: the elements of an array of numbers among many processes, every load, store and
      compare and swap of a tag or a word a step of its own. \<open>EmsLinear\<close>: there the operations that
      lock their element are linearizable, and producers hand their numbers to consumers in order; a
      plain write does not keep to the lock.
    \<^item> \<open>EmsInit\<close>, \<open>EmsInitFacts\<close>: \<open>EMSinitialize\<close>, \<open>EMSdestroy\<close>, the table of buffers (\<open>ems.cc\<close>);
      what they establish is what the other theories start from. \<open>EmsFiles\<close>: how \<open>EMSinitialize\<close>
      removes, waits for and opens the file of a buffer, on an abstract file system.
    \<^item> \<open>EmsLoops\<close> (\<open>loops.cc\<close>), \<open>EmsCollectives\<close> (\<open>collectives.cc\<close>): scheduling of parallel
      loops; single execution, critical regions, the barrier.
    \<^item> \<open>EmsNode\<close>, \<open>EmsNodeFacts\<close>: the binding to Node.js (\<open>nodejs.cc\<close>, \<open>nodejs.h\<close>): every exported
      function, with its argument checks, conversions and exceptions, and what a JavaScript program
      reads back of what it wrote. The conversions of the N-API, whose code is not part of the
      repository, are the parameter \<open>napi\<close>.

  State. A buffer is the record \<open>ems\<close>: words and tags by application index (\<open>layout_disjoint\<close>
  makes them independent of each other), the allocator's tree and the bytes of the heap. The
  shared control block of loops and collectives is \<open>ctl\<close>, the 32-bit words by index. A \<open>world\<close>
  is the buffer together with what the other processes do.

  Interference. In the functions on a \<open>world\<close> the other processes act whenever an operation naps
  (\<open>NANOSLEEP\<close>) and between the load of a tag and the compare and swap on it; \<open>env w k\<close> is what they
  do at the \<open>k\<close>th such point. They do not act between a swap that succeeds and the end of the locked
  section, so these functions do not show that the section is protected: they give the functional
  behaviour in \<open>quiet\<close> worlds, where nobody else acts, and what holds of a single transition or loop
  under any \<open>env\<close>. That the tags protect the section is shown on step relations over many processes
  in which each access to memory is one step: \<open>el_step\<close> for the elements, \<open>rw_step\<close> for the readers'
  lock, \<open>heap_step\<close> for the allocator's mutex; \<open>loop_step\<close>, \<open>critical_step\<close> and \<open>barrier_step\<close> do the
  same for loops, critical regions and the barrier. Their invariants are shown by rule induction.
  The accesses of all processes form one sequence, each load and store of a tag byte or a word being
  indivisible, which is what the code assumes of \<open>volatile\<close> data and the atomic built-ins.

  Waiting. A loop that waits gets \<open>fuel\<close>, the attempts it may make; \<open>None\<close> is an operation
  that has not returned by then, or whose behaviour C leaves undefined, or that aborted. In a
  quiet world one attempt is enough wherever an operation returns at all, so the properties ask
  for \<open>0 < fuel\<close>; that an operation never returns is stated for every fuel.

  Integers. Stored words are the signed values of 64 bits (32 in the control block); arithmetic on
  them wraps where the code's could overflow. Bit patterns of doubles are carried unchanged.

  Not modelled. The JavaScript and Python front ends are in other languages and call the operations
  modelled here; \<open>ems_proto.h\<close> only declares them, and a block of \<open>ems.cc\<close> is disabled by
  \<open>#if 0\<close>. Of \<open>EMSinitialize\<close> the locking of memory and the pinning of processes are the operating
  system's and do not touch the buffer; its other system calls appear by whether they succeed. The
  lengths of naps and messages on the error output have no effect on the state. All NaNs are one
  NaN, and reads beyond the end of the heap are \<open>None\<close>.

  Not shown. Texts and mapped arrays, stacks and queues are covered in quiet worlds as a whole, and
  under interference by what holds of single transitions only: \<open>el_step\<close> is about the elements of an
  unmapped array of numbers, and its operations out of full or empty. The processes that initialise
  an array run one after another. Sizes and indexes of the layout are natural numbers, where the code
  would wrap for arrays that fill the address space. Of the keys that are doubles, NaNs are never
  found again and the bits of minus zero have no absolute value, so both are left out of the maps as
  a whole.
\<close>

end
